(* ===== verification/Prelude.thy ===== *)
theory Prelude
  imports Main "HOL-Library.Word" "HOL-Library.AList"
begin

text \<open>
  Shared vocabulary of the development: the machine types of the Go source
  (bytes, unsigned words, the 64-bit signed \<open>int\<close>), checked slicing, the
  fixed-width and byte-order codecs of \<open>encoding/binary\<close>, hexadecimal text,
  the string functions of \<open>strings\<close> and \<open>bytes\<close> the program calls, finite
  maps as association lists without duplicate keys, and the result type for
  code that can fail.  The generic lemmas about them are proved here and
  collected so that the component theories stay short.
\<close>

unbundle bit_operations_syntax

named_theorems size_simps \<open>lengths of encoded fields\<close>
named_theorems codec_simps \<open>decode-after-encode laws of the field codecs\<close>
named_theorems gomap_simps \<open>laws of association lists used as Go maps\<close>

section \<open>Machine types\<close>

type_synonym byte = "8 word"
type_synonym bytes = "byte list"
type_synonym u16 = "16 word"
type_synonym u32 = "32 word"
type_synonym u64 = "64 word"

text \<open>A 32-byte array (\<open>[32]byte\<close>, \<open>hashid.Hash\<close>, \<open>cache.Key\<close>, \<open>registry.Key\<close>).\<close>

type_synonym hash = bytes

abbreviation wf_hash :: "hash \<Rightarrow> bool" where
  "wf_hash h \<equiv> length h = 32"

text \<open>Instants and durations are nanoseconds on the monotonic clock.\<close>

type_synonym time = int
type_synonym duration = int

abbreviation millisecond :: duration where "millisecond \<equiv> 1000000"
abbreviation second :: duration where "second \<equiv> 1000000000"
abbreviation minute :: duration where "minute \<equiv> 60000000000"

text \<open>Go's \<open>int\<close> is 64 bits wide: arithmetic wraps in two's complement.\<close>

definition wrap_int :: "int \<Rightarrow> int" where
  "wrap_int x = (x + 2 ^ 63) mod 2 ^ 64 - 2 ^ 63"

definition int_of_u64 :: "u64 \<Rightarrow> int" where
  "int_of_u64 w = wrap_int (uint w)"

definition u64_of_len :: "'a list \<Rightarrow> u64" where
  "u64_of_len xs = of_nat (length xs)"

lemma wrap_int_id: "- (2 ^ 63) \<le> x \<Longrightarrow> x < 2 ^ 63 \<Longrightarrow> wrap_int x = x"
  unfolding wrap_int_def by (simp add: mod_pos_pos_trivial)

lemma wrap_int_range: "- (2 ^ 63) \<le> wrap_int x \<and> wrap_int x < 2 ^ 63"
proof -
  have "0 \<le> (x + 2 ^ 63) mod 2 ^ 64" "(x + 2 ^ 63) mod 2 ^ 64 < (2 ^ 64 :: int)"
    by (simp_all only: pos_mod_sign pos_mod_bound zero_less_power zero_less_numeral)
  then show ?thesis unfolding wrap_int_def by simp
qed

lemma uint_u64_of_len:
  "length xs < 2 ^ 64 \<Longrightarrow> uint (u64_of_len xs) = int (length xs)"
  by (simp add: u64_of_len_def uint_nat unat_of_nat)

lemma int_of_u64_of_len:
  "length xs < 2 ^ 63 \<Longrightarrow> int_of_u64 (u64_of_len xs) = int (length xs)"
  by (simp add: int_of_u64_def uint_u64_of_len wrap_int_id)

section \<open>Results\<close>

type_synonym ('e, 'a) res = "'e + 'a"

definition res_bind :: "('e, 'a) res \<Rightarrow> ('a \<Rightarrow> ('e, 'b) res) \<Rightarrow> ('e, 'b) res" where
  "res_bind r f = (case r of Inl e \<Rightarrow> Inl e | Inr a \<Rightarrow> f a)"

text \<open>An optional answer read as a result: \<open>None\<close> is the given error.\<close>

definition guard_opt :: "'e \<Rightarrow> 'a option \<Rightarrow> ('e, 'a) res" where
  "guard_opt e x = (case x of None \<Rightarrow> Inl e | Some a \<Rightarrow> Inr a)"

lemma res_bind_simps [simp]:
  "res_bind (Inl e) f = Inl e"
  "res_bind (Inr a) f = f a"
  by (simp_all add: res_bind_def)

lemma guard_opt_simps [simp]:
  "guard_opt e None = Inl e"
  "guard_opt e (Some a) = Inr a"
  by (simp_all add: guard_opt_def)

lemma res_bind_Inr_iff: "res_bind r f = Inr b \<longleftrightarrow> (\<exists>a. r = Inr a \<and> f a = Inr b)"
  by (cases r) simp_all

lemma guard_opt_Inr_iff: "guard_opt e x = Inr a \<longleftrightarrow> x = Some a"
  by (cases x) simp_all

section \<open>Slices\<close>

text \<open>
  \<open>b[lo:hi]\<close>: \<open>None\<close> is the run-time panic.  A bound past the length is
  treated as a panic too, so the model never reads bytes that are not the
  slice's own.
\<close>

definition slice :: "'a list \<Rightarrow> int \<Rightarrow> int \<Rightarrow> 'a list option" where
  "slice b lo hi =
     (if 0 \<le> lo \<and> lo \<le> hi \<and> hi \<le> int (length b)
      then Some (take (nat (hi - lo)) (drop (nat lo) b)) else None)"

lemma slice_full: "slice b 0 (int (length b)) = Some b"
  by (simp add: slice_def)

lemma slice_middle:
  "lo = int (length xs) \<Longrightarrow> hi = lo + int (length ys) \<Longrightarrow>
   slice (xs @ ys @ zs) lo hi = Some ys"
  by (simp add: slice_def)

lemma slice_suffix:
  "lo = int (length xs) \<Longrightarrow> hi = lo + int (length ys) \<Longrightarrow>
   slice (xs @ ys) lo hi = Some ys"
  using slice_middle [of lo xs hi ys "[]"] by simp

lemma slice_prefix: "hi = int (length xs) \<Longrightarrow> slice (xs @ ys) 0 hi = Some xs"
  by (simp add: slice_def)

lemma length_slice: "slice b lo hi = Some s \<Longrightarrow> int (length s) = hi - lo"
  by (auto simp: slice_def split: if_splits)

text \<open>Cutting a run of whole 32-byte groups.\<close>

fun chunks32 :: "nat \<Rightarrow> bytes \<Rightarrow> hash list" where
  "chunks32 0 b = []"
| "chunks32 (Suc n) b = take 32 b # chunks32 n (drop 32 b)"

lemma length_chunks32 [simp]: "length (chunks32 n b) = n"
  by (induction n arbitrary: b) auto

lemma chunks32_concat:
  "\<forall>h \<in> set hs. length h = 32 \<Longrightarrow> chunks32 (length hs) (concat hs @ rest) = hs"
  by (induction hs) auto

lemma length_concat32:
  "\<forall>h \<in> set hs. length h = 32 \<Longrightarrow> length (concat hs) = 32 * length hs"
  by (induction hs) auto

lemma concat_chunks32:
  "length b = 32 * n \<Longrightarrow> concat (chunks32 n b) = b"
  by (induction n arbitrary: b) auto

lemma chunks32_wf: "32 * n \<le> length b \<Longrightarrow> h \<in> set (chunks32 n b) \<Longrightarrow> length h = 32"
proof (induction n arbitrary: b)
  case (Suc n)
  have "32 * n \<le> length (drop 32 b)" using Suc.prems(1) by simp
  then show ?case using Suc.IH [of "drop 32 b"] Suc.prems by auto
qed simp

lemma chunks32_nth:
  "i < n \<Longrightarrow> chunks32 n b ! i = take 32 (drop (32 * i) b)"
proof (induction n arbitrary: b i)
  case 0
  then show ?case by simp
next
  case (Suc n)
  then show ?case by (cases i) (auto simp: add.commute)
qed

section \<open>encoding/binary\<close>

text \<open>Little-endian digits base 256, and the two byte orders over them.\<close>

fun le_bytes :: "nat \<Rightarrow> nat \<Rightarrow> bytes" where
  "le_bytes 0 v = []"
| "le_bytes (Suc n) v = of_nat (v mod 256) # le_bytes n (v div 256)"

fun le_val :: "bytes \<Rightarrow> nat" where
  "le_val [] = 0"
| "le_val (b # bs) = unat b + 256 * le_val bs"

definition put_be64 :: "u64 \<Rightarrow> bytes" where
  "put_be64 v = rev (le_bytes 8 (unat v))"

definition get_be64 :: "bytes \<Rightarrow> u64" where
  "get_be64 b = of_nat (le_val (rev b))"

definition put_le :: "nat \<Rightarrow> u64 \<Rightarrow> bytes" where
  "put_le n v = le_bytes n (unat v)"

definition get_le :: "bytes \<Rightarrow> u64" where
  "get_le b = of_nat (le_val b)"

lemma unat_byte_less [simp]: "unat (b :: byte) < 256"
  using unsigned_less [of b, where ?'a = nat] by simp

lemma unat_u64_less: "unat (v :: u64) < 2 ^ 64"
  using unsigned_less [of v, where ?'a = nat] by simp

lemma length_le_bytes [simp, size_simps]: "length (le_bytes n v) = n"
  by (induction n arbitrary: v) auto

lemma length_put_be64 [simp, size_simps]: "length (put_be64 v) = 8"
  by (simp add: put_be64_def)

lemma length_put_le [simp, size_simps]: "length (put_le n v) = n"
  by (simp add: put_le_def)

lemma le_val_le_bytes: "le_val (le_bytes n v) = v mod 256 ^ n"
proof (induction n arbitrary: v)
  case (Suc n)
  have "le_val (le_bytes (Suc n) v) = v mod 256 + 256 * (v div 256 mod 256 ^ n)"
    using Suc by (simp add: unat_of_nat)
  also have "\<dots> = v mod (256 * 256 ^ n)"
    by (simp add: mod_mult2_eq)
  finally show ?case by simp
qed simp

lemma le_val_bound: "le_val b < 256 ^ length b"
proof (induction b)
  case (Cons x b)
  have x: "unat x < 256" by simp
  from Cons have "256 * le_val b + 256 \<le> 256 * 256 ^ length b" by simp
  with x have "unat x + 256 * le_val b < 256 * 256 ^ length b" by linarith
  then show ?case by simp
qed simp

lemma le_bytes_le_val: "le_bytes (length b) (le_val b) = b"
proof (induction b)
  case (Cons x b)
  have "of_nat (unat x) = x" by simp
  moreover have "unat x < 256" by simp
  ultimately show ?case using Cons by (simp add: mod_add_eq div_add1_eq)
qed simp

lemma get_put_be64 [codec_simps]: "get_be64 (put_be64 v) = v"
  using unat_u64_less [of v] by (simp add: get_be64_def put_be64_def le_val_le_bytes)

lemma put_get_be64 [codec_simps]: "length b = 8 \<Longrightarrow> put_be64 (get_be64 b) = b"
proof -
  assume b: "length b = 8"
  then have "le_val (rev b) < 256 ^ 8" using le_val_bound [of "rev b"] by simp
  then have "unat (of_nat (le_val (rev b)) :: u64) = le_val (rev b)"
    by (simp add: unat_of_nat)
  then show ?thesis
    using b le_bytes_le_val [of "rev b"] by (simp add: get_be64_def put_be64_def)
qed

lemma get_put_le [codec_simps]: "unat v < 256 ^ n \<Longrightarrow> get_le (put_le n v) = v"
  by (simp add: get_le_def put_le_def le_val_le_bytes)

section \<open>encoding/hex\<close>

definition hex_digit :: "nat \<Rightarrow> char" where
  "hex_digit n = ''0123456789abcdef'' ! n"

fun hex_encode :: "bytes \<Rightarrow> string" where
  "hex_encode [] = []"
| "hex_encode (b # bs) =
     hex_digit (unat b div 16) # hex_digit (unat b mod 16) # hex_encode bs"

definition from_hex_char :: "char \<Rightarrow> nat option" where
  "from_hex_char c =
     (let n = of_char c :: nat in
      if 48 \<le> n \<and> n \<le> 57 then Some (n - 48)
      else if 97 \<le> n \<and> n \<le> 102 then Some (n - 87)
      else if 65 \<le> n \<and> n \<le> 70 then Some (n - 55)
      else None)"

fun hex_decode :: "string \<Rightarrow> bytes option" where
  "hex_decode [] = Some []"
| "hex_decode [c] = None"
| "hex_decode (a # b # s) =
     (case from_hex_char a of None \<Rightarrow> None | Some x \<Rightarrow>
      (case from_hex_char b of None \<Rightarrow> None | Some y \<Rightarrow>
       (case hex_decode s of None \<Rightarrow> None | Some r \<Rightarrow>
        Some (of_nat (16 * x + y) # r))))"

lemma from_hex_digit [simp]: "n < 16 \<Longrightarrow> from_hex_char (hex_digit n) = Some n"
proof -
  assume n: "n < 16"
  have "list_all (\<lambda>n. from_hex_char (hex_digit n) = Some n) [0..<16]" by code_simp
  with n show ?thesis by (simp add: list_all_iff)
qed

lemma from_hex_char_bound: "from_hex_char c = Some n \<Longrightarrow> n < 16"
  by (auto simp: from_hex_char_def Let_def split: if_splits)

lemma length_hex_encode [simp]: "length (hex_encode b) = 2 * length b"
  by (induction b) auto

lemma hex_decode_encode [codec_simps]: "hex_decode (hex_encode b) = Some b"
proof (induction b)
  case (Cons x b)
  have "16 * (unat x div 16) + unat x mod 16 = unat x" by simp
  moreover have "unat x div 16 < 16"
    by (rule less_mult_imp_div_less) simp
  ultimately show ?case using Cons by simp
qed simp

lemma hex_decode_length: "hex_decode s = Some r \<Longrightarrow> length s = 2 * length r"
  by (induction s arbitrary: r rule: hex_decode.induct) (auto split: option.splits)

lemma hex_decode_Some_iff:
  "(\<exists>r. hex_decode s = Some r) \<longleftrightarrow> even (length s) \<and> (\<forall>c \<in> set s. from_hex_char c \<noteq> None)"
  by (induction s rule: hex_decode.induct) (auto split: option.splits)

section \<open>strings and bytes\<close>

fun has_prefix :: "'a list \<Rightarrow> 'a list \<Rightarrow> bool" where
  "has_prefix s [] = True"
| "has_prefix [] (p # ps) = False"
| "has_prefix (x # xs) (p # ps) = (x = p \<and> has_prefix xs ps)"

fun contains :: "'a list \<Rightarrow> 'a list \<Rightarrow> bool" where
  "contains [] sub = (sub = [])"
| "contains (x # xs) sub = (has_prefix (x # xs) sub \<or> contains xs sub)"

lemma has_prefix_iff: "has_prefix s p \<longleftrightarrow> (\<exists>r. s = p @ r)"
  by (induction s p rule: has_prefix.induct) auto

lemma contains_iff: "contains s sub \<longleftrightarrow> (\<exists>a b. s = a @ sub @ b)"
proof (induction s)
  case (Cons x xs)
  show ?case
  proof
    assume "contains (x # xs) sub"
    then consider r where "x # xs = sub @ r" | "contains xs sub"
      by (auto simp: has_prefix_iff)
    then show "\<exists>a b. x # xs = a @ sub @ b"
    proof cases
      case (1 r)
      then have "x # xs = [] @ sub @ r" by simp
      then show ?thesis by blast
    next
      case 2
      then obtain a b where "xs = a @ sub @ b" using Cons by blast
      then have "x # xs = (x # a) @ sub @ b" by simp
      then show ?thesis by blast
    qed
  next
    assume "\<exists>a b. x # xs = a @ sub @ b"
    then obtain a b where ab: "x # xs = a @ sub @ b" by blast
    show "contains (x # xs) sub"
    proof (cases a)
      case Nil
      with ab have "has_prefix (x # xs) sub" by (simp add: has_prefix_iff)
      then show ?thesis by simp
    next
      case (Cons c cs)
      with ab have "xs = cs @ sub @ b" by simp
      then show ?thesis using \<open>contains xs sub = _\<close> by auto
    qed
  qed
qed simp

text \<open>\<open>strings.Split\<close> on a one-character separator.\<close>

fun split_on :: "char \<Rightarrow> string \<Rightarrow> string list" where
  "split_on c [] = [[]]"
| "split_on c (x # xs) =
     (if x = c then [] # split_on c xs
      else (case split_on c xs of [] \<Rightarrow> [[x]] | l # ls \<Rightarrow> (x # l) # ls))"

definition trim_right :: "char \<Rightarrow> string \<Rightarrow> string" where
  "trim_right c s = rev (dropWhile (\<lambda>x. x = c) (rev s))"

definition trim :: "char \<Rightarrow> string \<Rightarrow> string" where
  "trim c s = trim_right c (dropWhile (\<lambda>x. x = c) s)"

lemma split_on_not_Nil [simp]: "split_on c s \<noteq> []"
  by (cases s) (auto split: list.splits)

lemma split_on_no_sep: "l \<in> set (split_on c s) \<Longrightarrow> c \<notin> set l"
  by (induction s arbitrary: l) (auto split: if_splits list.splits)

lemma trim_right_last: "trim_right c s \<noteq> [] \<Longrightarrow> last (trim_right c s) \<noteq> c"
proof -
  assume "trim_right c s \<noteq> []"
  then have ne: "dropWhile (\<lambda>x. x = c) (rev s) \<noteq> []" by (simp add: trim_right_def)
  have "hd (dropWhile (\<lambda>x. x = c) (rev s)) \<noteq> c"
    using hd_dropWhile [OF ne] by simp
  then show ?thesis using ne by (simp add: trim_right_def last_rev)
qed

section \<open>Go maps as association lists\<close>

type_synonym ('k, 'v) gomap = "('k \<times> 'v) list"

abbreviation gomap_ok :: "('k, 'v) gomap \<Rightarrow> bool" where
  "gomap_ok m \<equiv> distinct (map fst m)"

lemma length_update [gomap_simps]:
  "length (AList.update k v m) = (if k \<in> fst ` set m then length m else Suc (length m))"
  by (induction m) auto

lemma map_of_update [gomap_simps]: "map_of (AList.update k v m) = (map_of m)(k \<mapsto> v)"
  by (induction m) auto

lemma map_of_delete [gomap_simps]: "map_of (AList.delete k m) = (map_of m)(k := None)"
  by (induction m) auto

lemma gomap_ok_update [simp]: "gomap_ok m \<Longrightarrow> gomap_ok (AList.update k v m)"
  by (rule distinct_update)

lemma gomap_ok_delete [simp]: "gomap_ok m \<Longrightarrow> gomap_ok (AList.delete k m)"
  by (rule distinct_delete)

lemma card_dom_gomap: "gomap_ok m \<Longrightarrow> card (dom (map_of m)) = length m"
  by (metis card_image distinct_card dom_map_of_conv_image_fst length_map set_map)

lemma map_of_None_key: "map_of m k = None \<longleftrightarrow> k \<notin> fst ` set m"
  by (rule map_of_eq_None_iff)

lemma map_of_Some_key: "map_of m k = Some v \<Longrightarrow> k \<in> fst ` set m"
  by (metis map_of_eq_None_iff option.distinct(1))

text \<open>Total of a measure over the values of a map.\<close>

definition gsum :: "('v \<Rightarrow> int) \<Rightarrow> ('k, 'v) gomap \<Rightarrow> int" where
  "gsum f m = sum_list (map (\<lambda>kv. f (snd kv)) m)"

lemma gsum_Nil [simp]: "gsum f [] = 0"
  by (simp add: gsum_def)

lemma gsum_update_fresh [gomap_simps]:
  "map_of m k = None \<Longrightarrow> gsum f (AList.update k v m) = gsum f m + f v"
  by (induction m) (auto simp: gsum_def split: if_splits)

lemma gsum_update_same [gomap_simps]:
  "gomap_ok m \<Longrightarrow> map_of m k = Some v \<Longrightarrow> gsum f (AList.update k w m) = gsum f m - f v + f w"
proof (induction m)
  case (Cons x m)
  then show ?case by (cases x) (auto simp: gsum_def split: if_splits)
qed simp

lemma delete_absent: "map_of m k = None \<Longrightarrow> AList.delete k m = m"
  by (induction m) (auto split: if_splits)

lemma gsum_delete [gomap_simps]:
  "gomap_ok m \<Longrightarrow> map_of m k = Some v \<Longrightarrow> gsum f (AList.delete k m) = gsum f m - f v"
proof (induction m)
  case (Cons x m)
  show ?case
  proof (cases "fst x = k")
    case True
    with Cons.prems(1) have "map_of m k = None" by (auto simp: map_of_eq_None_iff)
    then have "AList.delete k m = m" by (rule delete_absent)
    with True Cons.prems(2) show ?thesis by (cases x) (simp add: gsum_def)
  next
    case False
    with Cons show ?thesis by (cases x) (simp add: gsum_def)
  qed
qed simp

lemma gsum_nonneg: "(\<And>v. 0 \<le> f v) \<Longrightarrow> 0 \<le> gsum f m"
  by (induction m) (auto simp: gsum_def)

section \<open>Systems that come to an end\<close>

text \<open>
  A step relation on the states of an invariant, with a potential every step
  lowers and a step wherever the system is not final: no run goes on for
  ever, none gets stuck early, and each has a bounded length.
\<close>

locale terminating_system =
  fixes step :: "'s \<Rightarrow> 's \<Rightarrow> bool" and ok :: "'s \<Rightarrow> bool" and pot :: "'s \<Rightarrow> nat" and final :: "'s \<Rightarrow> bool"
  assumes ok_step: "ok s \<Longrightarrow> step s s' \<Longrightarrow> ok s'"
    and pot_step: "ok s \<Longrightarrow> step s s' \<Longrightarrow> pot s' < pot s"
    and progress: "ok s \<Longrightarrow> \<not> final s \<Longrightarrow> \<exists>s'. step s s'"
begin

lemma run_bound: "(step ^^ k) s s' \<Longrightarrow> ok s \<Longrightarrow> ok s' \<and> k + pot s' \<le> pot s"
proof (induction k arbitrary: s')
  case (Suc k)
  then obtain m where m: "(step ^^ k) s m" "step m s'" by auto
  with Suc have "ok m" "k + pot m \<le> pot s" by blast+
  with m(2) show ?case using ok_step pot_step by fastforce
qed simp

lemma run_to_final: "ok s \<Longrightarrow> \<exists>s'. step\<^sup>*\<^sup>* s s' \<and> ok s' \<and> final s'"
proof (induction "pot s" arbitrary: s rule: less_induct)
  case less
  show ?case
  proof (cases "final s")
    case False
    then obtain m where "step s m" "ok m" "pot m < pot s" using less.prems progress ok_step pot_step by blast
    then show ?thesis using less.hyps by (meson converse_rtranclp_into_rtranclp)
  qed (use less.prems in blast)
qed

lemma no_infinite_run: "ok (run 0) \<Longrightarrow> \<exists>k. \<not> step (run k) (run (Suc k))"
proof (rule ccontr)
  assume ok: "ok (run 0)" and "\<nexists>k. \<not> step (run k) (run (Suc k))"
  then have "(step ^^ k) (run 0) (run k)" for k by (induction k) auto
  from run_bound [OF this [of "Suc (pot (run 0))"] ok] show False by simp
qed

end

section \<open>Refinement with silent steps\<close>

text \<open>
  A detailed system that implements an abstract one: each of its steps is a
  step of the abstract system with the same label, or is not seen there.
\<close>

locale stuttering_refinement =
  fixes cstep :: "'l option \<Rightarrow> 'c \<Rightarrow> 'c \<Rightarrow> bool" and astep :: "'l \<Rightarrow> 'a \<Rightarrow> 'a \<Rightarrow> bool"
    and abs :: "'c \<Rightarrow> 'a" and ok :: "'c \<Rightarrow> bool"
  assumes ok_step: "ok s \<Longrightarrow> cstep l s s' \<Longrightarrow> ok s'"
    and silent: "ok s \<Longrightarrow> cstep None s s' \<Longrightarrow> abs s' = abs s"
    and visible: "ok s \<Longrightarrow> cstep (Some a) s s' \<Longrightarrow> astep a (abs s) (abs s')"
begin

lemma simulates:
  assumes "ok s" and "(\<lambda>s s'. \<exists>l. cstep l s s')\<^sup>*\<^sup>* s s'"
  shows "ok s' \<and> (\<lambda>p p'. \<exists>a. astep a p p')\<^sup>*\<^sup>* (abs s) (abs s')"
  using assms(2)
proof (induction rule: rtranclp_induct)
  case (step t u)
  then obtain l where l: "cstep l t u" by blast
  show ?case
  proof (cases l)
    case None
    then show ?thesis using step l ok_step silent by metis
  next
    case (Some a)
    then have "\<exists>a. astep a (abs t) (abs u)" using step l visible by blast
    then have "(\<lambda>p p'. \<exists>a. astep a p p')\<^sup>*\<^sup>* (abs s) (abs u)"
      using step.IH rtranclp.rtrancl_into_rtrancl [of "\<lambda>p p'. \<exists>a. astep a p p'" "abs s" "abs t" "abs u"] by simp
    then show ?thesis using step.IH l ok_step by blast
  qed
qed (use assms(1) in simp)

end

end
