(* ===== verification/Sharding.thy ===== *)
theory Sharding
  imports Prelude
begin

text \<open>
  Both caches and the registry spread their keys over 64 shards by the low six
  bits of the first key byte (\<open>key[0] & (shards-1)\<close>).  A sharded structure is
  a list of 64 shard states; the operations below replace one shard.  The
  lemmas lift a per-shard invariant and a per-shard frame to the whole
  structure.
\<close>

definition shards :: nat where
  "shards = 64"

definition shard_index :: "hash \<Rightarrow> nat" where
  "shard_index key = unat ((key ! 0) AND 63)"

definition shardOf :: "'s list \<Rightarrow> hash \<Rightarrow> 's" where
  "shardOf ss key = ss ! shard_index key"

definition set_shard :: "'s list \<Rightarrow> hash \<Rightarrow> 's \<Rightarrow> 's list" where
  "set_shard ss key s = ss[shard_index key := s]"

definition all_shards :: "('s \<Rightarrow> bool) \<Rightarrow> 's list \<Rightarrow> bool" where
  "all_shards P ss \<longleftrightarrow> length ss = shards \<and> (\<forall>s \<in> set ss. P s)"

lemma shard_index_less [simp]: "shard_index key < shards"
proof -
  have "(key ! 0) AND 63 \<le> (63 :: byte)" by (rule word_and_le1)
  then have "unat ((key ! 0) AND 63) \<le> unat (63 :: byte)" by (simp add: word_le_nat_alt)
  then show ?thesis by (simp add: shard_index_def shards_def)
qed

lemma shardOf_in: "length ss = shards \<Longrightarrow> shardOf ss key \<in> set ss"
  by (simp add: shardOf_def)

lemma shardOf_replicate [simp]: "shardOf (replicate shards s) key = s"
  by (simp add: shardOf_def)

lemma shardOf_set_same [simp]: "length ss = shards \<Longrightarrow> shardOf (set_shard ss key s) key = s"
  by (simp add: shardOf_def set_shard_def)

lemma shardOf_set_shard:
  "length ss = shards \<Longrightarrow>
   shardOf (set_shard ss key s) key' =
     (if shard_index key' = shard_index key then s else shardOf ss key')"
  by (auto simp: shardOf_def set_shard_def nth_list_update)

lemma length_set_shard [simp]: "length (set_shard ss key s) = length ss"
  by (simp add: set_shard_def)

lemma all_shards_length: "all_shards P ss \<Longrightarrow> length ss = shards"
  by (simp add: all_shards_def)

lemma all_shards_shardOf: "all_shards P ss \<Longrightarrow> P (shardOf ss key)"
  by (simp add: all_shards_def shardOf_in)

lemma all_shards_set_shard: "all_shards P ss \<Longrightarrow> P s \<Longrightarrow> all_shards P (set_shard ss key s)"
  unfolding all_shards_def set_shard_def by (auto dest: set_update_subset_insert [THEN subsetD])

text \<open>An operation that keeps a shard well formed keeps the whole structure well formed.\<close>

lemma all_shards_update:
  "all_shards P ss \<Longrightarrow> (P (shardOf ss key) \<Longrightarrow> P s) \<Longrightarrow> all_shards P (set_shard ss key s)"
  by (simp add: all_shards_set_shard all_shards_shardOf)

lemma all_shards_replicate: "P s \<Longrightarrow> all_shards P (replicate shards s)"
  by (simp add: all_shards_def)

lemma shardOf_cong: "shard_index k = shard_index key \<Longrightarrow> shardOf ss k = shardOf ss key"
  by (simp add: shardOf_def)

text \<open>Sums over shards, as the \<open>Stats\<close> methods take them.\<close>

lemma sum_list_shards_bound:
  assumes "all_shards P ss" and "\<And>s. P s \<Longrightarrow> f s \<le> (b :: nat)"
  shows "sum_list (map f ss) \<le> shards * b"
proof -
  have "sum_list (map f ss) \<le> sum_list (map (\<lambda>_. b) ss)"
    using assms by (intro sum_list_mono) (auto simp: all_shards_def)
  also have "\<dots> = shards * b"
    using assms(1) by (simp add: sum_list_triv all_shards_def)
  finally show ?thesis .
qed

end
