(* ===== verification/Registry.thy ===== *)
theory Registry
  imports Sharding
begin

text \<open>
  The package \<open>registry\<close>: the set of hashes that crossed the bridge, with the
  direction each was first seen in, aged by rotating a current and a previous
  map per shard.  The clock reading of each operation is an argument.  The
  lemmas give the size bound, the retention window, and the contract that the
  lane handlers and the reverse path rely on (the locale \<open>seen_set\<close>, with its
  interpretation on this registry).
\<close>

datatype Direction = Delivered | Submitted

text \<open>The zero \<open>Direction\<close> of an absent entry is \<open>None\<close>.\<close>

fun Direction_String :: "Direction option \<Rightarrow> string" where
  "Direction_String (Some Delivered) = ''delivered''"
| "Direction_String (Some Submitted) = ''submitted''"
| "Direction_String None = ''unknown''"

record rshard =
  r_cur :: "(hash, Direction) gomap"
  r_prev :: "(hash, Direction) gomap"
  r_rotated :: time
  r_cap :: nat
  r_hits :: nat
  r_adds :: nat
  r_pruned :: nat

record Registry =
  reg_s :: "rshard list"
  reg_ttl :: duration

definition registry_New :: "duration \<Rightarrow> int \<Rightarrow> time \<Rightarrow> Registry" where
  "registry_New ttl maxEntries start =
     (let ttl' = (if ttl \<le> 0 then 30 * minute else ttl);
          max' = (if maxEntries \<le> 0 then 2 ^ 20 else maxEntries);
          per = max' div 64 div 2;
          per' = (if per \<le> 0 then 1 else per)
      in \<lparr> reg_s = replicate shards
              \<lparr> r_cur = [], r_prev = [], r_rotated = start, r_cap = nat per',
                r_hits = 0, r_adds = 0, r_pruned = 0 \<rparr>,
           reg_ttl = ttl' \<rparr>)"

definition r_rotateLocked :: "time \<Rightarrow> rshard \<Rightarrow> rshard" where
  "r_rotateLocked now s =
     s\<lparr> r_pruned := r_pruned s + length (r_prev s),
        r_prev := r_cur s,
        r_cur := [],
        r_rotated := now \<rparr>"

definition maybeRotateLocked :: "time \<Rightarrow> duration \<Rightarrow> rshard \<Rightarrow> rshard" where
  "maybeRotateLocked now halfTTL s =
     (if now - r_rotated s \<ge> halfTTL \<or> length (r_cur s) \<ge> r_cap s
      then r_rotateLocked now s else s)"

text \<open>\<open>Mark\<close> on the shard of its key, once rotation has been considered.\<close>

definition mark_shard :: "hash \<Rightarrow> Direction \<Rightarrow> rshard \<Rightarrow> Direction option \<times> rshard" where
  "mark_shard key dir s =
     (case map_of (r_cur s) key of
        Some d \<Rightarrow> (Some d, s\<lparr> r_hits := r_hits s + 1 \<rparr>)
      | None \<Rightarrow>
          (case map_of (r_prev s) key of
             Some d \<Rightarrow> (Some d, s\<lparr> r_hits := r_hits s + 1,
                                   r_cur := AList.update key d (r_cur s) \<rparr>)
           | None \<Rightarrow> (None, s\<lparr> r_cur := AList.update key dir (r_cur s),
                                r_adds := r_adds s + 1 \<rparr>)))"

definition Mark :: "time \<Rightarrow> hash \<Rightarrow> Direction \<Rightarrow> Registry \<Rightarrow> Direction option \<times> Registry" where
  "Mark now key dir r =
     (let s = maybeRotateLocked now (reg_ttl r div 2) (shardOf (reg_s r) key);
          res = mark_shard key dir s
      in (fst res, r\<lparr> reg_s := set_shard (reg_s r) key (snd res) \<rparr>))"

definition lookup_shard :: "hash \<Rightarrow> rshard \<Rightarrow> Direction option" where
  "lookup_shard key s =
     (case map_of (r_cur s) key of
        Some d \<Rightarrow> Some d
      | None \<Rightarrow> map_of (r_prev s) key)"

definition Lookup :: "hash \<Rightarrow> Registry \<Rightarrow> Direction option" where
  "Lookup key r = lookup_shard key (shardOf (reg_s r) key)"

record registry_Stats =
  rst_Entries :: nat
  rst_Hits :: nat
  rst_Adds :: nat
  rst_Pruned :: nat

definition registry_Stats_of :: "Registry \<Rightarrow> registry_Stats" where
  "registry_Stats_of r =
     \<lparr> rst_Entries = sum_list (map (\<lambda>s. length (r_cur s) + length (r_prev s)) (reg_s r)),
       rst_Hits = sum_list (map r_hits (reg_s r)),
       rst_Adds = sum_list (map r_adds (reg_s r)),
       rst_Pruned = sum_list (map r_pruned (reg_s r)) \<rparr>"

section \<open>Invariant\<close>

definition rshard_ok :: "nat \<Rightarrow> rshard \<Rightarrow> bool" where
  "rshard_ok c s \<longleftrightarrow>
     r_cap s = c \<and> 0 < c \<and> gomap_ok (r_cur s) \<and> gomap_ok (r_prev s) \<and>
     length (r_cur s) \<le> c \<and> length (r_prev s) \<le> c \<and>
     r_adds s + r_hits s \<ge> length (r_cur s)"

definition registry_ok :: "nat \<Rightarrow> Registry \<Rightarrow> bool" where
  "registry_ok c r \<longleftrightarrow> all_shards (rshard_ok c) (reg_s r)"

lemma rshard_ok_rotate:
  "rshard_ok c s \<Longrightarrow> rshard_ok c (maybeRotateLocked now h s) \<and>
     length (r_cur (maybeRotateLocked now h s)) < c"
  by (auto simp: rshard_ok_def maybeRotateLocked_def r_rotateLocked_def)

lemma rshard_ok_mark_shard:
  assumes "rshard_ok c s" and "length (r_cur s) < c"
  shows "rshard_ok c (snd (mark_shard key dir s))"
  using assms
  by (auto simp: rshard_ok_def mark_shard_def length_update split: option.splits)

lemma registry_ok_Mark: "registry_ok c r \<Longrightarrow> registry_ok c (snd (Mark now key dir r))"
proof -
  assume r: "registry_ok c r"
  then have "rshard_ok c (shardOf (reg_s r) key)"
    by (simp add: registry_ok_def all_shards_shardOf)
  then have "rshard_ok c (snd (mark_shard key dir
      (maybeRotateLocked now (reg_ttl r div 2) (shardOf (reg_s r) key))))"
    by (meson rshard_ok_mark_shard rshard_ok_rotate)
  with r show ?thesis
    by (simp add: registry_ok_def Mark_def Let_def all_shards_set_shard)
qed

lemma registry_ok_length: "registry_ok c r \<Longrightarrow> length (reg_s r) = shards"
  by (simp add: registry_ok_def all_shards_length)

lemma reg_ttl_Mark [simp]: "reg_ttl (snd (Mark now key dir r)) = reg_ttl r"
  by (simp add: Mark_def Let_def)

lemma registry_ok_New:
  "registry_ok (nat (max 1 ((if m \<le> 0 then 2 ^ 20 else m) div 128))) (registry_New ttl m start)"
proof -
  have "(x :: int) div 64 div 2 = x div 128" for x by (simp add: zdiv_zmult2_eq [symmetric])
  then show ?thesis
    unfolding registry_ok_def registry_New_def Let_def
    by (auto simp: rshard_ok_def max_def intro!: all_shards_replicate)
qed

section \<open>What a mark does to lookups\<close>

lemma lookup_rotate:
  "lookup_shard k (maybeRotateLocked now h s) = lookup_shard k s \<or>
   lookup_shard k (maybeRotateLocked now h s) = map_of (r_cur s) k"
  by (auto simp: maybeRotateLocked_def r_rotateLocked_def lookup_shard_def split: option.splits)

lemma lookup_rotate_sub:
  "lookup_shard k (maybeRotateLocked now h s) = Some d \<Longrightarrow> lookup_shard k s = Some d"
  using lookup_rotate [of k now h s] by (auto simp: lookup_shard_def split: option.splits)

lemma mark_shard_result: "fst (mark_shard key dir s) = lookup_shard key s"
  by (simp add: mark_shard_def lookup_shard_def split: option.splits)

lemma mark_shard_lookup:
  "lookup_shard k (snd (mark_shard key dir s)) =
     (if k = key then Some (case lookup_shard key s of None \<Rightarrow> dir | Some d \<Rightarrow> d)
      else lookup_shard k s)"
  by (auto simp: mark_shard_def lookup_shard_def gomap_simps split: option.splits)

lemma Mark_self:
  assumes "length (reg_s r) = shards"
  shows "Lookup key (snd (Mark now key dir r)) =
     Some (case fst (Mark now key dir r) of None \<Rightarrow> dir | Some d \<Rightarrow> d)"
  using assms
  by (simp add: Mark_def Let_def Lookup_def mark_shard_lookup mark_shard_result)

lemma Mark_known_sub: "fst (Mark now key dir r) = Some d \<Longrightarrow> Lookup key r = Some d"
  by (auto simp: Mark_def Let_def Lookup_def mark_shard_result dest: lookup_rotate_sub)

lemma Mark_frame:
  assumes "length (reg_s r) = shards" and "k \<noteq> key"
    and "Lookup k (snd (Mark now key dir r)) = Some d"
  shows "Lookup k r = Some d"
proof (cases "shard_index k = shard_index key")
  case True
  with assms have "lookup_shard k (maybeRotateLocked now (reg_ttl r div 2)
      (shardOf (reg_s r) key)) = Some d"
    by (simp add: Mark_def Let_def Lookup_def shardOf_set_shard mark_shard_lookup)
  then show ?thesis
    by (auto simp: Lookup_def shardOf_cong [OF True] dest: lookup_rotate_sub)
next
  case False
  with assms show ?thesis
    by (simp add: Mark_def Let_def Lookup_def shardOf_set_shard)
qed

section \<open>The contract the clients use\<close>

text \<open>A sequence of marks, as the handlers issue them, by increasing clock reading.\<close>

fun run_marks :: "(time \<Rightarrow> hash \<Rightarrow> Direction \<Rightarrow> 'r \<Rightarrow> Direction option \<times> 'r) \<Rightarrow>
    (time \<times> hash \<times> Direction) list \<Rightarrow> 'r \<Rightarrow> 'r" where
  "run_marks mark [] r = r"
| "run_marks mark ((now, key, dir) # ms) r = run_marks mark ms (snd (mark now key dir r))"

locale seen_set =
  fixes mark :: "time \<Rightarrow> hash \<Rightarrow> Direction \<Rightarrow> 'r \<Rightarrow> Direction option \<times> 'r"
    and look :: "hash \<Rightarrow> 'r \<Rightarrow> Direction option"
    and ok :: "'r \<Rightarrow> bool"
  assumes ok_mark: "ok r \<Longrightarrow> ok (snd (mark now key dir r))"
    and mark_self: "ok r \<Longrightarrow> look key (snd (mark now key dir r)) =
          Some (case fst (mark now key dir r) of None \<Rightarrow> dir | Some d \<Rightarrow> d)"
    and mark_known: "ok r \<Longrightarrow> fst (mark now key dir r) = Some d \<Longrightarrow> look key r = Some d"
    and mark_frame: "ok r \<Longrightarrow> k \<noteq> key \<Longrightarrow> look k (snd (mark now key dir r)) = Some d \<Longrightarrow>
          look k r = Some d"
begin

lemma mark_records: "ok r \<Longrightarrow> look key (snd (mark now key dir r)) \<noteq> None"
  by (simp add: mark_self)

lemma mark_fresh:
  assumes "ok r" and "look key r = None"
  shows "fst (mark now key dir r) = None \<and> look key (snd (mark now key dir r)) = Some dir"
proof -
  have "fst (mark now key dir r) = None"
    using assms mark_known by (metis option.exhaust option.distinct(1))
  with assms(1) show ?thesis by (simp add: mark_self)
qed

lemma mark_lookup_cases:
  assumes "ok r" and "look k (snd (mark now key dir r)) = Some d"
  shows "look k r = Some d \<or> (k = key \<and> d = dir)"
proof (cases "k = key")
  case True
  with assms mark_self [of r key now dir] mark_known [of r now key dir]
  show ?thesis by (auto split: option.splits)
next
  case False
  with assms mark_frame show ?thesis by blast
qed

lemma ok_run_marks: "ok r \<Longrightarrow> ok (run_marks mark ms r)"
proof (induction ms arbitrary: r)
  case (Cons m ms)
  then show ?case by (cases m) (simp add: ok_mark)
qed simp

lemma run_marks_lookup_cases:
  "ok r \<Longrightarrow> look k (run_marks mark ms r) = Some d \<Longrightarrow>
     look k r = Some d \<or> (\<exists>now. (now, k, d) \<in> set ms)"
proof (induction ms arbitrary: r)
  case Nil
  then show ?case by simp
next
  case (Cons m ms)
  obtain now key dir where m: "m = (now, key, dir)" by (cases m)
  from Cons.prems m have "look k (run_marks mark ms (snd (mark now key dir r))) = Some d"
    by simp
  with Cons.IH [OF ok_mark [OF Cons.prems(1)]]
  have "look k (snd (mark now key dir r)) = Some d \<or> (\<exists>t. (t, k, d) \<in> set ms)" by blast
  then show ?case
    using mark_lookup_cases [OF Cons.prems(1), of k now key dir d] m by auto
qed

text \<open>Delivered marks never turn a submitted hash into a delivered one.\<close>

lemma run_marks_keeps_direction:
  assumes "ok r" and "look k r = Some d" and "\<forall>(now, key, dir) \<in> set ms. key = k \<longrightarrow> dir = d"
  shows "look k (run_marks mark ms r) \<in> {None, Some d}"
proof (cases "look k (run_marks mark ms r)")
  case None
  then show ?thesis by simp
next
  case (Some d')
  from run_marks_lookup_cases [OF assms(1) this] assms(2,3) have "d' = d" by auto
  with Some show ?thesis by simp
qed

end

interpretation reg: seen_set Mark Lookup "registry_ok c"
proof
  fix r now key dir
  assume ok: "registry_ok c r"
  then have len: "length (reg_s r) = shards" by (rule registry_ok_length)
  show "registry_ok c (snd (Mark now key dir r))"
    using ok by (rule registry_ok_Mark)
  show "Lookup key (snd (Mark now key dir r)) =
      Some (case fst (Mark now key dir r) of None \<Rightarrow> dir | Some d \<Rightarrow> d)"
    using len by (rule Mark_self)
  show "Lookup key r = Some d" if "fst (Mark now key dir r) = Some d" for d
    using that by (rule Mark_known_sub)
  show "Lookup k r = Some d"
    if "k \<noteq> key" "Lookup k (snd (Mark now key dir r)) = Some d" for k d
    using len that by (rule Mark_frame)
qed

section \<open>Retention\<close>

text \<open>
  What the shard of a key keeps true from the moment the key is marked: the
  entry is in the current map, or in the previous one with fewer than \<open>n\<close>
  entries collected since a rotation that happened at or after \<open>t0\<close>.
\<close>

definition retained :: "time \<Rightarrow> hash \<Rightarrow> Direction \<Rightarrow> nat \<Rightarrow> rshard \<Rightarrow> bool" where
  "retained t0 k d n s \<longleftrightarrow>
     map_of (r_cur s) k = Some d \<or>
     (map_of (r_cur s) k = None \<and> map_of (r_prev s) k = Some d \<and>
      t0 \<le> r_rotated s \<and> length (r_cur s) \<le> n)"

lemma retained_lookup: "retained t0 k d n s \<Longrightarrow> lookup_shard k s = Some d"
  by (auto simp: retained_def lookup_shard_def)

lemma retained_mark:
  assumes "retained t0 k d n s" and "t0 \<le> now" and "now < t0 + h" and "n < r_cap s"
  shows "retained t0 k d (Suc n) (snd (mark_shard key dir (maybeRotateLocked now h s)))"
proof -
  have "retained t0 k d n (maybeRotateLocked now h s)"
    using assms by (auto simp: retained_def maybeRotateLocked_def r_rotateLocked_def)
  then show ?thesis
    by (auto simp: retained_def mark_shard_def gomap_simps split: option.splits)
qed

lemma r_cap_mark [simp]: "r_cap (snd (mark_shard key dir (maybeRotateLocked now h s))) = r_cap s"
  by (simp add: mark_shard_def maybeRotateLocked_def r_rotateLocked_def split: option.splits)

lemma retained_Mark:
  assumes "registry_ok c r" and "retained t0 k d n (shardOf (reg_s r) k)"
    and "t0 \<le> now" and "now < t0 + reg_ttl r div 2" and "n < c"
  shows "retained t0 k d (Suc n) (shardOf (reg_s (snd (Mark now key dir r))) k)"
proof -
  have len: "length (reg_s r) = shards" using assms(1) by (rule registry_ok_length)
  have cap: "r_cap (shardOf (reg_s r) key) = c" for key
    using all_shards_shardOf [of "rshard_ok c" "reg_s r" key] assms(1)
    by (simp add: registry_ok_def rshard_ok_def)
  show ?thesis
  proof (cases "shard_index k = shard_index key")
    case True
    with assms cap show ?thesis
      by (simp add: Mark_def Let_def shardOf_set_shard len shardOf_cong [OF True] retained_mark)
  next
    case False
    with assms(2) show ?thesis
      by (auto simp: Mark_def Let_def shardOf_set_shard len retained_def)
  qed
qed

lemma retained_run:
  "registry_ok c r \<Longrightarrow> retained t0 k d n (shardOf (reg_s r) k) \<Longrightarrow>
   \<forall>(now, key, dir) \<in> set ms. t0 \<le> now \<and> now < t0 + reg_ttl r div 2 \<Longrightarrow>
   n + length ms \<le> c \<Longrightarrow>
   Lookup k (run_marks Mark ms r) = Some d"
proof (induction ms arbitrary: r n)
  case Nil
  then show ?case by (simp add: Lookup_def retained_lookup)
next
  case (Cons m ms)
  obtain now key dir where m: "m = (now, key, dir)" by (cases m)
  have "retained t0 k d (Suc n) (shardOf (reg_s (snd (Mark now key dir r))) k)"
    using Cons.prems m by (intro retained_Mark) auto
  then show ?case
    using Cons.IH [of "snd (Mark now key dir r)" "Suc n"] Cons.prems m registry_ok_Mark by auto
qed

lemma retained_after_Mark:
  assumes "length (reg_s r) = shards"
  shows "retained t0 k (case fst (Mark now k d r) of None \<Rightarrow> d | Some x \<Rightarrow> x) 0
     (shardOf (reg_s (snd (Mark now k d r))) k)"
  using assms
  by (auto simp: retained_def Mark_def Let_def mark_shard_def gomap_simps split: option.splits)

text \<open>
  a hash that was just marked is known, and it is still known with the
  same direction after any sequence of further marks issued less than half the
  time-to-live later, as long as they are no more than a shard's rotation
  capacity.
\<close>

theorem registry_retention:
  assumes "registry_ok c r"
    and "\<forall>(now, key, dir) \<in> set ms. t0 \<le> now \<and> now < t0 + reg_ttl r div 2"
    and "length ms \<le> c"
  shows "Lookup k (snd (Mark t0 k d r)) \<noteq> None \<and>
     Lookup k (run_marks Mark ms (snd (Mark t0 k d r))) = Lookup k (snd (Mark t0 k d r))"
proof -
  have len: "length (reg_s r) = shards" using assms(1) by (rule registry_ok_length)
  show ?thesis
    using retained_run [OF registry_ok_Mark [OF assms(1)] retained_after_Mark [OF len]] assms(2,3)
      Mark_self [OF len] by simp
qed

theorem registry_retention_witness:
  "Lookup [1] (run_marks Mark [(5, [65], Submitted), (9, [2], Delivered)]
      (snd (Mark 0 [1] Delivered (registry_New 20 1000 0)))) = Some Delivered"
proof -
  have ok: "registry_ok 7 (registry_New 20 1000 0)"
    using registry_ok_New [of 1000 20 0] by simp
  have "Lookup [1] (snd (Mark 0 [1] Delivered (registry_New 20 1000 0))) = Some Delivered"
    using reg.mark_fresh [OF ok, of "[1]" 0 Delivered]
    by (simp add: Lookup_def registry_New_def lookup_shard_def Let_def)
  then show ?thesis
    using registry_retention [OF ok, of "[(5, [65], Submitted), (9, [2], Delivered)]" 0 "[1]" Delivered]
    by (simp add: registry_New_def Let_def)
qed

text \<open>
  a registry built for \<open>maxEntries\<close> (at least 128) never holds more than
  that many entries, whatever marks it receives; the entry count is the sum
  over all shards of both generations.
\<close>

theorem registry_bound:
  assumes "128 \<le> maxEntries"
  shows "int (rst_Entries (registry_Stats_of
      (run_marks Mark ms (registry_New ttl maxEntries start)))) \<le> maxEntries"
proof -
  define c where "c = nat (maxEntries div 128)"
  have c: "int c = maxEntries div 128" using assms by (simp add: c_def)
  have "registry_ok c (registry_New ttl maxEntries start)"
    using registry_ok_New [of maxEntries ttl start] assms by (simp add: c_def max_absorb2)
  then have "registry_ok c (run_marks Mark ms (registry_New ttl maxEntries start))"
    by (rule reg.ok_run_marks)
  then have "rst_Entries (registry_Stats_of (run_marks Mark ms (registry_New ttl maxEntries start)))
      \<le> shards * (2 * c)"
    unfolding registry_Stats_of_def registry_ok_def
    using sum_list_shards_bound [of "rshard_ok c" _ "\<lambda>s. length (r_cur s) + length (r_prev s)" "2 * c"]
    by (simp add: rshard_ok_def)
  then have "int (rst_Entries (registry_Stats_of (run_marks Mark ms (registry_New ttl maxEntries start))))
      \<le> 128 * (maxEntries div 128)"
    using c by (simp add: shards_def)
  then show ?thesis by linarith
qed

theorem registry_bound_witness:
  "int (rst_Entries (registry_Stats_of
      (run_marks Mark [(1, [7], Delivered)] (registry_New 10 128 0)))) \<le> 128"
  using registry_bound [of 128 "[(1, [7], Delivered)]" 10 0] by simp

end
