(* ===== verification/Store.thy ===== *)
theory Store
  imports Prelude
begin

text \<open>
  The contract between the planes that fill a hash-keyed cache and the planes
  that read it (\<open>retrieval.Store\<close>, \<open>retrieval.TxStore\<close>, \<open>reverse.Store\<close>): what
  is read under a key was put under that key.  The locale is interpreted on
  the LRU cache and on the generational cache in their own theories.
\<close>

datatype ('k, 'v) store_op = OpPut time 'k 'v | OpGet time 'k

fun run_ops :: "(time \<Rightarrow> 'k \<Rightarrow> 'v \<Rightarrow> 's \<Rightarrow> 's) \<Rightarrow> (time \<Rightarrow> 'k \<Rightarrow> 's \<Rightarrow> 'v option \<times> 's) \<Rightarrow>
    ('k, 'v) store_op list \<Rightarrow> 's \<Rightarrow> 's" where
  "run_ops put get [] s = s"
| "run_ops put get (OpPut t k v # ops) s = run_ops put get ops (put t k v s)"
| "run_ops put get (OpGet t k # ops) s = run_ops put get ops (snd (get t k s))"

locale object_store =
  fixes put :: "time \<Rightarrow> 'k \<Rightarrow> 'v \<Rightarrow> 's \<Rightarrow> 's"
    and get :: "time \<Rightarrow> 'k \<Rightarrow> 's \<Rightarrow> 'v option \<times> 's"
    and held :: "'k \<Rightarrow> 's \<Rightarrow> 'v option"
    and ok :: "'s \<Rightarrow> bool"
  assumes ok_put: "ok s \<Longrightarrow> ok (put t k v s)"
    and ok_get: "ok s \<Longrightarrow> ok (snd (get t k s))"
    and get_sound: "ok s \<Longrightarrow> fst (get t k s) = Some v \<Longrightarrow> held k s = Some v"
    and get_held: "ok s \<Longrightarrow> held k' (snd (get t k s)) = Some v \<Longrightarrow> held k' s = Some v"
    and put_held: "ok s \<Longrightarrow> held k' (put t k v s) = Some v' \<Longrightarrow>
          held k' s = Some v' \<or> (k' = k \<and> v' = v)"
begin

lemma ok_run_ops: "ok s \<Longrightarrow> ok (run_ops put get ops s)"
proof (induction ops arbitrary: s)
  case (Cons a ops)
  then show ?case by (cases a) (simp_all add: ok_put ok_get)
qed simp

lemma run_ops_held:
  "ok s \<Longrightarrow> held k (run_ops put get ops s) = Some v \<Longrightarrow>
     held k s = Some v \<or> (\<exists>t. OpPut t k v \<in> set ops)"
proof (induction ops arbitrary: s)
  case Nil
  then show ?case by simp
next
  case (Cons a ops)
  show ?case
  proof (cases a)
    case (OpPut t k' v')
    with Cons.prems Cons.IH [of "put t k' v' s"]
    have "held k (put t k' v' s) = Some v \<or> (\<exists>t. OpPut t k v \<in> set ops)"
      by (simp add: ok_put)
    with OpPut put_held [OF Cons.prems(1), of k t k' v' v] show ?thesis by auto
  next
    case (OpGet t k')
    with Cons.prems Cons.IH [of "snd (get t k' s)"]
    have "held k (snd (get t k' s)) = Some v \<or> (\<exists>t. OpPut t k v \<in> set ops)"
      by (simp add: ok_get)
    with OpGet get_held [OF Cons.prems(1)] show ?thesis by auto
  qed
qed

text \<open>Whatever a read returns was written under the same key.\<close>

lemma reads_are_writes:
  assumes "ok s" and "\<And>k. held k s = None"
    and "fst (get t k (run_ops put get ops s)) = Some v"
  shows "\<exists>t'. OpPut t' k v \<in> set ops"
proof -
  have "held k (run_ops put get ops s) = Some v"
    using assms(1,3) by (blast intro: get_sound ok_run_ops)
  with run_ops_held [OF assms(1)] assms(2) show ?thesis by fastforce
qed

text \<open>A property of every stored pair is a property of every pair held later.\<close>

lemma held_pairs_invariant:
  assumes "ok s" and "\<And>k v. held k s = Some v \<Longrightarrow> P k v"
    and "\<And>t k v. OpPut t k v \<in> set ops \<Longrightarrow> P k v"
    and "held k (run_ops put get ops s) = Some v"
  shows "P k v"
  using run_ops_held [OF assms(1,4)] assms(2,3) by blast

end

end
