(* ===== verification/Cache.thy ===== *)
theory Cache
  imports Sharding Store
begin

text \<open>
  The package \<open>cache\<close>, file \<open>cache.go\<close>: the LRU cache of pushed subtrees and
  blocks, sharded 64 ways, with a time-to-live and a byte ceiling per shard.
  The clock reading of an operation is an argument.  Entries are identified by
  their key, so the recency list holds keys (front first) and the map holds
  the entries; the invariant says the two agree and that the byte count is the
  sum of the stored bodies.  \<open>Put\<close> copies its argument and \<open>PutOwned\<close> does not:
  with bodies as values the two store the same bytes.
\<close>

record centry =
  e_body :: bytes
  e_class :: string
  e_stored :: time

record cshard =
  c_items :: "(hash, centry) gomap"
  c_lru :: "hash list"
  c_bytes :: int
  c_maxBytes :: int
  c_ttl :: duration
  c_stored :: nat
  c_hits :: nat
  c_misses :: nat
  c_evicted :: nat
  c_expired :: nat

type_synonym Cache = "cshard list"

record cache_Options =
  MaxBytes :: int
  TTL :: duration

definition cache_New :: "cache_Options \<Rightarrow> Cache" where
  "cache_New o' =
     (let mb = (if MaxBytes o' \<le> 0 then 2 ^ 30 else MaxBytes o');
          ttl = (if TTL o' \<le> 0 then 10 * minute else TTL o');
          per = mb div 64;
          per' = (if per \<le> 0 then 1 else per)
      in replicate shards
           \<lparr> c_items = [], c_lru = [], c_bytes = 0, c_maxBytes = per', c_ttl = ttl,
             c_stored = 0, c_hits = 0, c_misses = 0, c_evicted = 0, c_expired = 0 \<rparr>)"

definition removeLocked :: "hash \<Rightarrow> centry \<Rightarrow> cshard \<Rightarrow> cshard" where
  "removeLocked key e s =
     s\<lparr> c_lru := remove1 key (c_lru s),
        c_items := AList.delete key (c_items s),
        c_bytes := c_bytes s - int (length (e_body e)) \<rparr>"

text \<open>
  The loop drops the least recently used entry while the shard is over its
  ceiling.  A recency list naming a key the map lacks cannot arise; the branch
  is there because the model's map access is partial.
\<close>

function evictLocked :: "cshard \<Rightarrow> cshard" where
  "evictLocked s =
     (if c_bytes s > c_maxBytes s then
        (if c_lru s = [] then s
         else let back = last (c_lru s) in
           case map_of (c_items s) back of
             None \<Rightarrow> s
           | Some e \<Rightarrow> evictLocked ((removeLocked back e s)\<lparr> c_evicted := c_evicted s + 1 \<rparr>))
      else s)"
  by pat_completeness auto
termination
  by (relation "measure (\<lambda>s. length (c_lru s))")
     (auto simp: removeLocked_def length_remove1)

declare evictLocked.simps [simp del]

definition push_entry :: "time \<Rightarrow> hash \<Rightarrow> string \<Rightarrow> bytes \<Rightarrow> cshard \<Rightarrow> cshard" where
  "push_entry now key cls body s =
     s\<lparr> c_lru := key # c_lru s,
        c_items := AList.update key \<lparr> e_body = body, e_class = cls, e_stored = now \<rparr> (c_items s),
        c_bytes := c_bytes s + int (length body),
        c_stored := c_stored s + 1 \<rparr>"

definition putOwnedLocked :: "time \<Rightarrow> hash \<Rightarrow> string \<Rightarrow> bytes \<Rightarrow> cshard \<Rightarrow> cshard" where
  "putOwnedLocked now key cls body s = evictLocked (push_entry now key cls body s)"

definition moveToFront :: "hash \<Rightarrow> hash list \<Rightarrow> hash list" where
  "moveToFront key l = key # remove1 key l"

definition put_shard :: "time \<Rightarrow> hash \<Rightarrow> string \<Rightarrow> bytes \<Rightarrow> cshard \<Rightarrow> cshard" where
  "put_shard now key cls body s =
     (case map_of (c_items s) key of
        Some e \<Rightarrow> s\<lparr> c_items := AList.update key (e\<lparr> e_stored := now \<rparr>) (c_items s),
                     c_lru := moveToFront key (c_lru s) \<rparr>
      | None \<Rightarrow> putOwnedLocked now key cls body s)"

definition cache_Put :: "time \<Rightarrow> hash \<Rightarrow> string \<Rightarrow> bytes \<Rightarrow> Cache \<Rightarrow> Cache" where
  "cache_Put now key cls body c = set_shard c key (put_shard now key cls body (shardOf c key))"

definition cache_PutOwned :: "time \<Rightarrow> hash \<Rightarrow> string \<Rightarrow> bytes \<Rightarrow> Cache \<Rightarrow> Cache" where
  "cache_PutOwned now key cls body c = set_shard c key (put_shard now key cls body (shardOf c key))"

definition get_shard :: "time \<Rightarrow> hash \<Rightarrow> cshard \<Rightarrow> (bytes \<times> string) option \<times> cshard" where
  "get_shard now key s =
     (case map_of (c_items s) key of
        None \<Rightarrow> (None, s\<lparr> c_misses := c_misses s + 1 \<rparr>)
      | Some e \<Rightarrow>
          if now - e_stored e > c_ttl s then
            (None, (removeLocked key e s)\<lparr> c_expired := c_expired s + 1,
                                           c_misses := c_misses s + 1 \<rparr>)
          else (Some (e_body e, e_class e),
                s\<lparr> c_lru := moveToFront key (c_lru s), c_hits := c_hits s + 1 \<rparr>))"

definition cache_Get :: "time \<Rightarrow> hash \<Rightarrow> Cache \<Rightarrow> (bytes \<times> string) option \<times> Cache" where
  "cache_Get now key c =
     (let res = get_shard now key (shardOf c key) in (fst res, set_shard c key (snd res)))"

definition cache_Has :: "time \<Rightarrow> hash \<Rightarrow> Cache \<Rightarrow> bool" where
  "cache_Has now key c =
     (case map_of (c_items (shardOf c key)) key of
        None \<Rightarrow> False
      | Some e \<Rightarrow> now - e_stored e \<le> c_ttl (shardOf c key))"

record cache_Stats =
  cst_Entries :: nat
  cst_Bytes :: int
  cst_MaxBytes :: int
  cst_Stored :: nat
  cst_Hits :: nat
  cst_Misses :: nat
  cst_Evicted :: nat
  cst_Expired :: nat
  cst_Duplicates :: nat

definition cache_Stats_of :: "Cache \<Rightarrow> cache_Stats" where
  "cache_Stats_of c =
     \<lparr> cst_Entries = sum_list (map (\<lambda>s. length (c_items s)) c),
       cst_Bytes = sum_list (map c_bytes c),
       cst_MaxBytes = sum_list (map c_maxBytes c),
       cst_Stored = sum_list (map c_stored c),
       cst_Hits = sum_list (map c_hits c),
       cst_Misses = sum_list (map c_misses c),
       cst_Evicted = sum_list (map c_evicted c),
       cst_Expired = sum_list (map c_expired c),
       cst_Duplicates = 0 \<rparr>"

section \<open>Invariant\<close>

abbreviation body_size :: "centry \<Rightarrow> int" where
  "body_size e \<equiv> int (length (e_body e))"

definition cshard_linked :: "cshard \<Rightarrow> bool" where
  "cshard_linked s \<longleftrightarrow>
     gomap_ok (c_items s) \<and> distinct (c_lru s) \<and> set (c_lru s) = fst ` set (c_items s) \<and>
     c_bytes s = gsum body_size (c_items s)"

definition cshard_ok :: "int \<Rightarrow> duration \<Rightarrow> cshard \<Rightarrow> bool" where
  "cshard_ok mb ttl s \<longleftrightarrow>
     cshard_linked s \<and> c_bytes s \<le> c_maxBytes s \<and> c_maxBytes s = mb \<and> c_ttl s = ttl"

definition cache_ok :: "int \<Rightarrow> duration \<Rightarrow> Cache \<Rightarrow> bool" where
  "cache_ok mb ttl c \<longleftrightarrow> 0 < mb \<and> all_shards (cshard_ok mb ttl) c"

lemma linked_lookup: "cshard_linked s \<Longrightarrow> k \<in> set (c_lru s) \<longleftrightarrow> map_of (c_items s) k \<noteq> None"
  by (auto simp: cshard_linked_def map_of_eq_None_iff)

lemma keys_delete: "fst ` set (AList.delete k m) = fst ` set m - {k}"
  by (induction m) auto

lemma keys_update: "fst ` set (AList.update k v m) = insert k (fst ` set m)"
  by (simp add: dom_update)

lemma linked_remove:
  assumes "cshard_linked s" and "map_of (c_items s) k = Some e"
  shows "cshard_linked (removeLocked k e s)"
  using assms
  by (auto simp: cshard_linked_def removeLocked_def keys_delete gsum_delete)

lemma linked_evict: "cshard_linked s \<Longrightarrow> cshard_linked (evictLocked s)"
proof (induction s rule: evictLocked.induct)
  case (1 s)
  show ?case
  proof (cases "c_bytes s > c_maxBytes s \<and> c_lru s \<noteq> []")
    case True
    then obtain e where e: "map_of (c_items s) (last (c_lru s)) = Some e"
      using linked_lookup [OF "1.prems", of "last (c_lru s)"] by auto
    let ?s = "(removeLocked (last (c_lru s)) e s)\<lparr> c_evicted := c_evicted s + 1 \<rparr>"
    have "cshard_linked ?s"
      using linked_remove [OF "1.prems" e] by (simp add: cshard_linked_def)
    with "1.IH" [of "last (c_lru s)" e] True e show ?thesis
      by (simp add: evictLocked.simps [of s])
  next
    case False
    with "1.prems" show ?thesis by (auto simp: evictLocked.simps [of s])
  qed
qed

section \<open>What eviction keeps\<close>

definition held_size :: "cshard \<Rightarrow> hash \<Rightarrow> int" where
  "held_size s k = (case map_of (c_items s) k of None \<Rightarrow> 0 | Some e \<Rightarrow> body_size e)"

lemma gsum_held: "gomap_ok m \<Longrightarrow> gsum f m = (\<Sum>k \<in> fst ` set m. case map_of m k of None \<Rightarrow> 0 | Some v \<Rightarrow> f v)"
proof (induction m)
  case (Cons x m)
  have "(\<Sum>k \<in> fst ` set m. case map_of (x # m) k of None \<Rightarrow> 0 | Some v \<Rightarrow> f v)
      = (\<Sum>k \<in> fst ` set m. case map_of m k of None \<Rightarrow> 0 | Some v \<Rightarrow> f v)"
    using Cons.prems by (intro sum.cong refl) (auto simp: image_iff)
  with Cons show ?case by (cases x) (simp add: gsum_def)
qed (simp add: gsum_def)

lemma linked_bytes: "cshard_linked s \<Longrightarrow> c_bytes s = sum_list (map (held_size s) (c_lru s))"
  by (simp add: cshard_linked_def gsum_held held_size_def [abs_def] sum_list_distinct_conv_sum_set)

lemma held_size_nonneg [simp]: "0 \<le> held_size s k"
  by (simp add: held_size_def split: option.splits)

lemma sum_held_nonneg [simp]: "0 \<le> sum_list (map (held_size s) ks)"
  by (induction ks) auto

lemma remove1_last: "xs \<noteq> [] \<Longrightarrow> distinct xs \<Longrightarrow> remove1 (last xs) xs = butlast xs"
  by (metis append_butlast_last_id distinct_butlast not_distinct_conv_prefix remove1_append remove1.simps(2)
      append_Nil2 remove1.simps(1))

text \<open>The evicted shard, described without the loop: the longest fitting prefix of the recency list.\<close>

definition evicts_to :: "cshard \<Rightarrow> nat \<Rightarrow> cshard \<Rightarrow> bool" where
  "evicts_to s n t \<longleftrightarrow>
     n \<le> length (c_lru s) \<and> c_lru t = take n (c_lru s) \<and>
     (\<forall>k. map_of (c_items t) k = (if k \<in> set (take n (c_lru s)) then map_of (c_items s) k else None)) \<and>
     c_bytes t = sum_list (map (held_size s) (take n (c_lru s))) \<and>
     (0 \<le> c_maxBytes s \<longrightarrow> c_bytes t \<le> c_maxBytes s) \<and>
     (n < length (c_lru s) \<longrightarrow>
        c_maxBytes s < sum_list (map (held_size s) (take (Suc n) (c_lru s)))) \<and>
     c_evicted t = c_evicted s + (length (c_lru s) - n) \<and>
     c_maxBytes t = c_maxBytes s \<and> c_ttl t = c_ttl s"

text \<open>One turn of the loop: the shard without its last key evicts to the same prefix.\<close>

lemma evicts_to_step:
  assumes linked: "cshard_linked s" and over: "c_maxBytes s < c_bytes s" and ne: "c_lru s \<noteq> []"
    and lru: "c_lru s' = butlast (c_lru s)"
    and items: "map_of (c_items s') = (map_of (c_items s))(last (c_lru s) := None)"
    and rest: "c_maxBytes s' = c_maxBytes s" "c_ttl s' = c_ttl s" "c_evicted s' = c_evicted s + 1"
    and ev: "evicts_to s' n t"
  shows "evicts_to s n t"
proof -
  let ?b = "last (c_lru s)" and ?l = "butlast (c_lru s)"
  have split: "c_lru s = ?l @ [?b]" using ne by simp
  have "distinct (?l @ [?b])" using linked split by (simp add: cshard_linked_def)
  then have notin: "?b \<notin> set ?l" by simp
  have nlen: "n \<le> length ?l" using ev lru by (simp add: evicts_to_def)
  have tk: "take m (c_lru s) = take m ?l" if "m \<le> length ?l" for m
    using that by (subst split) (simp only: take_append diff_is_0_eq' take0 append_Nil2)
  have szs: "map (held_size s') (take m ?l) = map (held_size s) (take m ?l)" for m
  proof (rule map_cong [OF refl])
    fix k assume "k \<in> set (take m ?l)"
    then have "k \<noteq> ?b" using notin by (auto dest: in_set_takeD)
    then show "held_size s' k = held_size s k" by (simp add: held_size_def items)
  qed
  have big: "c_maxBytes s < sum_list (map (held_size s) (take (Suc n) (c_lru s)))"
  proof (cases "n < length ?l")
    case True
    then show ?thesis
      using ev lru rest szs [of "Suc n"] tk [of "Suc n"] by (simp add: evicts_to_def)
  next
    case False
    with nlen have "take (Suc n) (c_lru s) = c_lru s" by simp
    with over linked_bytes [OF linked] show ?thesis by simp
  qed
  have "map_of (c_items t) k = (if k \<in> set (take n (c_lru s)) then map_of (c_items s) k else None)" for k
    using ev lru items notin tk [OF nlen] by (auto simp: evicts_to_def dest: in_set_takeD)
  moreover have "0 < length (c_lru s)" "n \<le> length (c_lru s) - 1" using nlen ne by simp_all
  then have "n \<le> length (c_lru s)" "Suc (length (c_lru s) - Suc n) = length (c_lru s) - n"
    by linarith+
  ultimately show ?thesis
    using ev big lru rest szs [of n] tk [OF nlen] by (auto simp: evicts_to_def)
qed

lemma evictLocked_keeps: "cshard_linked s \<Longrightarrow> \<exists>n. evicts_to s n (evictLocked s)"
proof (induction s rule: evictLocked.induct)
  case (1 s)
  show ?case
  proof (cases "c_bytes s > c_maxBytes s \<and> c_lru s \<noteq> []")
    case True
    let ?b = "last (c_lru s)"
    obtain e where e: "map_of (c_items s) ?b = Some e"
      using linked_lookup [OF "1.prems", of ?b] True by auto
    define s' where "s' = (removeLocked ?b e s)\<lparr> c_evicted := c_evicted s + 1 \<rparr>"
    have ev: "evictLocked s = evictLocked s'"
      using True e by (simp add: evictLocked.simps [of s] s'_def)
    have "cshard_linked s'"
      using linked_remove [OF "1.prems" e] by (simp add: cshard_linked_def s'_def)
    with "1.IH" [of ?b e] True e obtain n where n: "evicts_to s' n (evictLocked s')"
      by (auto simp: s'_def)
    have "distinct (c_lru s)" using "1.prems" by (simp add: cshard_linked_def)
    with True have "evicts_to s n (evictLocked s')"
      by (intro evicts_to_step [OF "1.prems" _ _ _ _ _ _ _ n])
         (simp_all add: s'_def removeLocked_def map_of_delete remove1_last)
    with ev show ?thesis by auto
  next
    case False
    then have "evictLocked s = s" by (auto simp: evictLocked.simps [of s])
    moreover have "c_bytes s \<le> c_maxBytes s \<or> c_bytes s = 0"
      using False linked_bytes [OF "1.prems"] by auto
    moreover have "map_of (c_items s) k = (if k \<in> set (c_lru s) then map_of (c_items s) k else None)" for k
      using linked_lookup [OF "1.prems", of k] by auto
    ultimately have "evicts_to s (length (c_lru s)) (evictLocked s)"
      using linked_bytes [OF "1.prems"] by (auto simp: evicts_to_def)
    then show ?thesis by blast
  qed
qed

section \<open>Every operation keeps the invariant\<close>

lemma evictLocked_ok:
  assumes "cshard_linked s" and "0 \<le> c_maxBytes s"
  shows "cshard_ok (c_maxBytes s) (c_ttl s) (evictLocked s)"
proof -
  obtain n where "evicts_to s n (evictLocked s)" using evictLocked_keeps [OF assms(1)] by blast
  with linked_evict [OF assms(1)] assms(2) show ?thesis by (auto simp: cshard_ok_def evicts_to_def)
qed

lemma linked_push:
  assumes "cshard_linked s" and "map_of (c_items s) k = None"
  shows "cshard_linked (push_entry now k cls body s)"
  using assms linked_lookup [OF assms(1), of k]
  by (auto simp: cshard_linked_def push_entry_def keys_update gsum_update_fresh)

lemma push_entry_fields [simp]:
  "c_maxBytes (push_entry now k cls body s) = c_maxBytes s"
  "c_ttl (push_entry now k cls body s) = c_ttl s"
  "c_lru (push_entry now k cls body s) = k # c_lru s"
  "map_of (c_items (push_entry now k cls body s)) =
     (map_of (c_items s))(k \<mapsto> \<lparr> e_body = body, e_class = cls, e_stored = now \<rparr>)"
  by (simp_all add: push_entry_def map_of_update)

lemma linked_refresh:
  assumes "cshard_linked s" and "map_of (c_items s) k = Some e"
  shows "cshard_linked (s\<lparr> c_items := AList.update k (e\<lparr> e_stored := now \<rparr>) (c_items s),
     c_lru := moveToFront k (c_lru s) \<rparr>)"
  using assms map_of_Some_key [OF assms(2)]
  by (auto simp: cshard_linked_def keys_update gsum_update_same moveToFront_def)

lemma linked_touch:
  assumes "cshard_linked s" and "map_of (c_items s) k = Some e"
  shows "cshard_linked (s\<lparr> c_lru := moveToFront k (c_lru s), c_hits := n \<rparr>)"
  using assms map_of_Some_key [OF assms(2)]
  by (auto simp: cshard_linked_def moveToFront_def)

lemma put_shard_ok:
  assumes "cshard_ok mb ttl s" and "0 < mb"
  shows "cshard_ok mb ttl (put_shard now key cls body s)"
proof (cases "map_of (c_items s) key")
  case None
  have "cshard_linked s" using assms by (simp add: cshard_ok_def)
  from evictLocked_ok [OF linked_push [OF this None, of now cls body]] None assms show ?thesis
    by (simp add: put_shard_def putOwnedLocked_def cshard_ok_def)
next
  case (Some e)
  then show ?thesis
    using assms linked_refresh [of s key e now] by (auto simp: put_shard_def cshard_ok_def)
qed

lemma get_shard_ok:
  assumes "cshard_ok mb ttl s"
  shows "cshard_ok mb ttl (snd (get_shard now key s))"
proof (cases "map_of (c_items s) key")
  case None
  with assms show ?thesis by (auto simp: get_shard_def cshard_ok_def cshard_linked_def)
next
  case (Some e)
  have l: "cshard_linked s" using assms by (simp add: cshard_ok_def)
  from linked_remove [OF l Some] linked_touch [OF l Some] assms Some show ?thesis
    by (auto simp: get_shard_def cshard_ok_def cshard_linked_def removeLocked_def)
qed

lemma cache_ok_Put: "cache_ok mb ttl c \<Longrightarrow> cache_ok mb ttl (cache_Put now key cls body c)"
  by (auto simp: cache_ok_def cache_Put_def intro: all_shards_set_shard put_shard_ok all_shards_shardOf)

lemma cache_ok_Get: "cache_ok mb ttl c \<Longrightarrow> cache_ok mb ttl (snd (cache_Get now key c))"
  by (auto simp: cache_ok_def cache_Get_def Let_def
      intro: all_shards_set_shard get_shard_ok all_shards_shardOf)

lemma cache_ok_length: "cache_ok mb ttl c \<Longrightarrow> length c = shards"
  by (auto simp: cache_ok_def all_shards_length)

definition per_shard :: "int \<Rightarrow> int" where
  "per_shard mb = (let per = (if mb \<le> 0 then 2 ^ 30 else mb) div 64 in if per \<le> 0 then 1 else per)"

lemma cache_ok_New:
  "cache_ok (per_shard (MaxBytes opts)) (if TTL opts \<le> 0 then 10 * minute else TTL opts) (cache_New opts)"
  unfolding cache_ok_def cache_New_def per_shard_def Let_def
  by (auto simp: cshard_ok_def cshard_linked_def intro!: all_shards_replicate)

section \<open>The store contract\<close>

definition cache_held :: "hash \<Rightarrow> Cache \<Rightarrow> (bytes \<times> string) option" where
  "cache_held k c =
     map_option (\<lambda>e. (e_body e, e_class e)) (map_of (c_items (shardOf c k)) k)"

lemma put_shard_items:
  assumes "cshard_linked s" and "map_of (c_items (put_shard now key cls body s)) k = Some e"
  shows "(\<exists>e'. map_of (c_items s) k = Some e' \<and> e_body e' = e_body e \<and> e_class e' = e_class e) \<or>
     (k = key \<and> e_body e = body \<and> e_class e = cls)"
proof (cases "map_of (c_items s) key")
  case None
  let ?s = "push_entry now key cls body s"
  have "cshard_linked ?s" using assms(1) None by (rule linked_push)
  then obtain n where "evicts_to ?s n (evictLocked ?s)" using evictLocked_keeps by blast
  with assms(2) None have "map_of (c_items ?s) k = Some e"
    by (simp add: put_shard_def putOwnedLocked_def evicts_to_def split: if_splits)
  then show ?thesis by (auto split: if_splits)
next
  case (Some e0)
  with assms(2) show ?thesis by (auto simp: put_shard_def map_of_update split: if_splits)
qed

lemma get_shard_items:
  "map_of (c_items (snd (get_shard now key s))) k = Some e \<Longrightarrow> map_of (c_items s) k = Some e"
  by (auto simp: get_shard_def removeLocked_def map_of_delete split: option.splits if_splits)

lemma shard_linked: "cache_ok mb ttl c \<Longrightarrow> cshard_linked (shardOf c k)"
  using all_shards_shardOf [of "cshard_ok mb ttl" c k] by (simp add: cache_ok_def cshard_ok_def)

interpretation lru: object_store
  "\<lambda>t k v. cache_Put t k (snd v) (fst v)" cache_Get cache_held "cache_ok mb ttl"
proof
  fix s t k v
  assume ok: "cache_ok mb ttl s"
  have len: "length s = shards" using ok by (rule cache_ok_length)
  show "cache_ok mb ttl (cache_Put t k (snd v) (fst v) s)" using ok by (rule cache_ok_Put)
  show "cache_ok mb ttl (snd (cache_Get t k s))" using ok by (rule cache_ok_Get)
  show "cache_held k s = Some v" if "fst (cache_Get t k s) = Some v"
    using that
    by (auto simp: cache_Get_def Let_def cache_held_def get_shard_def split: option.splits if_splits)
  show "cache_held k' s = Some v" if "cache_held k' (snd (cache_Get t k s)) = Some v" for k'
  proof (cases "shard_index k' = shard_index k")
    case True
    with that show ?thesis
      by (auto simp: cache_held_def cache_Get_def Let_def shardOf_set_shard len shardOf_cong [OF True]
          dest!: get_shard_items)
  next
    case False
    with that show ?thesis by (simp add: cache_held_def cache_Get_def Let_def shardOf_set_shard len)
  qed
  show "cache_held k' s = Some v' \<or> (k' = k \<and> v' = v)"
    if "cache_held k' (cache_Put t k (snd v) (fst v) s) = Some v'" for k' v'
  proof (cases "shard_index k' = shard_index k")
    case True
    with that obtain e where "map_of (c_items (put_shard t k (snd v) (fst v) (shardOf s k))) k' = Some e"
      and "v' = (e_body e, e_class e)"
      by (auto simp: cache_held_def cache_Put_def shardOf_set_shard len)
    with put_shard_items [OF shard_linked [OF ok]] show ?thesis
      by (fastforce simp: cache_held_def shardOf_cong [OF True])
  next
    case False
    with that show ?thesis by (simp add: cache_held_def cache_Put_def shardOf_set_shard len)
  qed
qed

section \<open>Put then get\<close>

text \<open>A body that fits the ceiling survives its own insertion, because eviction works from the back.\<close>

lemma put_shard_holds:
  assumes "cshard_ok mb ttl s" and "map_of (c_items s) key = None" and "int (length body) \<le> mb"
  shows "map_of (c_items (put_shard now key cls body s)) key =
     Some \<lparr> e_body = body, e_class = cls, e_stored = now \<rparr>"
proof -
  let ?s = "push_entry now key cls body s"
  have "cshard_linked ?s" using assms(1,2) by (simp add: cshard_ok_def linked_push)
  then obtain n where n: "evicts_to ?s n (evictLocked ?s)" using evictLocked_keeps by blast
  have "n \<noteq> 0"
  proof
    assume "n = 0"
    with n assms show False
      by (simp add: evicts_to_def held_size_def cshard_ok_def)
  qed
  with n assms(2) show ?thesis
    by (auto simp: put_shard_def putOwnedLocked_def evicts_to_def take_Cons')
qed

lemma put_shard_refreshes:
  assumes "map_of (c_items s) key = Some e"
  shows "map_of (c_items (put_shard now key cls body s)) key = Some (e\<lparr> e_stored := now \<rparr>)"
  using assms by (simp add: put_shard_def map_of_update)

text \<open>An oversize body flushes the shard, itself included.\<close>

lemma put_shard_oversize:
  assumes "cshard_ok mb ttl s" and "map_of (c_items s) key = None" and "mb < int (length body)"
    and "0 \<le> mb"
  shows "c_lru (put_shard now key cls body s) = [] \<and>
     (\<forall>k. map_of (c_items (put_shard now key cls body s)) k = None)"
proof -
  let ?s = "push_entry now key cls body s"
  have "cshard_linked ?s" using assms(1,2) by (simp add: cshard_ok_def linked_push)
  then obtain n where n: "evicts_to ?s n (evictLocked ?s)" using evictLocked_keeps by blast
  have "n = 0"
  proof (rule ccontr)
    assume "n \<noteq> 0"
    then obtain m where m: "n = Suc m" by (cases n) auto
    with n assms(1,4) have "sum_list (map (held_size ?s) (key # take m (c_lru s))) \<le> mb"
      by (simp add: evicts_to_def cshard_ok_def)
    moreover have "held_size ?s key = int (length body)"
      by (simp add: held_size_def)
    moreover have "0 \<le> sum_list (map (held_size ?s) (take m (c_lru s)))" by (rule sum_held_nonneg)
    ultimately show False using assms(3) by simp
  qed
  with n assms(2) show ?thesis by (simp add: put_shard_def putOwnedLocked_def evicts_to_def)
qed

lemma get_shard_fresh:
  assumes "map_of (c_items s) key = Some e" and "now - e_stored e \<le> c_ttl s"
  shows "fst (get_shard now key s) = Some (e_body e, e_class e)"
  using assms by (simp add: get_shard_def)

section \<open>What an object survives\<close>

abbreviation cache_run :: "(hash, bytes \<times> string) store_op list \<Rightarrow> Cache \<Rightarrow> Cache" where
  "cache_run \<equiv> run_ops (\<lambda>t k v. cache_Put t k (snd v) (fst v)) cache_Get"

text \<open>
  An entry is kept while few enough entries of its shard can be ahead of it:
  it is among the first \<open>n + 1\<close> of the recency list, and no body exceeds \<open>M\<close>.
\<close>

definition shard_keeps :: "time \<Rightarrow> int \<Rightarrow> nat \<Rightarrow> hash \<Rightarrow> bytes \<times> string \<Rightarrow> cshard \<Rightarrow> bool" where
  "shard_keeps now M n h v s \<longleftrightarrow>
     (\<exists>e. map_of (c_items s) h = Some e \<and> (e_body e, e_class e) = v \<and> now \<le> e_stored e) \<and>
     (\<forall>k e. map_of (c_items s) k = Some e \<longrightarrow> body_size e \<le> M) \<and> h \<in> set (take (Suc n) (c_lru s))"

lemma in_take_remove1: "x \<in> set (take m xs) \<Longrightarrow> x \<noteq> y \<Longrightarrow> x \<in> set (take m (remove1 y xs))"
proof (induction xs arbitrary: m)
  case (Cons z xs)
  then show ?case
    using set_take_subset_set_take [of "m - 1" m xs] by (cases m) auto
qed simp

lemma keeps_front:
  "h \<in> set (take (Suc n) l) \<Longrightarrow> h \<in> set (take (Suc (Suc n)) (moveToFront k l))"
  using in_take_remove1 [of h "Suc n" l k] by (auto simp: moveToFront_def)

lemma keeps_evict:
  assumes "cshard_linked s" and "h \<in> set (take (Suc n) (c_lru s))" and "\<And>k. held_size s k \<le> M"
    and "int (Suc n) * M \<le> c_maxBytes s" and "0 \<le> M"
  shows "h \<in> set (take (Suc n) (c_lru (evictLocked s))) \<and> map_of (c_items (evictLocked s)) h = map_of (c_items s) h"
proof -
  obtain j where j: "evicts_to s j (evictLocked s)" using evictLocked_keeps [OF assms(1)] by blast
  have "j \<ge> length (c_lru s) \<or> Suc n \<le> j"
  proof (rule ccontr)
    assume "\<not> (j \<ge> length (c_lru s) \<or> Suc n \<le> j)"
    then have "c_maxBytes s < sum_list (map (held_size s) (take (Suc j) (c_lru s)))" and le: "Suc j \<le> Suc n"
      using j by (auto simp: evicts_to_def)
    moreover have "sum_list (map (held_size s) ks) \<le> int (length ks) * M" for ks
      using assms(3) by (induction ks) (auto simp: algebra_simps intro: add_mono)
    moreover have "int (length (take (Suc j) (c_lru s))) * M \<le> int (Suc n) * M"
      using le assms(5) by (intro mult_right_mono) auto
    ultimately show False using assms(4) by (metis le_less_trans less_le_trans not_less order_trans)
  qed
  then have "h \<in> set (take (Suc n) (take j (c_lru s)))"
    using assms(2) by (auto simp: min_def)
  moreover from this have "h \<in> set (take j (c_lru s))" by (rule in_set_takeD)
  ultimately show ?thesis using j by (simp add: evicts_to_def)
qed

lemma keeps_put:
  assumes "cshard_ok mb ttl s" and "shard_keeps now M n h v s" and "int (Suc (Suc n)) * M \<le> mb"
    and "int (length body) \<le> M" and "now \<le> t"
  shows "shard_keeps now M (Suc n) h v (put_shard t key cls body s)"
proof -
  obtain e where e: "map_of (c_items s) h = Some e" "(e_body e, e_class e) = v" "now \<le> e_stored e"
    using assms(2) by (auto simp: shard_keeps_def)
  have top: "h \<in> set (take (Suc n) (c_lru s))" and small: "map_of (c_items s) k = Some x \<Longrightarrow> body_size x \<le> M" for k x
    using assms(2) by (auto simp: shard_keeps_def)
  have linked: "cshard_linked s" using assms(1) by (simp add: cshard_ok_def)
  have "body_size x \<le> M" if "map_of (c_items (put_shard t key cls body s)) k = Some x" for k x
    using put_shard_items [OF linked that] small assms(4) by (auto; metis)
  moreover have "(\<exists>e. map_of (c_items (put_shard t key cls body s)) h = Some e \<and> (e_body e, e_class e) = v \<and> now \<le> e_stored e) \<and>
      h \<in> set (take (Suc (Suc n)) (c_lru (put_shard t key cls body s)))"
  proof (cases "map_of (c_items s) key")
    case None
    let ?s = "push_entry t key cls body s"
    have "held_size ?s k \<le> M" for k
      using small [of k] assms(4) order_trans [of 0 "body_size e" M] small [OF e(1)]
      by (auto simp: held_size_def split: option.splits)
    moreover have "h \<in> set (take (Suc (Suc n)) (c_lru ?s))" using top by simp
    moreover have "0 \<le> M" using assms(4) by (rule order_trans [rotated]) simp
    ultimately have "h \<in> set (take (Suc (Suc n)) (c_lru (evictLocked ?s))) \<and> map_of (c_items (evictLocked ?s)) h = map_of (c_items ?s) h"
      using assms(1,3) by (intro keeps_evict linked_push [OF linked None]) (simp_all add: cshard_ok_def)
    moreover have "map_of (c_items ?s) h = Some e" using e(1) None by auto
    ultimately show ?thesis using e None by (auto simp: put_shard_def putOwnedLocked_def)
  next
    case (Some x)
    then show ?thesis
      using e assms(5) keeps_front [OF top, of key] by (auto simp: put_shard_def map_of_update)
  qed
  ultimately show ?thesis by (auto simp: shard_keeps_def)
qed

lemma keeps_get:
  assumes "shard_keeps now M n h v s" and "t - now \<le> c_ttl s"
  shows "shard_keeps now M (Suc n) h v (snd (get_shard t key s)) \<and> (key = h \<longrightarrow> fst (get_shard t key s) = Some v)"
proof -
  obtain e where e: "map_of (c_items s) h = Some e" "(e_body e, e_class e) = v" "now \<le> e_stored e"
    using assms(1) by (auto simp: shard_keeps_def)
  have top: "h \<in> set (take (Suc n) (c_lru s))" and small: "\<forall>k x. map_of (c_items s) k = Some x \<longrightarrow> body_size x \<le> M"
    using assms(1) by (auto simp: shard_keeps_def)
  have more: "set (take (Suc n) xs) \<subseteq> set (take (Suc (Suc n)) xs)" for xs :: "hash list"
    by (rule set_take_subset_set_take) simp
  show ?thesis
  proof (cases "key = h")
    case True
    then show ?thesis
      using e assms(2) keeps_front [OF top, of h] small by (auto simp: get_shard_def shard_keeps_def)
  next
    case False
    then have "h \<in> set (take (Suc n) (remove1 key (c_lru s)))" using top by (intro in_take_remove1) auto
    then show ?thesis
      using False e small keeps_front [OF top, of key] top more
      by (auto simp: get_shard_def shard_keeps_def removeLocked_def map_of_delete split: option.splits)
  qed
qed

lemma keeps_mono: "shard_keeps now M n h v s \<Longrightarrow> n \<le> m \<Longrightarrow> shard_keeps now M m h v s"
  using set_take_subset_set_take [of "Suc n" "Suc m" "c_lru s"] by (auto simp: shard_keeps_def)

definition bodies_within :: "int \<Rightarrow> Cache \<Rightarrow> bool" where
  "bodies_within M c \<longleftrightarrow> (\<forall>s \<in> set c. \<forall>(k, e) \<in> set (c_items s). int (length (e_body e)) \<le> M)"

lemma bodies_withinD:
  "bodies_within M c \<Longrightarrow> length c = shards \<Longrightarrow> map_of (c_items (shardOf c h)) k = Some e \<Longrightarrow> int (length (e_body e)) \<le> M"
  using shardOf_in [of c h] by (fastforce simp: bodies_within_def dest: map_of_SomeD)

lemma bodies_within_Get: "bodies_within M c \<Longrightarrow> length c = shards \<Longrightarrow> bodies_within M (snd (cache_Get t k c))"
proof -
  assume b: "bodies_within M c" and len: "length c = shards"
  have "set (c_items (snd (get_shard t k s))) \<subseteq> set (c_items s)" for s
    by (auto simp: get_shard_def removeLocked_def AList.delete_eq split: option.splits)
  moreover have "set (snd (cache_Get t k c)) \<subseteq> insert (snd (get_shard t k (shardOf c k))) (set c)"
    by (simp add: cache_Get_def Let_def set_shard_def set_update_subset_insert)
  ultimately show ?thesis using b shardOf_in [OF len, of k] unfolding bodies_within_def by blast
qed

text \<open>The operations on the object's shard, and those near enough in time and small enough.\<close>

fun op_key :: "('k, 'v) store_op \<Rightarrow> 'k" where
  "op_key (OpPut t k v) = k"
| "op_key (OpGet t k) = k"

fun op_within :: "time \<Rightarrow> duration \<Rightarrow> int \<Rightarrow> (hash, bytes \<times> string) store_op \<Rightarrow> bool" where
  "op_within now ttl M (OpPut t k v) \<longleftrightarrow> now \<le> t \<and> t - now \<le> ttl \<and> int (length (fst v)) \<le> M"
| "op_within now ttl M (OpGet t k) \<longleftrightarrow> now \<le> t \<and> t - now \<le> ttl"

definition touches :: "hash \<Rightarrow> (hash, 'v) store_op list \<Rightarrow> nat" where
  "touches h ops = length (filter (\<lambda>op. shard_index (op_key op) = shard_index h) ops)"

lemma keeps_run:
  "cache_ok mb ttl c \<Longrightarrow> shard_keeps now M n h v (shardOf c h) \<Longrightarrow> 0 \<le> M \<Longrightarrow> \<forall>op \<in> set ops. op_within now ttl M op \<Longrightarrow>
   int (Suc (n + touches h ops)) * M \<le> mb \<Longrightarrow>
   shard_keeps now M (n + touches h ops) h v (shardOf (cache_run ops c) h)"
proof (induction ops arbitrary: c n)
  case (Cons op ops)
  let ?put = "\<lambda>t k v. cache_Put t k (snd v) (fst v)"
  have len: "length c = shards" using Cons.prems(1) by (rule cache_ok_length)
  have ok: "cshard_ok mb ttl (shardOf c h)"
    using Cons.prems(1) all_shards_shardOf [of "cshard_ok mb ttl" c h] by (simp add: cache_ok_def)
  let ?c = "case op of OpPut t k v \<Rightarrow> ?put t k v c | OpGet t k \<Rightarrow> snd (cache_Get t k c)"
  let ?n = "if shard_index (op_key op) = shard_index h then Suc n else n"
  have cok: "cache_ok mb ttl ?c" using Cons.prems(1) cache_ok_Put cache_ok_Get by (cases op) auto
  have n: "n + touches h (op # ops) = ?n + touches h ops" by (simp add: touches_def)
  have "shard_keeps now M ?n h v (shardOf ?c h)"
  proof (cases "shard_index (op_key op) = shard_index h")
    case False
    then have "shardOf ?c h = shardOf c h"
      by (cases op) (auto simp: cache_Put_def cache_Get_def Let_def shardOf_set_shard len)
    then show ?thesis using False Cons.prems(2) by simp
  next
    case True
    have "int (Suc (Suc n)) * M \<le> int (Suc (n + touches h (op # ops))) * M"
      using Cons.prems(3) True by (intro mult_right_mono) (auto simp: touches_def)
    then have "int (Suc (Suc n)) * M \<le> mb" using Cons.prems(5) by (rule order_trans)
    note put = keeps_put [OF ok Cons.prems(2) this]
    have sh: "shardOf c (op_key op) = shardOf c h" using True by (rule shardOf_cong)
    have ttl: "c_ttl (shardOf c h) = ttl" using ok by (simp add: cshard_ok_def)
    show ?thesis
    proof (cases op)
      case (OpPut t k v')
      then show ?thesis using put [of "fst v'" t k "snd v'"] True sh Cons.prems(4)
        by (simp add: cache_Put_def shardOf_set_shard len)
    next
      case (OpGet t k)
      then show ?thesis using keeps_get [OF Cons.prems(2), of t k] True sh ttl Cons.prems(4)
        by (simp add: cache_Get_def Let_def shardOf_set_shard len)
    qed
  qed
  then have "shard_keeps now M (?n + touches h ops) h v (shardOf (run_ops ?put cache_Get ops ?c) h)"
    using Cons.prems(3-5) cok unfolding n by (intro Cons.IH) auto
  then show ?case unfolding n by (cases op) auto
qed (simp add: touches_def)

lemma keeps_after_Put:
  assumes "cache_ok mb ttl c" and "bodies_within M c" and "int (length body) \<le> M" and "M \<le> mb"
    and "cache_held h c = None \<or> cache_held h c = Some (body, cls)"
  shows "shard_keeps now M 0 h (body, cls) (shardOf (cache_Put now h cls body c) h)"
proof -
  let ?s = "shardOf c h"
  have len: "length c = shards" using assms(1) by (rule cache_ok_length)
  have ok: "cshard_ok mb ttl ?s" using assms(1) all_shards_shardOf by (auto simp: cache_ok_def)
  then have linked: "cshard_linked ?s" by (simp add: cshard_ok_def)
  have small: "body_size e \<le> M" if "map_of (c_items ?s) k = Some e" for k e
    using bodies_withinD [OF assms(2) len that] .
  have items: "body_size e \<le> M" if "map_of (c_items (put_shard now h cls body ?s)) k = Some e" for k e
    using put_shard_items [OF linked that] small assms(3) by (auto; metis)
  show ?thesis
  proof (cases "map_of (c_items ?s) h")
    case None
    let ?t = "put_shard now h cls body ?s"
    have held: "map_of (c_items ?t) h = Some \<lparr> e_body = body, e_class = cls, e_stored = now \<rparr>"
      using put_shard_holds [OF ok None] assms(3,4) by simp
    have "cshard_linked (push_entry now h cls body ?s)" using linked None by (rule linked_push)
    then obtain n where n: "evicts_to (push_entry now h cls body ?s) n ?t"
      using evictLocked_keeps None by (force simp: put_shard_def putOwnedLocked_def)
    have "n \<noteq> 0"
    proof
      assume "n = 0"
      then have "map_of (c_items ?t) h = None" using n by (simp add: evicts_to_def)
      then show False using held by simp
    qed
    then have "h \<in> set (take (Suc 0) (c_lru ?t))" using n by (cases n) (auto simp: evicts_to_def)
    then show ?thesis using held items by (auto simp: shard_keeps_def cache_Put_def shardOf_set_shard len)
  next
    case (Some e)
    then have "(e_body e, e_class e) = (body, cls)" using assms(5) by (auto simp: cache_held_def)
    then show ?thesis
      using Some items by (auto simp: shard_keeps_def cache_Put_def shardOf_set_shard len put_shard_def map_of_update moveToFront_def)
  qed
qed

text \<open>
  An object stored survives any operations on the cache made within its time to
  live, as long as the operations on its shard are few enough for the bodies
  that may have moved ahead of it to fit the shard's share with it.
\<close>

lemma cache_retention:
  assumes "cache_ok mb ttl c" and "bodies_within M c" and "int (length body) \<le> M"
    and "cache_held h c = None \<or> cache_held h c = Some (body, cls)"
    and "\<forall>op \<in> set ops. op_within now ttl M op" and "int (Suc (touches h ops)) * M \<le> mb" and "t' - now \<le> ttl"
  shows "fst (cache_Get t' h (cache_run ops (cache_Put now h cls body c))) =
    Some (body, cls)"
proof -
  let ?c = "cache_Put now h cls body c"
  let ?c' = "cache_run ops ?c"
  have M: "0 \<le> M" using assms(3) by (rule order_trans [rotated]) simp
  then have "M \<le> int (Suc (touches h ops)) * M" by (simp add: algebra_simps)
  then have "M \<le> mb" using assms(6) by linarith
  then have k0: "shard_keeps now M 0 h (body, cls) (shardOf ?c h)" using assms(1-4) by (intro keeps_after_Put)
  have ok: "cache_ok mb ttl ?c" using assms(1) by (rule cache_ok_Put)
  then have "shard_keeps now M (touches h ops) h (body, cls) (shardOf ?c' h)"
    using keeps_run [OF ok k0 M assms(5)] assms(6) by simp
  moreover have "cache_ok mb ttl ?c'" using lru.ok_run_ops [OF ok] .
  then have "c_ttl (shardOf ?c' h) = ttl" using all_shards_shardOf [of "cshard_ok mb ttl" ?c' h] by (simp add: cache_ok_def cshard_ok_def)
  ultimately show ?thesis using keeps_get assms(7) by (simp add: cache_Get_def Let_def)
qed

section \<open>Properties\<close>

text \<open>
  the eviction loop, started on any shard whose list, map and byte count
  agree, ends with exactly the longest prefix of the recency list whose bodies
  fit the ceiling: the most recently used entries are kept with their bytes,
  the others are gone, and the eviction counter counts them.
\<close>

theorem evict_longest_prefix:
  assumes "cshard_linked s" and "0 \<le> c_maxBytes s"
  shows "\<exists>n \<le> length (c_lru s).
     c_lru (evictLocked s) = take n (c_lru s) \<and>
     (\<forall>k. map_of (c_items (evictLocked s)) k =
        (if k \<in> set (take n (c_lru s)) then map_of (c_items s) k else None)) \<and>
     c_bytes (evictLocked s) \<le> c_maxBytes s \<and>
     (n < length (c_lru s) \<longrightarrow>
        c_maxBytes s < sum_list (map (held_size s) (take (Suc n) (c_lru s)))) \<and>
     c_evicted (evictLocked s) = c_evicted s + (length (c_lru s) - n)"
  using evictLocked_keeps [OF assms(1)] assms(2) by (auto simp: evicts_to_def)

theorem evict_longest_prefix_witness:
  "\<exists>s. cshard_linked s \<and> 0 \<le> c_maxBytes s \<and> c_maxBytes s < c_bytes s \<and>
     c_bytes (evictLocked s) \<le> c_maxBytes s"
proof -
  let ?e = "\<lambda>b. \<lparr> e_body = b, e_class = ''block'', e_stored = 0 \<rparr>"
  let ?s = "\<lparr> c_items = [([1], ?e [1, 2, 3]), ([2], ?e [4, 5])], c_lru = [[2], [1]], c_bytes = 5,
     c_maxBytes = 3, c_ttl = 10, c_stored = 2, c_hits = 0, c_misses = 0, c_evicted = 0, c_expired = 0 \<rparr>"
  have l: "cshard_linked ?s" by (auto simp: cshard_linked_def gsum_def)
  have "c_bytes (evictLocked ?s) \<le> 3" using evict_longest_prefix [OF l] by auto
  with l show ?thesis by (intro exI [of _ ?s]) simp
qed

text \<open>
  C34: a cache built for \<open>MaxBytes\<close> (at least one byte per shard) never holds
  more than that many bytes in total, whatever is put and got, and in every
  shard the byte count is the sum of the stored bodies and the recency list
  names exactly the stored keys, each once.
\<close>

theorem cache_byte_ceiling:
  assumes "64 \<le> MaxBytes opts"
  shows "cst_Bytes (cache_Stats_of (cache_run ops (cache_New opts))) \<le> MaxBytes opts \<and>
     (\<forall>s \<in> set (cache_run ops (cache_New opts)).
        c_bytes s = gsum body_size (c_items s) \<and>
        distinct (c_lru s) \<and> set (c_lru s) = fst ` set (c_items s))"
proof -
  let ?c = "cache_run ops (cache_New opts)"
  let ?ttl = "if TTL opts \<le> 0 then 10 * minute else TTL opts"
  have per: "per_shard (MaxBytes opts) = MaxBytes opts div 64"
    using assms by (auto simp: per_shard_def Let_def)
  have ok: "cache_ok (MaxBytes opts div 64) ?ttl ?c"
    using lru.ok_run_ops [OF cache_ok_New [of opts]] by (simp only: per)
  then have sh: "\<forall>s \<in> set ?c. cshard_ok (MaxBytes opts div 64) ?ttl s" and len: "length ?c = 64"
    by (simp_all add: cache_ok_def all_shards_def shards_def)
  have "sum_list (map c_bytes ?c) \<le> sum_list (map (\<lambda>_. MaxBytes opts div 64) ?c)"
    using sh by (intro sum_list_mono) (auto simp: cshard_ok_def)
  also have "\<dots> = 64 * (MaxBytes opts div 64)"
    by (simp add: map_replicate_const sum_list_replicate len)
  also have "\<dots> \<le> MaxBytes opts" by linarith
  finally show ?thesis using sh by (simp add: cache_Stats_of_def cshard_ok_def cshard_linked_def)
qed

theorem cache_byte_ceiling_witness:
  "cst_Bytes (cache_Stats_of (cache_run [OpPut 0 [1] ([1, 2], ''block''), OpGet 1 [1]]
     (cache_New \<lparr> MaxBytes = 64, TTL = 5 \<rparr>))) \<le> 64"
  using cache_byte_ceiling [of "\<lparr> MaxBytes = 64, TTL = 5 \<rparr>"
      "[OpPut 0 [1] ([1, 2], ''block''), OpGet 1 [1]]"] by simp

lemma cache_Get_after_Put:
  assumes "cache_ok mb ttl c" and "cache_held key c = None \<longrightarrow> int (length body) \<le> mb"
    and "t' - t \<le> ttl"
  shows "fst (cache_Get t' key (cache_Put t key cls body c)) =
     Some (case cache_held key c of None \<Rightarrow> (body, cls) | Some v \<Rightarrow> v)"
proof -
  let ?s = "shardOf c key"
  have len: "length c = shards" using assms(1) by (rule cache_ok_length)
  have ok: "cshard_ok mb ttl ?s" and mb: "0 < mb"
    using assms(1) by (auto simp: cache_ok_def all_shards_shardOf)
  have ttl: "c_ttl (put_shard t key cls body ?s) = ttl"
    using put_shard_ok [OF ok mb] by (simp add: cshard_ok_def)
  show ?thesis
  proof (cases "map_of (c_items ?s) key")
    case None
    with assms(2) put_shard_holds [OF ok None] ttl assms(3) show ?thesis
      by (simp add: cache_Get_def Let_def cache_Put_def len cache_held_def get_shard_fresh)
  next
    case (Some e)
    with put_shard_refreshes [OF Some] ttl assms(3) show ?thesis
      by (simp add: cache_Get_def Let_def cache_Put_def len cache_held_def get_shard_fresh)
  qed
qed

text \<open>
  an object that fits a shard's ceiling is servable right after it is
  stored and for the whole time-to-live; storing a key that is already held
  keeps the bytes and class first stored and restarts its time-to-live.
\<close>

theorem cache_put_get:
  assumes "cache_ok mb ttl c" and "cache_held key c = None \<longrightarrow> int (length body) \<le> mb"
    and "t' - t \<le> ttl"
  shows "fst (cache_Get t' key (cache_Put t key cls body c)) =
     Some (case cache_held key c of None \<Rightarrow> (body, cls) | Some v \<Rightarrow> v)"
  using assms by (rule cache_Get_after_Put)

theorem cache_put_get_witness:
  "fst (cache_Get 5 [1] (cache_Put 0 [1] ''block'' [1, 2] (cache_New \<lparr> MaxBytes = 640, TTL = 5 \<rparr>))) =
     Some ([1, 2], ''block'')"
proof -
  have ok: "cache_ok 10 5 (cache_New \<lparr> MaxBytes = 640, TTL = 5 \<rparr>)"
    using cache_ok_New [of "\<lparr> MaxBytes = 640, TTL = 5 \<rparr>"] by (simp add: per_shard_def)
  have "cache_held [1] (cache_New \<lparr> MaxBytes = 640, TTL = 5 \<rparr>) = None"
    by (simp add: cache_held_def cache_New_def Let_def)
  with cache_put_get [OF ok, of "[1]" "[1, 2]" 5 0 "''block''"] show ?thesis by simp
qed

text \<open>
  an object larger than a shard's share of the ceiling (a sixty-fourth of
  \<open>MaxBytes\<close>, 16 MiB at the default 1 GiB) is evicted by its own insertion,
  together with every other entry of its shard: right after \<open>Put\<close> neither it
  nor any key of that shard can be read.
\<close>

theorem cache_oversize_flushes:
  assumes "cache_ok mb ttl c" and "cache_held key c = None" and "mb < int (length body)"
    and "shard_index k = shard_index key"
  shows "fst (cache_Get t' k (cache_Put t key cls body c)) = None"
proof -
  have len: "length c = shards" using assms(1) by (rule cache_ok_length)
  have ok: "cshard_ok mb ttl (shardOf c key)" and mb: "0 \<le> mb"
    using assms(1) by (auto simp: cache_ok_def all_shards_shardOf)
  have "map_of (c_items (put_shard t key cls body (shardOf c key))) k = None"
    using put_shard_oversize [OF ok _ assms(3) mb] assms(2) by (simp add: cache_held_def)
  with assms(4) show ?thesis
    by (simp add: cache_Get_def Let_def cache_Put_def shardOf_set_shard len get_shard_def)
qed

theorem cache_oversize_flushes_witness:
  "fst (cache_Get 0 [1] (cache_Put 0 [1] ''subtree'' (replicate (2 ^ 24 + 1) 0)
     (cache_New \<lparr> MaxBytes = 0, TTL = 0 \<rparr>))) = None"
proof -
  have ok: "cache_ok (2 ^ 24) (10 * minute) (cache_New \<lparr> MaxBytes = 0, TTL = 0 \<rparr>)"
    using cache_ok_New [of "\<lparr> MaxBytes = 0, TTL = 0 \<rparr>"] by (simp add: per_shard_def)
  have "cache_held [1] (cache_New \<lparr> MaxBytes = 0, TTL = 0 \<rparr>) = None"
    by (simp add: cache_held_def cache_New_def Let_def)
  with cache_oversize_flushes [OF ok, of "[1]" "replicate (2 ^ 24 + 1) 0" "[1]" 0 0 "''subtree''"]
  show ?thesis by simp
qed

text \<open>
  whatever the cache returns for a key, after any history of puts and gets
  from a new cache, is a body and class that were put under that very key.
\<close>

theorem cache_reads_are_writes:
  assumes "fst (cache_Get t k (cache_run ops (cache_New opts))) = Some v"
  shows "\<exists>t'. OpPut t' k v \<in> set ops"
proof (rule lru.reads_are_writes [OF cache_ok_New _ assms])
  show "cache_held k (cache_New opts) = None" for k
    by (simp add: cache_held_def cache_New_def Let_def)
qed

theorem cache_reads_are_writes_witness:
  "\<exists>t'. OpPut t' ([1] :: hash) ([1, 2] :: bytes, ''block'') \<in> set [OpPut 0 [1] ([1, 2], ''block'')]"
proof (rule cache_reads_are_writes [of 5 _ _ "\<lparr> MaxBytes = 640, TTL = 5 \<rparr>"])
  have "put_shard 0 [1] ''block'' [1, 2] (shardOf (cache_New \<lparr> MaxBytes = 640, TTL = 5 \<rparr>) [1])
      = \<lparr> c_items = [([1], \<lparr> e_body = [1, 2], e_class = ''block'', e_stored = 0 \<rparr>)],
          c_lru = [[1]], c_bytes = 2, c_maxBytes = 10, c_ttl = 5, c_stored = 1, c_hits = 0,
          c_misses = 0, c_evicted = 0, c_expired = 0 \<rparr>"
    by (simp add: cache_New_def put_shard_def putOwnedLocked_def push_entry_def evictLocked.simps)
  then show "fst (cache_Get 5 [1] (cache_run [OpPut 0 [1] ([1, 2], ''block'')]
      (cache_New \<lparr> MaxBytes = 640, TTL = 5 \<rparr>))) = Some ([1, 2], ''block'')"
    by (simp add: cache_Put_def cache_Get_def get_shard_def cache_New_def Let_def shardOf_set_shard)
qed

end
