(* ===== verification/Submit.thy ===== *)
theory Submit
  imports Prelude
begin

text \<open>
  \<open>internal/submit\<close>: the up-tunnel sender of one class.  A connection is the
  address it was dialled to with the bytes written on it so far, since the
  stream is bare and only whole objects keep the peer's parser aligned.  The
  network is a pair of answers for one \<open>Send\<close>: which addresses accept a dial,
  and how the write ends.
\<close>

record UpTunnel =
  up_Addrs :: "string list"
  up_Class :: string
  up_conn :: "(string \<times> bytes) option"
  up_cur :: nat
  up_sent :: nat
  up_bytes :: nat
  up_failures :: nat
  up_redials :: nat

datatype send_error = EmptyObject | NoAddresses | AllAddressesFailed | WriteFailed

text \<open>A write takes the whole object, or fails after some bytes of it.\<close>

datatype write_end = WroteAll | FailedAfter nat

definition UpTunnel_new :: "string list \<Rightarrow> string \<Rightarrow> UpTunnel" where
  "UpTunnel_new addrs cls =
     \<lparr> up_Addrs = addrs, up_Class = cls, up_conn = None, up_cur = 0, up_sent = 0, up_bytes = 0,
       up_failures = 0, up_redials = 0 \<rparr>"

fun dial_loop :: "(string \<Rightarrow> bool) \<Rightarrow> nat \<Rightarrow> UpTunnel \<Rightarrow> UpTunnel" where
  "dial_loop dial 0 u = u"
| "dial_loop dial (Suc n) u =
     (let addr = up_Addrs u ! (up_cur u mod length (up_Addrs u)) in
      if dial addr then u \<lparr> up_conn := Some (addr, []), up_redials := up_redials u + 1 \<rparr>
      else dial_loop dial n
        (u \<lparr> up_failures := up_failures u + 1, up_cur := (up_cur u + 1) mod length (up_Addrs u) \<rparr>))"

definition write_conn :: "write_end \<Rightarrow> bytes \<Rightarrow> string \<times> bytes \<Rightarrow> UpTunnel \<Rightarrow> send_error option \<times> UpTunnel" where
  "write_conn w obj c u =
     (case w of
        FailedAfter n \<Rightarrow> (Some WriteFailed, u \<lparr> up_conn := None, up_failures := up_failures u + 1 \<rparr>)
      | WroteAll \<Rightarrow> (None, u \<lparr> up_conn := Some (fst c, snd c @ obj), up_sent := up_sent u + 1,
                             up_bytes := up_bytes u + length obj \<rparr>))"

definition Send :: "(string \<Rightarrow> bool) \<Rightarrow> write_end \<Rightarrow> bytes \<Rightarrow> UpTunnel \<Rightarrow> send_error option \<times> UpTunnel" where
  "Send dial w obj u =
     (if obj = [] then (Some EmptyObject, u)
      else if up_conn u = None \<and> up_Addrs u = [] then (Some NoAddresses, u)
      else let u = (if up_conn u = None then dial_loop dial (length (up_Addrs u)) u else u) in
        case up_conn u of
          None \<Rightarrow> (Some AllAddressesFailed, u)
        | Some c \<Rightarrow> write_conn w obj c u)"

definition UpTunnel_Close :: "UpTunnel \<Rightarrow> UpTunnel" where
  "UpTunnel_Close u = u \<lparr> up_conn := None \<rparr>"

record UpStats =
  us_Class :: string
  us_Sent :: nat
  us_Bytes :: nat
  us_Failures :: nat
  us_Redials :: nat

definition UpTunnel_Stats :: "UpTunnel \<Rightarrow> UpStats" where
  "UpTunnel_Stats u =
     \<lparr> us_Class = up_Class u, us_Sent = up_sent u, us_Bytes = up_bytes u, us_Failures = up_failures u,
       us_Redials = up_redials u \<rparr>"

section \<open>Dialling\<close>

text \<open>The \<open>i\<close>-th address in the order of one pass from the cursor.\<close>

definition pass_addr :: "UpTunnel \<Rightarrow> nat \<Rightarrow> string" where
  "pass_addr u i = up_Addrs u ! ((up_cur u + i) mod length (up_Addrs u))"

definition up_ok :: "UpTunnel \<Rightarrow> bool" where
  "up_ok u \<longleftrightarrow> up_Addrs u = [] \<and> up_conn u = None \<or> up_cur u < length (up_Addrs u)"

text \<open>The state after \<open>i\<close> failed dials of a pass.\<close>

definition missed :: "nat \<Rightarrow> UpTunnel \<Rightarrow> UpTunnel" where
  "missed i u = u \<lparr> up_failures := up_failures u + i, up_cur := (up_cur u + i) mod length (up_Addrs u) \<rparr>"

lemma missed_cur: "up_cur u < length (up_Addrs u) \<Longrightarrow> up_cur (missed i u) < length (up_Addrs (missed i u))"
proof -
  assume "up_cur u < length (up_Addrs u)"
  then have "0 < length (up_Addrs u)" by linarith
  then show ?thesis by (simp add: missed_def)
qed

lemma dial_loop_miss:
  "up_cur u < length (up_Addrs u) \<Longrightarrow> \<forall>i < n. \<not> dial (pass_addr u i) \<Longrightarrow> dial_loop dial n u = missed n u"
proof (induction n arbitrary: u)
  case 0
  then show ?case by (simp add: missed_def)
next
  case (Suc n)
  have "up_cur (missed 1 u) < length (up_Addrs (missed 1 u))" using Suc.prems(1) by (rule missed_cur)
  moreover have "\<forall>i < n. \<not> dial (pass_addr (missed 1 u) i)"
    using Suc.prems(2) by (auto simp: pass_addr_def missed_def mod_add_left_eq)
  ultimately have "dial_loop dial n (missed 1 u) = missed n (missed 1 u)" by (rule Suc.IH)
  moreover have "\<not> dial (up_Addrs u ! (up_cur u mod length (up_Addrs u)))"
    using Suc.prems(2) by (auto simp: pass_addr_def)
  moreover have "missed n (missed 1 u) = missed (Suc n) u" by (simp add: missed_def mod_add_left_eq)
  ultimately show ?case by (simp add: missed_def)
qed

lemma dial_loop_hit:
  "up_cur u < length (up_Addrs u) \<Longrightarrow> i < n \<Longrightarrow> dial (pass_addr u i) \<Longrightarrow> \<forall>j < i. \<not> dial (pass_addr u j) \<Longrightarrow>
   dial_loop dial n u = (missed i u) \<lparr> up_conn := Some (pass_addr u i, []), up_redials := up_redials u + 1 \<rparr>"
proof (induction i arbitrary: u n)
  case 0
  then obtain m where "n = Suc m" by (cases n) auto
  with 0 show ?case by (simp add: pass_addr_def missed_def)
next
  case (Suc i)
  then obtain m where n: "n = Suc m" "i < m" by (cases n) auto
  have p: "pass_addr (missed 1 u) j = pass_addr u (Suc j)" for j
    by (simp add: pass_addr_def missed_def mod_add_left_eq)
  have "up_cur (missed 1 u) < length (up_Addrs (missed 1 u))" using Suc.prems(1) by (rule missed_cur)
  then have "dial_loop dial m (missed 1 u) = (missed i (missed 1 u))
      \<lparr> up_conn := Some (pass_addr u (Suc i), []), up_redials := up_redials (missed 1 u) + 1 \<rparr>"
    using Suc.IH [of "missed 1 u" m] n Suc.prems by (simp add: p [simplified])
  moreover have "\<not> dial (up_Addrs u ! (up_cur u mod length (up_Addrs u)))"
    using Suc.prems(4) by (auto simp: pass_addr_def)
  moreover have "missed i (missed 1 u) = missed (Suc i) u" by (simp add: missed_def mod_add_left_eq)
  ultimately show ?case using n by (simp add: missed_def)
qed

text \<open>One pass reaches every configured address.\<close>

lemma pass_covers:
  assumes "up_cur u < length (up_Addrs u)"
  shows "(\<exists>i < length (up_Addrs u). dial (pass_addr u i)) \<longleftrightarrow> (\<exists>a \<in> set (up_Addrs u). dial a)"
proof
  assume "\<exists>i < length (up_Addrs u). dial (pass_addr u i)"
  then show "\<exists>a \<in> set (up_Addrs u). dial a" using assms
    by (metis pass_addr_def nth_mem mod_less_divisor order_le_less_trans zero_le)
next
  assume "\<exists>a \<in> set (up_Addrs u). dial a"
  then obtain k where k: "k < length (up_Addrs u)" "dial (up_Addrs u ! k)" by (auto simp: in_set_conv_nth)
  let ?n = "length (up_Addrs u)"
  define i where "i = (if up_cur u \<le> k then k - up_cur u else k + ?n - up_cur u)"
  have "i < ?n" "(up_cur u + i) mod ?n = k" using k assms by (auto simp: i_def)
  then show "\<exists>i < ?n. dial (pass_addr u i)" using k(2) by (auto simp: pass_addr_def)
qed

lemma least_below: "\<exists>i < (n :: nat). P i \<Longrightarrow> \<exists>i < n. P i \<and> (\<forall>j < i. \<not> P j)"
  by (metis (mono_tags, lifting) LeastI_ex Least_le not_less_Least order_le_less_trans)

lemma Send_dial:
  assumes "up_cur u < length (up_Addrs u)" and "up_conn u = None" and "obj \<noteq> []"
  shows "(\<forall>a \<in> set (up_Addrs u). \<not> dial a) \<and>
       Send dial w obj u = (Some AllAddressesFailed, missed (length (up_Addrs u)) u) \<or>
    (\<exists>i < length (up_Addrs u). dial (pass_addr u i) \<and> (\<forall>j < i. \<not> dial (pass_addr u j)) \<and>
       Send dial w obj u = write_conn w obj (pass_addr u i, [])
         ((missed i u) \<lparr> up_conn := Some (pass_addr u i, []), up_redials := up_redials u + 1 \<rparr>))"
proof (cases "\<exists>a \<in> set (up_Addrs u). dial a")
  case True
  then obtain i where i: "i < length (up_Addrs u)" "dial (pass_addr u i)" "\<forall>j < i. \<not> dial (pass_addr u j)"
    using pass_covers [OF assms(1)] least_below [of "length (up_Addrs u)" "\<lambda>i. dial (pass_addr u i)"] by blast
  then show ?thesis using dial_loop_hit [of u i "length (up_Addrs u)" dial] assms
    by (auto simp: Send_def Let_def)
next
  case False
  then have "\<forall>i < length (up_Addrs u). \<not> dial (pass_addr u i)" using pass_covers [OF assms(1)] by blast
  then show ?thesis using False dial_loop_miss [of u "length (up_Addrs u)" dial] assms
    by (auto simp: Send_def Let_def missed_def)
qed

section \<open>Whole objects only\<close>

text \<open>
  A history of sends, each with the network it met: the objects \<open>Send\<close> accepted
  so far and the tunnel.
\<close>

definition step_send :: "(string \<Rightarrow> bool) \<times> write_end \<times> bytes \<Rightarrow> bytes list \<times> UpTunnel \<Rightarrow> bytes list \<times> UpTunnel" where
  "step_send x st =
     (case x of (dial, w, obj) \<Rightarrow>
      case Send dial w obj (snd st) of
        (None, u) \<Rightarrow> (fst st @ [obj], u)
      | (Some e, u) \<Rightarrow> (fst st, u))"

text \<open>
  The counters count the accepted objects, and an open connection carries the
  last of them, whole and in order, to a configured address.
\<close>

definition aligned :: "bytes list \<Rightarrow> UpTunnel \<Rightarrow> bool" where
  "aligned objs u \<longleftrightarrow>
     up_sent u = length objs \<and> up_bytes u = length (concat objs) \<and>
     (case up_conn u of
        None \<Rightarrow> True
      | Some (a, s) \<Rightarrow> a \<in> set (up_Addrs u) \<and> (\<exists>pre whole. objs = pre @ whole \<and> s = concat whole))"

lemma write_conn_aligned:
  assumes "aligned objs u" and "up_conn u = Some c"
  shows "case write_conn w obj c u of
      (None, u') \<Rightarrow> w = WroteAll \<and> aligned (objs @ [obj]) u' \<and> up_Addrs u' = up_Addrs u \<and> up_cur u' = up_cur u \<and>
        up_conn u' = Some (fst c, snd c @ obj)
    | (Some e, u') \<Rightarrow> w \<noteq> WroteAll \<and> aligned objs u' \<and> up_conn u' = None \<and> up_Addrs u' = up_Addrs u \<and> up_cur u' = up_cur u"
proof (cases w)
  case WroteAll
  obtain a s pre whole where c: "c = (a, s)" "objs = pre @ whole" "s = concat whole" "a \<in> set (up_Addrs u)"
    using assms by (cases c) (auto simp: aligned_def)
  have "objs @ [obj] = pre @ (whole @ [obj])" "s @ obj = concat (whole @ [obj])" using c by simp_all
  then show ?thesis using assms WroteAll c by (fastforce simp: write_conn_def aligned_def)
next
  case (FailedAfter n)
  then show ?thesis using assms by (simp add: write_conn_def aligned_def)
qed

lemma Send_aligned:
  assumes "aligned objs u" and "up_cur u < length (up_Addrs u)"
  shows "aligned (fst (step_send (dial, w, obj) (objs, u))) (snd (step_send (dial, w, obj) (objs, u))) \<and>
    up_cur (snd (step_send (dial, w, obj) (objs, u))) < length (up_Addrs u) \<and>
    up_Addrs (snd (step_send (dial, w, obj) (objs, u))) = up_Addrs u"
proof (cases "obj = []")
  case True
  then show ?thesis using assms by (simp add: step_send_def Send_def)
next
  case ne: False
  show ?thesis
  proof (cases "up_conn u")
    case (Some c)
    then have "Send dial w obj u = write_conn w obj c u" using ne by (simp add: Send_def Let_def)
    moreover obtain e u' where "write_conn w obj c u = (e, u')" by fastforce
    ultimately show ?thesis using write_conn_aligned [OF assms(1) Some, of w obj] assms(2)
      by (cases e) (simp_all add: step_send_def)
  next
    case None
    have m: "aligned objs (missed i u)" for i using assms(1) by (simp add: aligned_def missed_def None)
    have cur: "up_cur (missed i u) < length (up_Addrs u)" for i
      using missed_cur [OF assms(2), of i] by (simp add: missed_def)
    from Send_dial [OF assms(2) None ne, of dial w] show ?thesis
    proof (elim disjE exE conjE)
      assume "Send dial w obj u = (Some AllAddressesFailed, missed (length (up_Addrs u)) u)"
      then show ?thesis using m cur by (simp add: step_send_def) (simp add: missed_def)
    next
      fix i
      define v where "v = (missed i u) \<lparr> up_conn := Some (pass_addr u i, []), up_redials := up_redials u + 1 \<rparr>"
      assume "i < length (up_Addrs u)" and s: "Send dial w obj u = write_conn w obj (pass_addr u i, [])
         ((missed i u) \<lparr> up_conn := Some (pass_addr u i, []), up_redials := up_redials u + 1 \<rparr>)"
      have "(up_cur u + i) mod length (up_Addrs u) < length (up_Addrs u)"
        using assms(2) by (intro mod_less_divisor) linarith
      then have "pass_addr u i \<in> set (up_Addrs u)" by (simp add: pass_addr_def)
      moreover have "\<exists>pre whole. objs = pre @ whole \<and> [] = concat whole" by (rule exI [of _ objs]) force
      ultimately have "aligned objs v" using assms(1) by (simp add: aligned_def missed_def v_def)
      moreover have "up_conn v = Some (pass_addr u i, [])" "up_Addrs v = up_Addrs u" "up_cur v = up_cur (missed i u)"
        by (simp_all add: v_def missed_def)
      moreover obtain e u' where "write_conn w obj (pass_addr u i, []) v = (e, u')" by fastforce
      ultimately show ?thesis
        using write_conn_aligned [of objs v "(pass_addr u i, [])" w obj] cur [of i] s
        unfolding v_def [symmetric] by (cases e) (simp_all add: step_send_def)
    qed
  qed
qed

lemma fold_sends_aligned:
  "aligned objs u \<Longrightarrow> up_cur u < length (up_Addrs u) \<Longrightarrow>
   aligned (fst (fold step_send xs (objs, u))) (snd (fold step_send xs (objs, u)))"
proof (induction xs arbitrary: objs u)
  case (Cons x xs)
  obtain dial w obj where x: "x = (dial, w, obj)" by (cases x)
  obtain objs' u' where st: "step_send x (objs, u) = (objs', u')" by fastforce
  have "aligned objs' u'" "up_cur u' < length (up_Addrs u')"
    using Send_aligned [OF Cons.prems, of dial w obj] st x by simp_all
  then show ?case using Cons.IH [of objs' u'] st by simp
qed simp

section \<open>Properties\<close>

text \<open>
  C29: The peer's parser stays aligned.  After any history of sends over any
  network, with dials and writes failing as they may, an open connection leads
  to a configured address and its byte stream is a concatenation of whole
  objects, the last ones accepted, in order; the counters match what was
  accepted.
\<close>

theorem uptunnel_whole_objects:
  assumes "addrs \<noteq> []"
  shows "let (objs, u) = fold step_send xs ([], UpTunnel_new addrs cls) in
    up_sent u = length objs \<and> up_bytes u = length (concat objs) \<and>
    (\<forall>a s. up_conn u = Some (a, s) \<longrightarrow>
      a \<in> set (up_Addrs u) \<and> (\<exists>pre whole. objs = pre @ whole \<and> s = concat whole))"
proof -
  have "aligned [] (UpTunnel_new addrs cls)" "up_cur (UpTunnel_new addrs cls) < length (up_Addrs (UpTunnel_new addrs cls))"
    using assms by (simp_all add: aligned_def UpTunnel_new_def)
  from fold_sends_aligned [OF this, of xs] show ?thesis
    by (auto simp: aligned_def split: prod.splits option.splits)
qed

theorem uptunnel_whole_objects_witness:
  "let (objs, u) = fold step_send
       [(\<lambda>a. a = ''b'', WroteAll, [1, 2]), (\<lambda>a. False, FailedAfter 1, [3]), (\<lambda>a. True, WroteAll, [4])]
       ([], UpTunnel_new [''a'', ''b''] ''block'') in
    up_sent u = length objs \<and> up_bytes u = length (concat objs) \<and>
    (\<forall>a s. up_conn u = Some (a, s) \<longrightarrow>
      a \<in> set (up_Addrs u) \<and> (\<exists>pre whole. objs = pre @ whole \<and> s = concat whole))"
  by (rule uptunnel_whole_objects) simp

text \<open>
  Failover order.  A send without a connection tries the addresses once
  each, from the sticky cursor on and in list order, and writes on the first
  that accepts, where the cursor then stays; it fails for want of an address
  exactly when none accepts.
\<close>

theorem uptunnel_failover:
  assumes "up_cur u < length (up_Addrs u)" and "up_conn u = None" and "obj \<noteq> []"
  shows "(fst (Send dial w obj u) = Some AllAddressesFailed \<longleftrightarrow> (\<forall>a \<in> set (up_Addrs u). \<not> dial a)) \<and>
    ((\<exists>a \<in> set (up_Addrs u). dial a) \<longrightarrow>
      (\<exists>i < length (up_Addrs u). dial (pass_addr u i) \<and> (\<forall>j < i. \<not> dial (pass_addr u j)) \<and>
         up_cur (snd (Send dial w obj u)) = (up_cur u + i) mod length (up_Addrs u) \<and>
         up_failures (snd (Send dial w obj u)) = up_failures u + i + (if w = WroteAll then 0 else 1) \<and>
         up_conn (snd (Send dial w obj u)) = (if w = WroteAll then Some (pass_addr u i, obj) else None)))"
proof -
  have mod: "(up_cur u + i) mod length (up_Addrs u) < length (up_Addrs u)" for i
    using assms(1) by (intro mod_less_divisor) linarith
  then have mem: "pass_addr u i \<in> set (up_Addrs u)" for i by (simp add: pass_addr_def)
  from Send_dial [OF assms, of dial w] show ?thesis
    using mem by (elim disjE exE conjE)
      (auto simp: write_conn_def missed_def split: write_end.splits)
qed

theorem uptunnel_failover_witness:
  "fst (Send (\<lambda>a. False) WroteAll [1] (UpTunnel_new [''a'', ''b''] ''block'')) = Some AllAddressesFailed \<and>
   up_conn (snd (Send (\<lambda>a. a = ''b'') WroteAll [1] (UpTunnel_new [''a'', ''b''] ''block''))) = Some (''b'', [1])"
proof -
  have u: "up_cur (UpTunnel_new [''a'', ''b''] ''block'') < length (up_Addrs (UpTunnel_new [''a'', ''b''] ''block''))"
    "up_conn (UpTunnel_new [''a'', ''b''] ''block'') = None" by (simp_all add: UpTunnel_new_def)
  have "fst (Send (\<lambda>a. False) WroteAll [1] (UpTunnel_new [''a'', ''b''] ''block'')) = Some AllAddressesFailed"
    using uptunnel_failover [OF u, of "[1]" "\<lambda>a. False"] by simp
  moreover have "up_conn (snd (Send (\<lambda>a. a = ''b'') WroteAll [1] (UpTunnel_new [''a'', ''b''] ''block''))) = Some (''b'', [1])"
    using uptunnel_failover [OF u, of "[1]" "\<lambda>a. a = ''b''" WroteAll]
    by (auto simp: UpTunnel_new_def)
  ultimately show ?thesis by simp
qed

end
