(* ===== verification/Sha256.thy ===== *)
theory Sha256
  imports Prelude
begin

text \<open>
  The digest of \<open>crypto/sha256\<close> that \<open>hashid.DoubleSHA256\<close> calls: padding,
  message schedule and compression over 32-bit words.  Block identities are
  computed with it, so it is a function of the model and not a parameter.
  The digest's width and the block alignment of its padding are proved below.
\<close>

text \<open>
  The constants of the standard: the first 32 fractional bits of the cube
  roots (round constants) and square roots (initial state) of the first
  primes.  \<open>root_bits\<close> finds the integer part of a \<open>k\<close>-th root bit by bit.
\<close>

fun root_bits :: "nat \<Rightarrow> nat \<Rightarrow> int \<Rightarrow> int \<Rightarrow> int" where
  "root_bits 0 k n acc = acc"
| "root_bits (Suc i) k n acc =
     root_bits i k n (if (acc + 2 ^ i) ^ k \<le> n then acc + 2 ^ i else acc)"

definition frac_root :: "nat \<Rightarrow> int \<Rightarrow> u32" where
  "frac_root k p = word_of_int (root_bits 35 k (p * 2 ^ (32 * k)) 0)"

definition first_primes :: "int list" where
  "first_primes = filter (\<lambda>n. list_all (\<lambda>d. n mod d \<noteq> 0) [2..n - 1]) [2..311]"

definition sha_k :: "u32 list" where
  "sha_k = map (frac_root 3) first_primes"

record sha_regs =
  ra :: u32
  rb :: u32
  rc :: u32
  rd :: u32
  re :: u32
  rf :: u32
  rg :: u32
  rh :: u32

definition sha_init :: sha_regs where
  "sha_init = \<lparr> ra = frac_root 2 2, rb = frac_root 2 3, rc = frac_root 2 5, rd = frac_root 2 7,
                re = frac_root 2 11, rf = frac_root 2 13, rg = frac_root 2 17, rh = frac_root 2 19 \<rparr>"

definition rotr32 :: "nat \<Rightarrow> u32 \<Rightarrow> u32" where
  "rotr32 n x = drop_bit n x OR push_bit (32 - n) x"

definition small_sigma0 :: "u32 \<Rightarrow> u32" where
  "small_sigma0 x = (rotr32 7 x XOR rotr32 18 x) XOR drop_bit 3 x"

definition small_sigma1 :: "u32 \<Rightarrow> u32" where
  "small_sigma1 x = (rotr32 17 x XOR rotr32 19 x) XOR drop_bit 10 x"

definition big_sigma0 :: "u32 \<Rightarrow> u32" where
  "big_sigma0 x = (rotr32 2 x XOR rotr32 13 x) XOR rotr32 22 x"

definition big_sigma1 :: "u32 \<Rightarrow> u32" where
  "big_sigma1 x = (rotr32 6 x XOR rotr32 11 x) XOR rotr32 25 x"

definition sha_ch :: "u32 \<Rightarrow> u32 \<Rightarrow> u32 \<Rightarrow> u32" where
  "sha_ch x y z = (x AND y) XOR (NOT x AND z)"

definition sha_maj :: "u32 \<Rightarrow> u32 \<Rightarrow> u32 \<Rightarrow> u32" where
  "sha_maj x y z = ((x AND y) XOR (x AND z)) XOR (y AND z)"

text \<open>The schedule is kept newest word first, so the recurrence reads fixed positions.\<close>

fun sha_extend :: "nat \<Rightarrow> u32 list \<Rightarrow> u32 list" where
  "sha_extend 0 ws = ws"
| "sha_extend (Suc n) ws =
     sha_extend n ((small_sigma1 (ws ! 1) + ws ! 6 + small_sigma0 (ws ! 14) + ws ! 15) # ws)"

fun sha_words :: "nat \<Rightarrow> bytes \<Rightarrow> u32 list" where
  "sha_words 0 b = []"
| "sha_words (Suc n) b =
     (push_bit 24 (ucast (b ! 0)) OR push_bit 16 (ucast (b ! 1))
      OR push_bit 8 (ucast (b ! 2)) OR ucast (b ! 3)) # sha_words n (drop 4 b)"

definition sha_round :: "sha_regs \<Rightarrow> u32 \<times> u32 \<Rightarrow> sha_regs" where
  "sha_round s kw =
     (let t1 = rh s + big_sigma1 (re s) + sha_ch (re s) (rf s) (rg s) + fst kw + snd kw;
          t2 = big_sigma0 (ra s) + sha_maj (ra s) (rb s) (rc s)
      in \<lparr> ra = t1 + t2, rb = ra s, rc = rb s, rd = rc s,
           re = rd s + t1, rf = re s, rg = rf s, rh = rg s \<rparr>)"

definition sha_block :: "sha_regs \<Rightarrow> bytes \<Rightarrow> sha_regs" where
  "sha_block h b =
     (let ws = rev (sha_extend 48 (rev (sha_words 16 b)));
          s = foldl sha_round h (zip sha_k ws)
      in \<lparr> ra = ra h + ra s, rb = rb h + rb s, rc = rc h + rc s, rd = rd h + rd s,
           re = re h + re s, rf = rf h + rf s, rg = rg h + rg s, rh = rh h + rh s \<rparr>)"

fun sha_blocks :: "nat \<Rightarrow> sha_regs \<Rightarrow> bytes \<Rightarrow> sha_regs" where
  "sha_blocks 0 h b = h"
| "sha_blocks (Suc n) h b = sha_blocks n (sha_block h (take 64 b)) (drop 64 b)"

definition sha_pad :: "bytes \<Rightarrow> bytes" where
  "sha_pad m = m @ [0x80] @ replicate ((119 - length m mod 64) mod 64) 0
     @ put_be64 (of_nat (8 * length m))"

definition be32 :: "u32 \<Rightarrow> bytes" where
  "be32 v = [ucast (drop_bit 24 v), ucast (drop_bit 16 v), ucast (drop_bit 8 v), ucast v]"

definition Sum256 :: "bytes \<Rightarrow> hash" where
  "Sum256 m =
     (let p = sha_pad m; h = sha_blocks (length p div 64) sha_init p
      in be32 (ra h) @ be32 (rb h) @ be32 (rc h) @ be32 (rd h)
         @ be32 (re h) @ be32 (rf h) @ be32 (rg h) @ be32 (rh h))"

lemma length_Sum256 [simp, size_simps]: "length (Sum256 m) = 32"
  by (simp add: Sum256_def Let_def be32_def)

text \<open>The padded message is a whole number of 64-byte blocks, so no byte is left out.\<close>

lemma sha_pad_whole: "length (sha_pad m) mod 64 = 0"
proof -
  obtain q k where m: "length m = 64 * q + k" and k: "k < 64"
    by (metis mult_div_mod_eq mod_less_divisor zero_less_numeral)
  then have "length m mod 64 = k" by simp
  then have len: "length (sha_pad m) = 64 * q + (k + 9 + (119 - k) mod 64)"
    using m by (simp add: sha_pad_def)
  show ?thesis
  proof (cases "k < 56")
    case True
    then have "119 - k = 64 + (55 - k)" by arith
    then have "(119 - k) mod 64 = (55 - k) mod 64" by (simp only: mod_add_self1)
    then have "(119 - k) mod 64 = 55 - k" by simp
    with True len have "length (sha_pad m) = 64 * (q + 1)" by simp
    then show ?thesis by (metis mod_mult_self1_is_0)
  next
    case False
    with k have "(119 - k) mod 64 = 119 - k" by simp
    with k len have "length (sha_pad m) = 64 * (q + 2)" by simp
    then show ?thesis by (metis mod_mult_self1_is_0)
  qed
qed

end
