(* ===== verification/Hashid.thy ===== *)
theory Hashid
  imports Sha256
begin

text \<open>
  The package \<open>hashid\<close>: hashes in wire order, the reversed hexadecimal display
  form used in URLs and announcements, and the conversion back.  The lemmas
  show that the two directions are inverse to each other, on exactly the
  strings the parser accepts.
\<close>

datatype hashid_error = NeedBytes nat | WantHexChars nat | BadHex

definition FromWire :: "bytes \<Rightarrow> (hashid_error, hash) res" where
  "FromWire b = (if length b < 32 then Inl (NeedBytes (length b)) else Inr (take 32 b))"

definition DoubleSHA256 :: "bytes \<Rightarrow> hash" where
  "DoubleSHA256 b = Sum256 (Sum256 b)"

definition Display :: "hash \<Rightarrow> string" where
  "Display h = hex_encode (map (\<lambda>i. h ! (31 - i)) [0..<32])"

definition Wire :: "hash \<Rightarrow> bytes" where
  "Wire h = h"

definition ParseDisplay :: "string \<Rightarrow> (hashid_error, hash) res" where
  "ParseDisplay s =
     (if length s \<noteq> 64 then Inl (WantHexChars (length s))
      else case hex_decode s of
             None \<Rightarrow> Inl BadHex
           | Some raw \<Rightarrow> Inr (map (\<lambda>i. raw ! (31 - i)) [0..<32]))"

lemma rev_index32: "length h = 32 \<Longrightarrow> map (\<lambda>i. h ! (31 - i)) [0..<32] = rev h"
  by (rule nth_equalityI) (simp_all add: rev_nth)

lemma Display_rev: "wf_hash h \<Longrightarrow> Display h = hex_encode (rev h)"
  by (simp add: Display_def rev_index32)

lemma length_Display [simp]: "length (Display h) = 64"
  by (simp add: Display_def)

lemma wf_DoubleSHA256 [simp, size_simps]: "wf_hash (DoubleSHA256 b)"
  by (simp add: DoubleSHA256_def)

lemma FromWire_Inr_iff: "FromWire b = Inr h \<longleftrightarrow> 32 \<le> length b \<and> h = take 32 b"
  by (auto simp: FromWire_def)

lemma wf_FromWire: "FromWire b = Inr h \<Longrightarrow> wf_hash h"
  by (auto simp: FromWire_Inr_iff)

lemma ParseDisplay_Inr_iff:
  "ParseDisplay s = Inr h \<longleftrightarrow> length s = 64 \<and> hex_decode s = Some (rev h) \<and> wf_hash h"
proof
  assume a: "ParseDisplay s = Inr h"
  then have len: "length s = 64" by (auto simp: ParseDisplay_def split: if_splits)
  with a obtain raw where raw: "hex_decode s = Some raw"
    and h: "h = map (\<lambda>i. raw ! (31 - i)) [0..<32]"
    by (auto simp: ParseDisplay_def split: option.splits)
  have "length raw = 32" using hex_decode_length [OF raw] len by simp
  with raw h len show "length s = 64 \<and> hex_decode s = Some (rev h) \<and> wf_hash h"
    by (simp add: rev_index32)
next
  assume "length s = 64 \<and> hex_decode s = Some (rev h) \<and> wf_hash h"
  then show "ParseDisplay s = Inr h"
    using rev_index32 [of "rev h"] by (simp add: ParseDisplay_def)
qed

lemma ParseDisplay_Display [codec_simps]: "wf_hash h \<Longrightarrow> ParseDisplay (Display h) = Inr h"
  by (simp add: ParseDisplay_Inr_iff) (simp add: Display_rev codec_simps)

lemma wf_ParseDisplay: "ParseDisplay s = Inr h \<Longrightarrow> wf_hash h"
  by (simp add: ParseDisplay_Inr_iff)

lemma Display_inj: "wf_hash a \<Longrightarrow> wf_hash b \<Longrightarrow> Display a = Display b \<Longrightarrow> a = b"
  by (metis ParseDisplay_Display sum.inject(2))

text \<open>
  the display form of a hash parses back to the same hash, and the parser
  accepts a string exactly when it has 64 characters that are all hexadecimal
  digits; every other string is refused with an error.
\<close>

theorem hashid_roundtrip:
  "(wf_hash h \<longrightarrow> ParseDisplay (Display h) = Inr h) \<and>
   ((\<exists>h'. ParseDisplay s = Inr h') \<longleftrightarrow>
      length s = 64 \<and> (\<forall>c \<in> set s. from_hex_char c \<noteq> None))"
proof
  show "wf_hash h \<longrightarrow> ParseDisplay (Display h) = Inr h"
    by (simp add: codec_simps)
  have "(\<exists>h'. ParseDisplay s = Inr h') \<longleftrightarrow> length s = 64 \<and> (\<exists>r. hex_decode s = Some r)"
    by (auto simp: ParseDisplay_def split: option.splits)
  then show "(\<exists>h'. ParseDisplay s = Inr h') \<longleftrightarrow>
      length s = 64 \<and> (\<forall>c \<in> set s. from_hex_char c \<noteq> None)"
    by (auto simp: hex_decode_Some_iff)
qed

theorem hashid_roundtrip_witness:
  "ParseDisplay (Display (map of_nat [0..<32])) = Inr (map of_nat [0..<32]) \<and>
   \<not> (\<exists>h'. ParseDisplay ''zz'' = Inr h')"
  using hashid_roundtrip [of "map of_nat [0..<32]" "''zz''"] by simp

end
