(* ===== verification/Objfmt.thy ===== *)
theory Objfmt
  imports Hashid
begin

text \<open>
  The object codec \<open>github.com/lightwebinc/shard-common/objfmt\<close> is not part of
  the repository.  The operations the bridge calls are the fields of a record
  that every definition using them takes as an argument; \<open>None\<close> is an error
  answer.  What the bridge relies on is stated by the predicates below, after
  the repository's description of the formats: a transaction is delimited by
  walking its own structure, a subtree frame by its 40-byte header and a block
  frame by its 104-byte prefix.  A concrete codec for transactions of a fixed
  length shows that the predicates can hold together.
\<close>

record objfmt =
  IsEF :: "bytes \<Rightarrow> bool"
  TxID :: "bytes \<Rightarrow> hash option"
  TxSize :: "bytes \<Rightarrow> nat option"
  SubtreeSize :: "bytes \<Rightarrow> nat option"
  BlockSize :: "bytes \<Rightarrow> nat option"
  ToStandard :: "bytes \<Rightarrow> bytes option"
  SubtreeHeaderSize :: nat
  BlockPrefixSize :: nat

text \<open>
  A transaction is self-delimiting: its size is at least the ten bytes of
  version, two counts and locktime, lies within the buffer, and depends on
  the transaction's own bytes only.
\<close>

definition tx_delimited :: "objfmt \<Rightarrow> bool" where
  "tx_delimited F \<longleftrightarrow>
     (\<forall>b n. TxSize F b = Some n \<longrightarrow>
        10 \<le> n \<and> n \<le> length b \<and> (\<forall>rest. TxSize F (take n b @ rest) = Some n))"

text \<open>The published header sizes of the two frame formats.\<close>

definition frame_headers :: "objfmt \<Rightarrow> bool" where
  "frame_headers F \<longleftrightarrow> SubtreeHeaderSize F = 40 \<and> BlockPrefixSize F = 104"

text \<open>
  A block frame is as long as its prefix's counts say: prefix, subtree roots,
  an in-band coinbase, two 8-byte fields and the merkle path they size.
\<close>

definition block_sized :: "objfmt \<Rightarrow> bool" where
  "block_sized F \<longleftrightarrow>
     (\<forall>obj n. BlockSize F obj = Some n \<longrightarrow>
        120 + 32 * unat (get_be64 (take 8 (drop 96 obj))) \<le> n \<and> n \<le> length obj)"

text \<open>A transaction identifier is a 32-byte hash.\<close>

definition txid_wf :: "objfmt \<Rightarrow> bool" where
  "txid_wf F \<longleftrightarrow> (\<forall>b h. TxID F b = Some h \<longrightarrow> wf_hash h)"

lemma tx_delimitedD:
  "tx_delimited F \<Longrightarrow> TxSize F b = Some n \<Longrightarrow>
     10 \<le> n \<and> n \<le> length b \<and> TxSize F (take n b @ rest) = Some n"
  by (simp add: tx_delimited_def)

lemma tx_delimited_exact:
  "tx_delimited F \<Longrightarrow> TxSize F tx = Some (length tx) \<Longrightarrow> TxSize F (tx @ rest) = Some (length tx)"
  using tx_delimitedD [of F tx "length tx" rest] by simp

text \<open>A concrete codec: ten-byte transactions, the documented frame layouts.\<close>

definition sample_tx_size :: "bytes \<Rightarrow> nat option" where
  "sample_tx_size b = (if 10 \<le> length b then Some 10 else None)"

definition sample_block_size :: "bytes \<Rightarrow> nat option" where
  "sample_block_size obj =
     (let n = unat (get_be64 (take 8 (drop 96 obj)));
          off = 104 + 32 * n + 10;
          m = unat (get_be64 (take 8 (drop (off + 8) obj)))
      in if off + 16 + m \<le> length obj then Some (off + 16 + m) else None)"

definition sample_subtree_size :: "bytes \<Rightarrow> nat option" where
  "sample_subtree_size obj =
     (let n = unat (get_be64 (take 8 (drop 32 obj)))
      in if 40 + 32 * n \<le> length obj then Some (40 + 32 * n) else None)"

definition sample_objfmt :: objfmt where
  "sample_objfmt =
     \<lparr> IsEF = (\<lambda>b. take 6 (drop 4 b) = [0, 0, 0, 0, 0, 0xEF]),
       TxID = (\<lambda>b. Some (DoubleSHA256 b)),
       TxSize = sample_tx_size,
       SubtreeSize = sample_subtree_size,
       BlockSize = sample_block_size,
       ToStandard = (\<lambda>b. if take 6 (drop 4 b) = [0, 0, 0, 0, 0, 0xEF]
                          then Some (take 4 b @ drop 10 b) else None),
       SubtreeHeaderSize = 40,
       BlockPrefixSize = 104 \<rparr>"

lemma sample_objfmt_ok:
  "tx_delimited sample_objfmt" "frame_headers sample_objfmt"
  "block_sized sample_objfmt" "txid_wf sample_objfmt"
  by (auto simp: tx_delimited_def frame_headers_def block_sized_def txid_wf_def sample_objfmt_def
      sample_tx_size_def sample_block_size_def Let_def split: if_splits)

end
