(* ===== verification/Encode.thy ===== *)
theory Encode
  imports Objfmt
begin

text \<open>
  The package \<open>encode\<close>: the BRC-143 subtree frame and the BRC-144 block frame
  the bridge publishes.  Both builders check their own output against the
  shared codec before returning it.  The lemmas give the exact layout of what
  they return and when they refuse.
\<close>

datatype encode_error =
    NoNodes
  | SubtreeFailsCodec
  | HeaderLength nat
  | NoCoinbase
  | CoinbaseNotWhole
  | ZeroSubtreeRoot nat
  | BlockFailsCodec

definition CoinbasePlaceholder :: hash where
  "CoinbasePlaceholder = replicate 32 0xFF"

definition Subtree :: "objfmt \<Rightarrow> hash \<Rightarrow> hash list \<Rightarrow> (encode_error, bytes) res" where
  "Subtree F root nodes =
     (if nodes = [] then Inl NoNodes
      else let out = root @ put_be64 (u64_of_len nodes) @ concat nodes
           in if SubtreeSize F out \<noteq> Some (length out) then Inl SubtreeFailsCodec else Inr out)"

record Block =
  Header :: bytes
  TxCount :: u64
  SizeInBytes :: u64
  SubtreeRoots :: "hash list"
  Coinbase :: bytes
  Height :: u64
  CoinbaseBUMP :: bytes

text \<open>The index of the first all-zero root.\<close>

fun zero_root :: "nat \<Rightarrow> hash list \<Rightarrow> nat option" where
  "zero_root i [] = None"
| "zero_root i (r # rs) = (if r = replicate 32 0 then Some i else zero_root (Suc i) rs)"

definition block_layout :: "Block \<Rightarrow> bytes" where
  "block_layout b =
     Header b @ put_be64 (TxCount b) @ put_be64 (SizeInBytes b) @ put_be64 (u64_of_len (SubtreeRoots b))
     @ concat (SubtreeRoots b) @ Coinbase b @ put_be64 (Height b)
     @ put_be64 (u64_of_len (CoinbaseBUMP b)) @ CoinbaseBUMP b"

definition Block_Encode :: "objfmt \<Rightarrow> Block \<Rightarrow> (encode_error, bytes) res" where
  "Block_Encode F b =
     (if length (Header b) \<noteq> 80 then Inl (HeaderLength (length (Header b)))
      else if Coinbase b = [] then Inl NoCoinbase
      else if TxSize F (Coinbase b) \<noteq> Some (length (Coinbase b)) then Inl CoinbaseNotWhole
      else case zero_root 0 (SubtreeRoots b) of
        Some i \<Rightarrow> Inl (ZeroSubtreeRoot i)
      | None \<Rightarrow>
          let out = block_layout b
          in if BlockSize F out \<noteq> Some (length out) then Inl BlockFailsCodec else Inr out)"

definition wf_block :: "Block \<Rightarrow> bool" where
  "wf_block b \<longleftrightarrow> (\<forall>r \<in> set (SubtreeRoots b). wf_hash r)"

lemma zero_root_None_iff: "zero_root i rs = None \<longleftrightarrow> replicate 32 0 \<notin> set rs"
  by (induction rs arbitrary: i) auto

lemma Subtree_Inr_iff:
  "Subtree F root nodes = Inr out \<longleftrightarrow>
     nodes \<noteq> [] \<and> out = root @ put_be64 (u64_of_len nodes) @ concat nodes \<and>
     SubtreeSize F out = Some (length out)"
  by (auto simp: Subtree_def Let_def)

lemma Block_Encode_Inr_iff:
  "Block_Encode F b = Inr out \<longleftrightarrow>
     length (Header b) = 80 \<and> Coinbase b \<noteq> [] \<and> TxSize F (Coinbase b) = Some (length (Coinbase b)) \<and>
     replicate 32 0 \<notin> set (SubtreeRoots b) \<and> out = block_layout b \<and>
     BlockSize F out = Some (length out)"
  using zero_root_None_iff [of 0 "SubtreeRoots b"]
  by (auto simp: Block_Encode_def Let_def split: option.splits)

lemma length_block_layout [size_simps]:
  "wf_block b \<Longrightarrow> length (Header b) = 80 \<Longrightarrow>
   length (block_layout b) = 120 + 32 * length (SubtreeRoots b) + length (Coinbase b)
     + length (CoinbaseBUMP b)"
  by (simp add: block_layout_def wf_block_def length_concat32)

lemma length_Subtree:
  "Subtree F root nodes = Inr out \<Longrightarrow> wf_hash root \<Longrightarrow> \<forall>n \<in> set nodes. wf_hash n \<Longrightarrow>
   length out = 40 + 32 * length nodes"
  by (simp add: Subtree_Inr_iff length_concat32)

end
