(* ===== verification/Tnwire.thy ===== *)
theory Tnwire
  imports Encode
begin

text \<open>
  The package \<open>tnwire\<close>: conversion between the BRC-144 block frame (counts as
  8-byte big-endian fields) and Teranode's block serialization (counts as
  CompactSize integers).  Go's \<open>int\<close> conversions and products are written with
  their wrap-around and every slice expression can panic, so that the guards
  of the source are tested against hostile counts too.
\<close>

datatype tnwire_error =
    FrameSize
  | FrameMismatch nat nat
  | ShortPrefix
  | RootsOverrun
  | ZeroRoot nat
  | CoinbaseUnsized
  | TruncatedBeforeHeight
  | TruncatedBUMP
  | BlockTooShort nat
  | BadTxCount
  | BadSizeField
  | BadSubtreeCount
  | BadHeight
  | BadBUMPLength
  | Panic

section \<open>CompactSize integers\<close>

definition AppendVarInt :: "bytes \<Rightarrow> u64 \<Rightarrow> bytes" where
  "AppendVarInt b v =
     (if v < 0xfd then b @ [ucast v]
      else if v \<le> 0xffff then b @ [0xfd] @ put_le 2 v
      else if v \<le> 0xffffffff then b @ [0xfe] @ put_le 4 v
      else b @ [0xff] @ put_le 8 v)"

fun readVarInt :: "bytes \<Rightarrow> u64 \<times> nat" where
  "readVarInt [] = (0, 0)"
| "readVarInt (x # b) =
     (if x = 0xfd then (if length (x # b) < 3 then (0, 0) else (get_le (take 2 b), 3))
      else if x = 0xfe then (if length (x # b) < 5 then (0, 0) else (get_le (take 4 b), 5))
      else if x = 0xff then (if length (x # b) < 9 then (0, 0) else (get_le (take 8 b), 9))
      else (of_nat (unat x), 1))"

abbreviation varint :: "u64 \<Rightarrow> bytes" where
  "varint v \<equiv> AppendVarInt [] v"

lemma AppendVarInt_append: "AppendVarInt b v = b @ varint v"
  by (simp add: AppendVarInt_def)

lemma word_le_bound: "v \<le> (w :: u64) \<Longrightarrow> unat v \<le> unat w"
  by (simp add: word_le_nat_alt)

lemma small_varint:
  assumes "(v :: u64) < 0xfd"
  shows "(ucast v :: byte) \<notin> {0xfd, 0xfe, 0xff}" and "unat (ucast v :: byte) = unat v"
proof -
  have v: "unat v < 0xfd" using assms by (simp add: word_less_nat_alt)
  then show u: "unat (ucast v :: byte) = unat v"
    by (simp add: unsigned_ucast_eq take_bit_nat_eq_self)
  show "(ucast v :: byte) \<notin> {0xfd, 0xfe, 0xff}"
  proof
    assume "(ucast v :: byte) \<in> {0xfd, 0xfe, 0xff}"
    then have "unat (ucast v :: byte) \<in> {0xfd, 0xfe, 0xff}" by auto
    then show False using u v by auto
  qed
qed

lemma readVarInt_append [codec_simps]:
  "readVarInt (varint v @ rest) = (v, length (varint v))"
proof -
  consider "v < 0xfd" | "\<not> v < 0xfd" "v \<le> 0xffff" | "\<not> v < 0xfd" "\<not> v \<le> 0xffff" "v \<le> 0xffffffff"
    | "\<not> v < 0xfd" "\<not> v \<le> 0xffff" "\<not> v \<le> 0xffffffff" by blast
  then show ?thesis
  proof cases
    case 1
    then show ?thesis using small_varint [OF 1] by (simp add: AppendVarInt_def del: unsigned_ucast_eq)
  next
    case 2
    then have "unat v < 256 ^ 2" using word_le_bound [of v "0xffff"] by simp
    then show ?thesis using 2 by (simp add: AppendVarInt_def get_put_le)
  next
    case 3
    then have "unat v < 256 ^ 4" using word_le_bound [of v "0xffffffff"] by simp
    then show ?thesis using 3 by (simp add: AppendVarInt_def get_put_le)
  next
    case 4
    then show ?thesis using unat_u64_less [of v] by (simp add: AppendVarInt_def get_put_le)
  qed
qed

lemma length_varint: "length (varint v) \<in> {1, 3, 5, 9}"
  by (simp add: AppendVarInt_def)

lemma varint_pos [simp]: "0 < length (varint v)" "varint v \<noteq> []"
  by (auto simp: AppendVarInt_def)

lemma readVarInt_consumed: "snd (readVarInt b) \<le> length b"
  by (cases b) auto

section \<open>The two conversions\<close>

definition isZero32 :: "bytes \<Rightarrow> bool" where
  "isZero32 b = list_all (\<lambda>x. x = 0) b"

text \<open>\<open>binary.BigEndian.Uint64(obj[lo : lo+8])\<close>.\<close>

definition rd64 :: "bytes \<Rightarrow> int \<Rightarrow> (tnwire_error, u64) res" where
  "rd64 obj lo = guard_opt Panic (map_option get_be64 (slice obj lo (lo + 8)))"

text \<open>The loop over \<open>roots\<close>, \<open>n\<close> iterations from index \<open>i\<close>.\<close>

fun scan_roots :: "nat \<Rightarrow> nat \<Rightarrow> bytes \<Rightarrow> (tnwire_error, unit) res" where
  "scan_roots 0 i roots = Inr ()"
| "scan_roots (Suc n) i roots =
     (case slice roots (int i * 32) ((int i + 1) * 32) of
        None \<Rightarrow> Inl Panic
      | Some r \<Rightarrow> if isZero32 r then Inl (ZeroRoot i) else scan_roots n (Suc i) roots)"

definition ToTeranode :: "objfmt \<Rightarrow> bytes \<Rightarrow> (tnwire_error, bytes) res" where
  "ToTeranode F obj =
     res_bind (guard_opt FrameSize (BlockSize F obj)) (\<lambda>total.
     if total \<noteq> length obj then Inl (FrameMismatch (length obj) total)
     else if length obj < BlockPrefixSize F then Inl ShortPrefix
     else
     res_bind (rd64 obj 80) (\<lambda>txCount.
     res_bind (rd64 obj 88) (\<lambda>sizeInBytes.
     res_bind (rd64 obj 96) (\<lambda>subtreeCount.
     let off = int (BlockPrefixSize F);
         rootsLen = wrap_int (int_of_u64 subtreeCount * 32)
     in if wrap_int (off + rootsLen) > int (length obj) then Inl RootsOverrun
     else
     res_bind (guard_opt Panic (slice obj off (wrap_int (off + rootsLen)))) (\<lambda>roots.
     let off = wrap_int (off + rootsLen) in
     res_bind (scan_roots (nat (int_of_u64 subtreeCount)) 0 roots) (\<lambda>_.
     res_bind (guard_opt Panic (slice obj off (int (length obj)))) (\<lambda>tail.
     res_bind (guard_opt CoinbaseUnsized (TxSize F tail)) (\<lambda>cbLen.
     res_bind (guard_opt Panic (slice obj off (off + int cbLen))) (\<lambda>coinbase.
     let off = off + int cbLen in
     if off + 16 > int (length obj) then Inl TruncatedBeforeHeight
     else
     res_bind (rd64 obj off) (\<lambda>height.
     res_bind (rd64 obj (off + 8)) (\<lambda>bumpLen.
     let off = off + 16 in
     if word_of_int (int (length obj) - off) < bumpLen then Inl TruncatedBUMP
     else
     res_bind (guard_opt Panic (slice obj off (wrap_int (off + int_of_u64 bumpLen)))) (\<lambda>bump.
     res_bind (guard_opt Panic (slice obj 0 80)) (\<lambda>hdr.
     Inr (let out = hdr;
              out = AppendVarInt out txCount;
              out = AppendVarInt out sizeInBytes;
              out = AppendVarInt out subtreeCount;
              out = out @ roots;
              out = out @ coinbase;
              out = AppendVarInt out height;
              out = AppendVarInt out (u64_of_len bump)
          in out @ bump))))))))))))))"

text \<open>
  \<open>readVarInt(b[off:])\<close> with the \<open>n <= 0\<close> guard: the value and the offset
  after it.
\<close>

definition rd_var :: "tnwire_error \<Rightarrow> bytes \<Rightarrow> int \<Rightarrow> (tnwire_error, u64 \<times> int) res" where
  "rd_var e b off =
     res_bind (guard_opt Panic (slice b off (int (length b)))) (\<lambda>s.
     case readVarInt s of (v, n) \<Rightarrow> if n = 0 then Inl e else Inr (v, off + int n))"

text \<open>The largest allocation the run time grants; \<open>make\<close> panics beyond it.\<close>

definition maxAlloc :: int where
  "maxAlloc = 2 ^ 48"

text \<open>The loop copying \<open>n\<close> roots from \<open>off\<close>.\<close>

fun copy_roots :: "nat \<Rightarrow> int \<Rightarrow> bytes \<Rightarrow> (tnwire_error, hash list) res" where
  "copy_roots 0 off b = Inr []"
| "copy_roots (Suc n) off b =
     res_bind (guard_opt Panic (slice b off (off + 32))) (\<lambda>r.
     res_bind (copy_roots n (off + 32) b) (\<lambda>rs. Inr (r # rs)))"

definition FromTeranode :: "objfmt \<Rightarrow> bytes \<Rightarrow> (tnwire_error, Block) res" where
  "FromTeranode F b =
     (if length b < 92 then Inl (BlockTooShort (length b))
      else
      res_bind (guard_opt Panic (slice b 0 80)) (\<lambda>hdr.
      res_bind (rd_var BadTxCount b 80) (\<lambda>(txCount, off).
      res_bind (rd_var BadSizeField b off) (\<lambda>(sizeInBytes, off).
      res_bind (rd_var BadSubtreeCount b off) (\<lambda>(subtreeCount, off).
      if wrap_int (off + wrap_int (int_of_u64 subtreeCount * 32)) > int (length b) then Inl RootsOverrun
      else if uint subtreeCount * 32 > maxAlloc then Inl Panic
      else
      res_bind (copy_roots (unat subtreeCount) off b) (\<lambda>roots.
      let off = off + 32 * int (length roots) in
      res_bind (guard_opt Panic (slice b off (int (length b)))) (\<lambda>tail.
      res_bind (guard_opt CoinbaseUnsized (TxSize F tail)) (\<lambda>cbLen.
      res_bind (guard_opt Panic (slice b off (off + int cbLen))) (\<lambda>coinbase.
      let off = off + int cbLen in
      res_bind (rd_var BadHeight b off) (\<lambda>(height, off).
      let out = \<lparr> Header = hdr, TxCount = txCount, SizeInBytes = sizeInBytes, SubtreeRoots = roots,
                  Coinbase = coinbase, Height = height, CoinbaseBUMP = [] \<rparr>
      in if off \<ge> int (length b) then Inr out
      else
      res_bind (rd_var BadBUMPLength b off) (\<lambda>(bumpLen, off).
      if wrap_int (off + int_of_u64 bumpLen) > int (length b) then Inl TruncatedBUMP
      else
      res_bind (guard_opt Panic (slice b off (wrap_int (off + int_of_u64 bumpLen)))) (\<lambda>bump.
      Inr (out \<lparr> CoinbaseBUMP := bump \<rparr>)))))))))))))"

definition CoinbaseOf :: "objfmt \<Rightarrow> bytes \<Rightarrow> (tnwire_error, bytes) res" where
  "CoinbaseOf F obj =
     (if length obj < BlockPrefixSize F then Inl ShortPrefix
      else
      res_bind (rd64 obj 96) (\<lambda>subtreeCount.
      let off = wrap_int (int (BlockPrefixSize F) + wrap_int (int_of_u64 subtreeCount * 32)) in
      if off > int (length obj) then Inl RootsOverrun
      else
      res_bind (guard_opt Panic (slice obj off (int (length obj)))) (\<lambda>tail.
      res_bind (guard_opt CoinbaseUnsized (TxSize F tail)) (\<lambda>cbLen.
      guard_opt Panic (slice obj off (off + int cbLen))))))"

text \<open>
  \<open>copy(roots[i][:], obj[off:])\<close> copies at most 32 bytes into a zeroed array:
  a source shorter than that leaves zeroes behind.
\<close>

fun copy_into :: "nat \<Rightarrow> int \<Rightarrow> bytes \<Rightarrow> (tnwire_error, hash list) res" where
  "copy_into 0 off obj = Inr []"
| "copy_into (Suc n) off obj =
     res_bind (guard_opt Panic (slice obj off (int (length obj)))) (\<lambda>s.
     res_bind (copy_into n (off + 32) obj) (\<lambda>rs.
     Inr ((take 32 s @ replicate (32 - length s) 0) # rs)))"

definition SubtreeRootsOf :: "objfmt \<Rightarrow> bytes \<Rightarrow> (tnwire_error, hash list) res" where
  "SubtreeRootsOf F obj =
     (if length obj < BlockPrefixSize F then Inl ShortPrefix
      else
      res_bind (rd64 obj 96) (\<lambda>count.
      let end' = wrap_int (int (BlockPrefixSize F) + wrap_int (int_of_u64 count * 32)) in
      if count > of_nat (length obj div 32) \<or> end' > int (length obj) then Inl RootsOverrun
      else if uint count * 32 > maxAlloc then Inl Panic
      else copy_into (unat count) (int (BlockPrefixSize F)) obj))"

section \<open>Reading laid-out fields\<close>

lemma rd64_at [codec_simps]:
  "lo = int (length xs) \<Longrightarrow> rd64 (xs @ put_be64 v @ zs) lo = Inr v"
  using slice_middle [of lo xs "lo + 8" "put_be64 v" zs]
  by (simp add: rd64_def get_put_be64)

lemma rd64_ok: "0 \<le> lo \<Longrightarrow> lo + 8 \<le> int (length obj) \<Longrightarrow>
   rd64 obj lo = Inr (get_be64 (take 8 (drop (nat lo) obj)))"
  by (simp add: rd64_def slice_def)

lemma slice_tail: "lo = int (length xs) \<Longrightarrow> slice (xs @ ys) lo (int (length (xs @ ys))) = Some ys"
  by (simp add: slice_def)

lemma rd_var_at [codec_simps]:
  "off = int (length xs) \<Longrightarrow>
   rd_var e (xs @ varint v @ zs) off = Inr (v, off + int (length (varint v)))"
  using slice_tail [of off xs "varint v @ zs"]
  by (simp add: rd_var_def readVarInt_append del: length_append of_nat_add)

lemma copy_roots_at [codec_simps]:
  "\<forall>r \<in> set roots. wf_hash r \<Longrightarrow> off = int (length xs) \<Longrightarrow>
   copy_roots (length roots) off (xs @ concat roots @ zs) = Inr roots"
proof (induction roots arbitrary: xs off)
  case (Cons r roots)
  have r: "length r = 32" using Cons.prems(1) by simp
  have "slice (xs @ r @ concat roots @ zs) off (off + 32) = Some r"
    using r Cons.prems(2) by (simp add: slice_middle)
  moreover have "copy_roots (length roots) (off + 32) ((xs @ r) @ concat roots @ zs) = Inr roots"
    using Cons.IH [of "off + 32" "xs @ r"] Cons.prems r by simp
  ultimately show ?case by simp
qed simp

lemma copy_into_at [codec_simps]:
  "\<forall>r \<in> set roots. wf_hash r \<Longrightarrow> off = int (length xs) \<Longrightarrow>
   copy_into (length roots) off (xs @ concat roots @ zs) = Inr roots"
proof (induction roots arbitrary: xs off)
  case (Cons r roots)
  have r: "length r = 32" using Cons.prems(1) by simp
  have "slice (xs @ r @ concat roots @ zs) off (int (length (xs @ r @ concat roots @ zs)))
        = Some (r @ concat roots @ zs)"
    using Cons.prems(2) by (rule slice_tail)
  moreover have "copy_into (length roots) (off + 32) ((xs @ r) @ concat roots @ zs) = Inr roots"
    using Cons.IH [of "off + 32" "xs @ r"] Cons.prems r by simp
  ultimately show ?case using r by simp
qed simp

lemma isZero32_iff: "isZero32 r \<longleftrightarrow> r = replicate (length r) 0"
  by (simp add: isZero32_def list_all_iff replicate_length_same eq_commute)
     (metis in_set_replicate replicate_length_same)

lemma scan_roots_ok [codec_simps]:
  "\<forall>r \<in> set roots. wf_hash r \<Longrightarrow> replicate 32 0 \<notin> set roots \<Longrightarrow> length pre = 32 * i \<Longrightarrow>
   scan_roots (length roots) i (pre @ concat roots) = Inr ()"
proof (induction roots arbitrary: pre i)
  case (Cons r roots)
  have r: "length r = 32" "\<not> isZero32 r" using Cons.prems(1,2) by (auto simp: isZero32_iff)
  have "slice (pre @ r @ concat roots) (int i * 32) ((int i + 1) * 32) = Some r"
    using Cons.prems(3) r(1) by (simp add: slice_middle)
  moreover have "scan_roots (length roots) (Suc i) ((pre @ r) @ concat roots) = Inr ()"
    using Cons.prems r(1) by (intro Cons.IH) auto
  ultimately show ?case using r(2) by simp
qed simp

section \<open>Conversion of whole blocks\<close>

definition tn_layout :: "Block \<Rightarrow> bytes" where
  "tn_layout b =
     Header b @ varint (TxCount b) @ varint (SizeInBytes b) @ varint (u64_of_len (SubtreeRoots b))
     @ concat (SubtreeRoots b) @ Coinbase b @ varint (Height b)
     @ varint (u64_of_len (CoinbaseBUMP b)) @ CoinbaseBUMP b"

text \<open>What the bytes of a frame look like at the offsets the code reads.\<close>

lemma block_layout_reads:
  assumes "length (Header b) = 80" and "wf_block b"
  shows "rd64 (block_layout b) 80 = Inr (TxCount b)"
    and "rd64 (block_layout b) 88 = Inr (SizeInBytes b)"
    and "rd64 (block_layout b) 96 = Inr (u64_of_len (SubtreeRoots b))"
    and "slice (block_layout b) 0 80 = Some (Header b)"
    and "slice (block_layout b) 104 (104 + 32 * int (length (SubtreeRoots b)))
         = Some (concat (SubtreeRoots b))"
proof -
  note L = block_layout_def
  have rl: "length (concat (SubtreeRoots b)) = 32 * length (SubtreeRoots b)"
    using assms(2) by (simp add: wf_block_def length_concat32)
  show "rd64 (block_layout b) 80 = Inr (TxCount b)"
    unfolding L using assms by (intro rd64_at) simp
  show "rd64 (block_layout b) 88 = Inr (SizeInBytes b)"
    using rd64_at [of 88 "Header b @ put_be64 (TxCount b)" "SizeInBytes b"] assms by (simp add: L)
  show "rd64 (block_layout b) 96 = Inr (u64_of_len (SubtreeRoots b))"
    using rd64_at [of 96 "Header b @ put_be64 (TxCount b) @ put_be64 (SizeInBytes b)"] assms
    by (simp add: L)
  show "slice (block_layout b) 0 80 = Some (Header b)"
    unfolding L using assms by (intro slice_prefix) simp
  show "slice (block_layout b) 104 (104 + 32 * int (length (SubtreeRoots b)))
         = Some (concat (SubtreeRoots b))"
    using slice_middle [of 104 "Header b @ put_be64 (TxCount b) @ put_be64 (SizeInBytes b)
        @ put_be64 (u64_of_len (SubtreeRoots b))" _ "concat (SubtreeRoots b)"] assms rl
    by (simp add: L)
qed

lemma block_layout_tail:
  assumes "length (Header b) = 80" and "wf_block b"
    and off: "off = 104 + 32 * int (length (SubtreeRoots b))"
    and o2: "off2 = off + int (length (Coinbase b))"
  shows "slice (block_layout b) off (int (length (block_layout b)))
         = Some (Coinbase b @ put_be64 (Height b) @ put_be64 (u64_of_len (CoinbaseBUMP b)) @ CoinbaseBUMP b)"
    and "slice (block_layout b) off off2 = Some (Coinbase b)"
    and "rd64 (block_layout b) off2 = Inr (Height b)"
    and "rd64 (block_layout b) (off2 + 8) = Inr (u64_of_len (CoinbaseBUMP b))"
    and "slice (block_layout b) (off2 + 16) (off2 + 16 + int (length (CoinbaseBUMP b)))
         = Some (CoinbaseBUMP b)"
proof -
  define pre where "pre = Header b @ put_be64 (TxCount b) @ put_be64 (SizeInBytes b)
      @ put_be64 (u64_of_len (SubtreeRoots b)) @ concat (SubtreeRoots b)"
  have pre: "int (length pre) = off"
    using assms(1-3) by (simp add: pre_def wf_block_def length_concat32)
  have L: "block_layout b = pre @ Coinbase b @ put_be64 (Height b)
     @ put_be64 (u64_of_len (CoinbaseBUMP b)) @ CoinbaseBUMP b"
    by (simp add: block_layout_def pre_def)
  show "slice (block_layout b) off (int (length (block_layout b)))
         = Some (Coinbase b @ put_be64 (Height b) @ put_be64 (u64_of_len (CoinbaseBUMP b)) @ CoinbaseBUMP b)"
    unfolding L using pre by (intro slice_tail) simp
  show "slice (block_layout b) off off2 = Some (Coinbase b)"
    unfolding L using pre o2 by (intro slice_middle) simp_all
  show "rd64 (block_layout b) off2 = Inr (Height b)"
    using rd64_at [of off2 "pre @ Coinbase b"] pre o2 by (simp add: L)
  show "rd64 (block_layout b) (off2 + 8) = Inr (u64_of_len (CoinbaseBUMP b))"
    using rd64_at [of "off2 + 8" "pre @ Coinbase b @ put_be64 (Height b)"] pre o2 by (simp add: L)
  show "slice (block_layout b) (off2 + 16) (off2 + 16 + int (length (CoinbaseBUMP b)))
         = Some (CoinbaseBUMP b)"
    using slice_suffix [of "off2 + 16" "pre @ Coinbase b @ put_be64 (Height b)
        @ put_be64 (u64_of_len (CoinbaseBUMP b))" _ "CoinbaseBUMP b"] pre o2
    by (simp add: L)
qed

lemma not_word_less_len:
  "length xs < 2 ^ 63 \<Longrightarrow> n = int (length xs) \<Longrightarrow> \<not> word_of_int n < u64_of_len xs"
  by (simp add: u64_of_len_def)

lemma ToTeranode_layout:
  assumes F: "tx_delimited F" "frame_headers F"
    and enc: "Block_Encode F b = Inr obj" and wf: "wf_block b" and small: "length obj < 2 ^ 63"
  shows "ToTeranode F obj = Inr (tn_layout b)"
proof -
  note E = enc [unfolded Block_Encode_Inr_iff]
  have obj: "obj = block_layout b" and H: "length (Header b) = 80"
    and size: "BlockSize F obj = Some (length obj)" using E by blast+
  define m where "m = int (length (SubtreeRoots b))"
  define o1 where "o1 = 104 + 32 * m"
  define o2 where "o2 = o1 + int (length (Coinbase b))"
  have len: "int (length obj) = o2 + 16 + int (length (CoinbaseBUMP b))"
    using length_block_layout [OF wf H] by (simp add: obj m_def o1_def o2_def)
  have sm: "int (length obj) < 2 ^ 63" using small by simp
  have m: "int_of_u64 (u64_of_len (SubtreeRoots b)) = m" "0 \<le> m" "104 \<le> o1" "o1 \<le> o2"
    using sm len by (simp_all add: m_def o1_def o2_def int_of_u64_of_len)
  have bl: "int_of_u64 (u64_of_len (CoinbaseBUMP b)) = int (length (CoinbaseBUMP b))"
    using sm len m by (intro int_of_u64_of_len) simp
  have w: "wrap_int (104 + wrap_int (m * 32)) = o1"
    using sm len m by (simp add: wrap_int_id o1_def o2_def)
  have wb: "wrap_int (o2 + 16 + int (length (CoinbaseBUMP b))) = o2 + 16 + int (length (CoinbaseBUMP b))"
    using sm len m by (intro wrap_int_id) simp_all
  have guards: "\<not> length obj < 104" "\<not> int (length obj) < o1" "\<not> int (length obj) < o2 + 16"
    using len m by simp_all
  have roots: "scan_roots (nat m) 0 (concat (SubtreeRoots b)) = Inr ()"
    using scan_roots_ok [of "SubtreeRoots b" "[]" 0] wf E by (simp add: m_def wf_block_def)
  have cb: "TxSize F (Coinbase b @ rest) = Some (length (Coinbase b))" for rest
    using E by (intro tx_delimited_exact [OF F(1)]) simp
  have nl: "\<not> word_of_int (int (length obj) - (o2 + 16)) < u64_of_len (CoinbaseBUMP b)"
    using sm len m by (intro not_word_less_len) simp_all
  note R = block_layout_reads [OF H wf, folded obj m_def, folded o1_def]
    block_layout_tail [OF H wf o1_def [unfolded m_def] o2_def, folded obj]
  have hd: "BlockPrefixSize F = 104" using F(2) by (simp add: frame_headers_def)
  have "ToTeranode F obj = Inr (AppendVarInt (AppendVarInt (AppendVarInt (AppendVarInt (AppendVarInt
     (Header b) (TxCount b)) (SizeInBytes b)) (u64_of_len (SubtreeRoots b)) @ concat (SubtreeRoots b)
     @ Coinbase b) (Height b)) (u64_of_len (CoinbaseBUMP b)) @ CoinbaseBUMP b)"
    by (simp only: ToTeranode_def Let_def size hd R m w wb guards roots cb bl nl guard_opt_simps
        res_bind_simps o2_def [symmetric] if_False of_nat_numeral simp_thms append_assoc)
  then show ?thesis
    by (simp add: tn_layout_def AppendVarInt_append [of "_ @ _"] AppendVarInt_append [of "Header b"])
qed

text \<open>
  The same on the Teranode side: \<open>o1\<close> to \<open>o7\<close> are the offsets after the
  transaction count, the size, the subtree count, the roots, the coinbase, the
  height and the merkle path's length.
\<close>

lemma length_tn_layout: "wf_block b \<Longrightarrow> length (tn_layout b) =
    length (Header b) + length (varint (TxCount b)) + length (varint (SizeInBytes b))
    + length (varint (u64_of_len (SubtreeRoots b))) + 32 * length (SubtreeRoots b)
    + length (Coinbase b) + length (varint (Height b))
    + length (varint (u64_of_len (CoinbaseBUMP b))) + length (CoinbaseBUMP b)"
  by (simp add: tn_layout_def wf_block_def length_concat32)

lemma tn_layout_reads:
  assumes H: "length (Header b) = 80" and wf: "wf_block b"
    and O: "o1 = 80 + int (length (varint (TxCount b)))"
      "o2 = o1 + int (length (varint (SizeInBytes b)))"
      "o3 = o2 + int (length (varint (u64_of_len (SubtreeRoots b))))"
      "o4 = o3 + 32 * int (length (SubtreeRoots b))"
      "o5 = o4 + int (length (Coinbase b))"
      "o6 = o5 + int (length (varint (Height b)))"
      "o7 = o6 + int (length (varint (u64_of_len (CoinbaseBUMP b))))"
  shows "slice (tn_layout b) 0 80 = Some (Header b)"
    and "rd_var e (tn_layout b) 80 = Inr (TxCount b, o1)"
    and "rd_var e (tn_layout b) o1 = Inr (SizeInBytes b, o2)"
    and "rd_var e (tn_layout b) o2 = Inr (u64_of_len (SubtreeRoots b), o3)"
    and "copy_roots (length (SubtreeRoots b)) o3 (tn_layout b) = Inr (SubtreeRoots b)"
    and "slice (tn_layout b) o4 (int (length (tn_layout b)))
         = Some (Coinbase b @ varint (Height b) @ varint (u64_of_len (CoinbaseBUMP b)) @ CoinbaseBUMP b)"
    and "slice (tn_layout b) o4 o5 = Some (Coinbase b)"
    and "rd_var e (tn_layout b) o5 = Inr (Height b, o6)"
    and "rd_var e (tn_layout b) o6 = Inr (u64_of_len (CoinbaseBUMP b), o7)"
    and "slice (tn_layout b) o7 (o7 + int (length (CoinbaseBUMP b))) = Some (CoinbaseBUMP b)"
    and "int (length (tn_layout b)) = o7 + int (length (CoinbaseBUMP b))"
proof -
  define h3 where "h3 = Header b @ varint (TxCount b) @ varint (SizeInBytes b)
      @ varint (u64_of_len (SubtreeRoots b))"
  define h4 where "h4 = h3 @ concat (SubtreeRoots b)"
  let ?v4 = "varint (Height b)" and ?v5 = "varint (u64_of_len (CoinbaseBUMP b))"
  note L = tn_layout_def
  have h3: "int (length h3) = o3" using H O by (simp add: h3_def)
  have h4: "int (length h4) = o4" using h3 O wf by (simp add: h4_def wf_block_def length_concat32)
  have L4: "tn_layout b = h4 @ Coinbase b @ ?v4 @ ?v5 @ CoinbaseBUMP b"
    by (simp add: L h4_def h3_def)
  show "slice (tn_layout b) 0 80 = Some (Header b)" using H by (simp add: L slice_prefix)
  show "rd_var e (tn_layout b) 80 = Inr (TxCount b, o1)"
    using rd_var_at [of 80 "Header b" e] H O by (simp add: L)
  show "rd_var e (tn_layout b) o1 = Inr (SizeInBytes b, o2)"
    using rd_var_at [of o1 "Header b @ varint (TxCount b)" e] H O by (simp add: L)
  show "rd_var e (tn_layout b) o2 = Inr (u64_of_len (SubtreeRoots b), o3)"
    using rd_var_at [of o2 "Header b @ varint (TxCount b) @ varint (SizeInBytes b)" e] H O
    by (simp add: L)
  show "copy_roots (length (SubtreeRoots b)) o3 (tn_layout b) = Inr (SubtreeRoots b)"
    using copy_roots_at [of "SubtreeRoots b" o3 h3] h3 wf by (simp add: L4 h4_def wf_block_def)
  show "slice (tn_layout b) o4 (int (length (tn_layout b))) = Some (Coinbase b @ ?v4 @ ?v5 @ CoinbaseBUMP b)"
    unfolding L4 using h4 by (intro slice_tail) simp
  show "slice (tn_layout b) o4 o5 = Some (Coinbase b)"
    unfolding L4 using h4 O by (intro slice_middle) simp_all
  show "rd_var e (tn_layout b) o5 = Inr (Height b, o6)"
    using rd_var_at [of o5 "h4 @ Coinbase b" e] h4 O by (simp add: L4)
  show "rd_var e (tn_layout b) o6 = Inr (u64_of_len (CoinbaseBUMP b), o7)"
    using rd_var_at [of o6 "h4 @ Coinbase b @ ?v4" e] h4 O by (simp add: L4)
  show "slice (tn_layout b) o7 (o7 + int (length (CoinbaseBUMP b))) = Some (CoinbaseBUMP b)"
    using slice_suffix [of o7 "h4 @ Coinbase b @ ?v4 @ ?v5" _ "CoinbaseBUMP b"] h4 O by (simp add: L4)
  show "int (length (tn_layout b)) = o7 + int (length (CoinbaseBUMP b))"
    using h4 O by (simp add: L4)
qed

lemma FromTeranode_layout:
  assumes F: "tx_delimited F" and H: "length (Header b) = 80" and wf: "wf_block b"
    and cb: "TxSize F (Coinbase b) = Some (length (Coinbase b))"
    and roots: "32 * length (SubtreeRoots b) \<le> 2 ^ 48" and small: "length (tn_layout b) < 2 ^ 63"
  shows "FromTeranode F (tn_layout b) = Inr b"
proof -
  define m where "m = length (SubtreeRoots b)"
  define o1 where "o1 = 80 + int (length (varint (TxCount b)))"
  define o2 where "o2 = o1 + int (length (varint (SizeInBytes b)))"
  define o3 where "o3 = o2 + int (length (varint (u64_of_len (SubtreeRoots b))))"
  define o4 where "o4 = o3 + 32 * int (length (SubtreeRoots b))"
  define o5 where "o5 = o4 + int (length (Coinbase b))"
  define o6 where "o6 = o5 + int (length (varint (Height b)))"
  define o7 where "o7 = o6 + int (length (varint (u64_of_len (CoinbaseBUMP b))))"
  note R = tn_layout_reads [OF H wf o1_def o2_def o3_def o4_def o5_def o6_def o7_def]
  have ten: "10 \<le> length (Coinbase b)" using tx_delimitedD [OF F cb] by simp
  have vpos: "0 < int (length (varint v))" for v by simp
  have o: "83 \<le> o3" "o3 + 32 * int m + 10 \<le> o5" "o5 < o6" "o6 < o7"
    using ten vpos [of "TxCount b"] vpos [of "SizeInBytes b"] vpos [of "u64_of_len (SubtreeRoots b)"]
      vpos [of "Height b"] vpos [of "u64_of_len (CoinbaseBUMP b)"]
    unfolding o1_def o2_def o3_def o4_def o5_def o6_def o7_def m_def by linarith+
  have sm: "int (length (tn_layout b)) < 2 ^ 63" using small by simp
  have big: "\<not> length (tn_layout b) < 92" using R(11) o by linarith
  have mm: "int m * 32 \<le> 2 ^ 48" "m < 2 ^ 63" using roots by (simp_all add: m_def)
  have c: "int_of_u64 (u64_of_len (SubtreeRoots b)) = int m" "unat (u64_of_len (SubtreeRoots b)) = m"
    "uint (u64_of_len (SubtreeRoots b)) = int m"
    using mm(2) int_of_u64_of_len [of "SubtreeRoots b"] uint_u64_of_len [of "SubtreeRoots b"]
    by (simp_all add: m_def) (simp add: u64_of_len_def unat_of_nat)
  have w: "wrap_int (o3 + wrap_int (int m * 32)) = o4"
    using o sm R(11) mm by (simp add: wrap_int_id o4_def m_def)
  have bl: "int_of_u64 (u64_of_len (CoinbaseBUMP b)) = int (length (CoinbaseBUMP b))"
    using o sm R(11) by (intro int_of_u64_of_len) simp
  have wb: "wrap_int (o7 + int (length (CoinbaseBUMP b))) = o7 + int (length (CoinbaseBUMP b))"
    using o sm R(11) by (intro wrap_int_id) simp_all
  have guards: "\<not> int (length (tn_layout b)) < o4" "\<not> maxAlloc < int m * 32"
    "\<not> int (length (tn_layout b)) \<le> o6" "\<not> int (length (tn_layout b)) < o7 + int (length (CoinbaseBUMP b))"
    using o R(11) mm by (simp_all add: maxAlloc_def o4_def m_def)
  note cb' = tx_delimited_exact [OF F cb]
  show ?thesis
    by (simp add: FromTeranode_def Let_def big R(1-10) [folded m_def] c w guards
        o4_def [symmetric] cb' o5_def [symmetric] bl wb)
qed

section \<open>No frame makes the converter panic\<close>

lemma scan_roots_no_panic:
  "32 * (i + n) \<le> length roots \<Longrightarrow> scan_roots n i roots \<noteq> Inl Panic"
proof (induction n arbitrary: i)
  case (Suc n)
  have "(int i + 1) * 32 \<le> int (length roots)" using Suc.prems by simp
  then obtain r where "slice roots (int i * 32) ((int i + 1) * 32) = Some r"
    by (simp add: slice_def)
  then show ?case using Suc.IH [of "Suc i"] Suc.prems by simp
qed simp

lemma not_less_word_of_int:
  "0 \<le> n \<Longrightarrow> n < 2 ^ 63 \<Longrightarrow> \<not> word_of_int n < (v :: u64) \<Longrightarrow> uint v \<le> n"
  by (simp add: word_less_def uint_word_of_int not_less)

lemma slice_Some: "0 \<le> lo \<Longrightarrow> lo \<le> hi \<Longrightarrow> hi \<le> int (length b) \<Longrightarrow>
   slice b lo hi = Some (take (nat (hi - lo)) (drop (nat lo) b))"
  by (simp add: slice_def)

lemma ToTeranode_total:
  assumes F: "tx_delimited F" "frame_headers F" "block_sized F" and small: "length obj < 2 ^ 63"
  shows "ToTeranode F obj \<noteq> Inl Panic"
proof (cases "BlockSize F obj = Some (length obj)")
  case False
  then show ?thesis
    by (cases "BlockSize F obj") (simp_all add: ToTeranode_def)
next
  case True
  define m where "m = get_be64 (take 8 (drop 96 obj))"
  define k where "k = unat m"
  define o1 where "o1 = 104 + 32 * int k"
  have hd: "BlockPrefixSize F = 104" using F(2) by (simp add: frame_headers_def)
  have sz: "120 + 32 * k \<le> length obj"
    using F(3) True by (auto simp: block_sized_def m_def k_def)
  have len: "120 \<le> length obj" "o1 + 16 \<le> int (length obj)" "104 \<le> o1" "int (length obj) < 2 ^ 63"
    using sz small by (simp_all add: o1_def)
  have "uint m = int k" by (simp add: k_def)
  then have m: "int_of_u64 m = int k" using len
    by (simp add: int_of_u64_def o1_def wrap_int_id)
  have w: "wrap_int (104 + wrap_int (int k * 32)) = o1"
    using len by (simp add: wrap_int_id o1_def)
  have r: "rd64 obj 96 = Inr m" using len by (simp add: rd64_ok m_def)
  define roots where "roots = take (nat (o1 - 104)) (drop 104 obj)"
  have roots: "slice obj 104 o1 = Some roots" "length roots = 32 * k"
    using len sz by (simp_all add: slice_def roots_def o1_def)
  have scan: "scan_roots (k) 0 roots \<noteq> Inl Panic"
    using roots(2) by (intro scan_roots_no_panic) simp
  define tl where "tl = drop (nat o1) obj"
  have tl: "slice obj o1 (int (length obj)) = Some tl" "int (length tl) = int (length obj) - o1"
    using len by (simp_all add: slice_def tl_def)
  show ?thesis
  proof (cases "scan_roots (k) 0 roots = Inr () \<and> TxSize F tl \<noteq> None")
    case False
    then show ?thesis using scan len
      by (cases "scan_roots (k) 0 roots"; cases "TxSize F tl")
        (simp_all add: ToTeranode_def Let_def True hd rd64_ok [of 80] rd64_ok [of 88] r m w roots tl)
  next
    case ok: True
    then obtain c where c: "TxSize F tl = Some c" by blast
    define o2 where "o2 = o1 + int c"
    have cl: "o2 \<le> int (length obj)" "o1 \<le> o2"
      using tx_delimitedD [OF F(1) c, of "[]"] tl(2) by (simp_all add: o2_def)
    have bump: "\<exists>s. slice obj (o2 + 16) (wrap_int (o2 + 16 + int_of_u64 v)) = Some s"
      if "o2 + 16 \<le> int (length obj)" "\<not> word_of_int (int (length obj) - (o2 + 16)) < v" for v
    proof -
      have v: "uint v \<le> int (length obj) - (o2 + 16)"
        using that len cl by (intro not_less_word_of_int) simp_all
      have "0 \<le> uint v" by simp
      with v have "int_of_u64 v = uint v" "wrap_int (o2 + 16 + uint v) = o2 + 16 + uint v"
        unfolding int_of_u64_def using len cl by (intro wrap_int_id; linarith)+
      then show ?thesis using v len cl uint_ge_0 [of v] by (simp add: slice_def)
    qed
    show ?thesis
      using bump [of "get_be64 (take 8 (drop (nat (o2 + 8)) obj))"] len cl ok c
      by (auto simp: ToTeranode_def Let_def True hd rd64_ok r m w roots tl
          o2_def [symmetric] slice_Some res_bind_def split: sum.splits)
  qed
qed

section \<open>Properties\<close>

definition sample_block :: Block where
  "sample_block =
     \<lparr> Header = replicate 80 1, TxCount = 3, SizeInBytes = 300, SubtreeRoots = [replicate 32 7],
       Coinbase = replicate 10 9, Height = 70000, CoinbaseBUMP = [5] \<rparr>"

definition sample_frame :: bytes where
  "sample_frame = block_layout sample_block"

lemma sample_block_encodes:
  "Block_Encode sample_objfmt sample_block = Inr sample_frame" "wf_block sample_block"
  "length sample_frame = 163"
proof -
  show wf: "wf_block sample_block" by (simp add: wf_block_def sample_block_def)
  show len: "length sample_frame = 163"
    using length_block_layout [OF wf] by (simp add: sample_block_def sample_frame_def)
  have "sample_block_size sample_frame = Some 163"
    unfolding sample_block_size_def len
    by (simp add: sample_frame_def block_layout_def sample_block_def get_put_be64 u64_of_len_def)
  then show "Block_Encode sample_objfmt sample_block = Inr sample_frame"
    using len unfolding Block_Encode_Inr_iff sample_frame_def
    by (simp add: sample_block_def sample_objfmt_def sample_tx_size_def)
qed

lemma block_converts:
  assumes "tx_delimited F" and "frame_headers F" and "wf_block b"
    and "Block_Encode F b = Inr obj" and "length obj \<le> 2 ^ 48"
  shows "\<exists>tn. ToTeranode F obj = Inr tn \<and> FromTeranode F tn = Inr b"
proof -
  note E = assms(4) [unfolded Block_Encode_Inr_iff]
  have obj: "obj = block_layout b" and H: "length (Header b) = 80"
    and cb: "TxSize F (Coinbase b) = Some (length (Coinbase b))" using E by blast+
  have len: "length obj = 120 + 32 * length (SubtreeRoots b) + length (Coinbase b) + length (CoinbaseBUMP b)"
    using length_block_layout [OF assms(3) H] by (simp add: obj)
  have nine: "length (varint v) \<le> 9" for v using length_varint [of v] by auto
  have "length (tn_layout b) \<le> length obj + 5"
    using length_tn_layout [OF assms(3)] H len nine [of "TxCount b"] nine [of "SizeInBytes b"]
      nine [of "u64_of_len (SubtreeRoots b)"] nine [of "Height b"] nine [of "u64_of_len (CoinbaseBUMP b)"]
    by linarith
  then have "FromTeranode F (tn_layout b) = Inr b"
    using assms(5) len by (intro FromTeranode_layout [OF assms(1) H assms(3) cb]) simp_all
  moreover have "ToTeranode F obj = Inr (tn_layout b)"
    using assms(5) by (intro ToTeranode_layout [OF assms(1,2,4,3)]) simp
  ultimately show ?thesis by blast
qed

text \<open>
  C14: The block conversion is lossless.  A frame built by \<open>Block.Encode\<close>
  converts to Teranode's serialization, and parsing that serialization gives
  back the block the frame was built from, field by field.
\<close>

theorem block_roundtrip:
  assumes "tx_delimited F" and "frame_headers F" and "wf_block b"
    and "Block_Encode F b = Inr obj" and "length obj \<le> 2 ^ 48"
  shows "\<exists>tn. ToTeranode F obj = Inr tn \<and> FromTeranode F tn = Inr b"
  using assms by (rule block_converts)

theorem block_roundtrip_witness:
  "\<exists>tn. ToTeranode sample_objfmt sample_frame = Inr tn \<and> FromTeranode sample_objfmt tn = Inr sample_block"
  by (rule block_roundtrip [OF sample_objfmt_ok(1,2) sample_block_encodes(2,1)])
     (simp add: sample_block_encodes)

text \<open>
  \<open>ToTeranode\<close> never panics: whatever bytes a delivery lane carries, it
  returns a serialization or an error, given that the codec reports a frame
  size only for a buffer long enough to hold the counted subtree roots.
\<close>

theorem ToTeranode_never_panics:
  assumes "tx_delimited F" and "frame_headers F" and "block_sized F" and "length obj < 2 ^ 63"
  shows "ToTeranode F obj \<noteq> Inl Panic"
  using assms by (rule ToTeranode_total)

theorem ToTeranode_never_panics_witness:
  "ToTeranode sample_objfmt (replicate 96 0 @ replicate 40 0xff) \<noteq> Inl Panic"
  by (rule ToTeranode_never_panics [OF sample_objfmt_ok(1,2,3)]) simp

text \<open>
  The two origin readers agree with the encoder: on a frame built by
  \<open>Block.Encode\<close>, \<open>CoinbaseOf\<close> returns exactly the coinbase transaction and
  \<open>SubtreeRootsOf\<close> exactly the ordered subtree roots.
\<close>

theorem origin_readers:
  assumes "tx_delimited F" and "frame_headers F" and "wf_block b"
    and "Block_Encode F b = Inr obj" and "length obj \<le> 2 ^ 48"
  shows "CoinbaseOf F obj = Inr (Coinbase b) \<and> SubtreeRootsOf F obj = Inr (SubtreeRoots b)"
proof -
  note E = assms(4) [unfolded Block_Encode_Inr_iff]
  have obj: "obj = block_layout b" and H: "length (Header b) = 80"
    and cb: "TxSize F (Coinbase b) = Some (length (Coinbase b))" using E by blast+
  define m where "m = length (SubtreeRoots b)"
  define o1 where "o1 = 104 + 32 * int m"
  have hd: "BlockPrefixSize F = 104" using assms(2) by (simp add: frame_headers_def)
  have len: "length obj = 120 + 32 * m + length (Coinbase b) + length (CoinbaseBUMP b)"
    using length_block_layout [OF assms(3) H] by (simp add: obj m_def)
  have m: "int_of_u64 (u64_of_len (SubtreeRoots b)) = int m" "uint (u64_of_len (SubtreeRoots b)) = int m"
    using len assms(5) int_of_u64_of_len [of "SubtreeRoots b"] uint_u64_of_len [of "SubtreeRoots b"]
    by (simp_all add: m_def)
  then have um: "unat (u64_of_len (SubtreeRoots b)) = m" by (simp only: unat_eq_nat_uint nat_int)
  have w: "wrap_int (104 + wrap_int (int m * 32)) = o1"
    using len assms(5) by (simp add: wrap_int_id o1_def)
  have g: "\<not> int (length obj) < o1" "\<not> length obj < 104" "\<not> maxAlloc < int m * 32"
    using len assms(5) by (simp_all add: o1_def maxAlloc_def)
  have cnt: "\<not> word_of_nat (length obj div 32) < u64_of_len (SubtreeRoots b)"
    using len assms(5) by (simp add: u64_of_len_def word_less_nat_alt unat_of_nat m_def)
  note R = block_layout_reads [OF H assms(3), folded obj m_def]
    block_layout_tail [OF H assms(3) o1_def [unfolded m_def] refl, folded obj]
  have "CoinbaseOf F obj = Inr (Coinbase b)"
    by (simp add: CoinbaseOf_def Let_def hd g R m w tx_delimited_exact [OF assms(1) cb])
  moreover have "copy_into m 104 obj = Inr (SubtreeRoots b)"
    using copy_into_at [of "SubtreeRoots b" 104 "Header b @ put_be64 (TxCount b)
      @ put_be64 (SizeInBytes b) @ put_be64 (u64_of_len (SubtreeRoots b))"] H assms(3)
    by (simp add: obj block_layout_def m_def wf_block_def)
  then have "SubtreeRootsOf F obj = Inr (SubtreeRoots b)"
    by (simp add: SubtreeRootsOf_def Let_def hd g R m um w cnt)
  ultimately show ?thesis by blast
qed

theorem origin_readers_witness:
  "CoinbaseOf sample_objfmt sample_frame = Inr (Coinbase sample_block) \<and>
   SubtreeRootsOf sample_objfmt sample_frame = Inr (SubtreeRoots sample_block)"
  by (rule origin_readers [OF sample_objfmt_ok(1,2) sample_block_encodes(2,1)])
     (simp add: sample_block_encodes)

text \<open>
  A body whose subtree count is \<open>2 ^ 59\<close>: thirty-two times it wraps to zero,
  so the overrun guard lets it through.
\<close>

definition hostile_block :: bytes where
  "hostile_block = replicate 80 0 @ varint 0 @ varint 0 @ varint (2 ^ 59) @ [0]"

lemma hostile_block_reads:
  "rd_var e hostile_block 80 = Inr (0, 81)" "rd_var e hostile_block 81 = Inr (0, 82)"
  "rd_var e hostile_block 82 = Inr (2 ^ 59, 91)" "length hostile_block = 92"
proof -
  have l: "length (varint 0) = 1" "length (varint (2 ^ 59)) = 9" by (simp_all add: AppendVarInt_def)
  show "rd_var e hostile_block 80 = Inr (0, 81)"
    using rd_var_at [of 80 "replicate 80 0" e 0] l by (simp add: hostile_block_def)
  show "rd_var e hostile_block 81 = Inr (0, 82)"
    using rd_var_at [of 81 "replicate 80 0 @ varint 0" e 0] l by (simp add: hostile_block_def)
  show "rd_var e hostile_block 82 = Inr (2 ^ 59, 91)"
    using rd_var_at [of 82 "replicate 80 0 @ varint 0 @ varint 0" e "2 ^ 59" "[0]"] l
    by (simp add: hostile_block_def)
  show "length hostile_block = 92" using l by (simp add: hostile_block_def)
qed

text \<open>
  C40: \<open>FromTeranode\<close> tests the subtree count after a product that can wrap,
  so a 92-byte body naming \<open>2 ^ 59\<close> subtrees passes the overrun guard and
  panics in \<open>make\<close>, whatever the codec says of its transactions.
\<close>

theorem FromTeranode_hostile_count:
  "length hostile_block = 92 \<and> FromTeranode F hostile_block = Inl Panic"
proof -
  have "wrap_int (91 + wrap_int (int_of_u64 (2 ^ 59) * 32)) = 91" "uint (2 ^ 59 :: u64) * 32 > maxAlloc"
    by (simp_all add: wrap_int_def int_of_u64_def maxAlloc_def)
  moreover obtain h where "slice hostile_block 0 80 = Some h"
    by (simp add: slice_def hostile_block_reads)
  ultimately show ?thesis
    by (simp add: FromTeranode_def hostile_block_reads del: power_numeral)
qed

end
