(* ===== verification/Tnasset.thy ===== *)
theory Tnasset
  imports Tnwire
begin

text \<open>
  \<open>internal/tnasset\<close>: the client of the cluster's asset service that builds the
  frames the reverse path publishes.  The HTTP exchange and the waits of the
  rate-limit ladder are functions of the attempt's number.
\<close>

datatype asset_response = AssetError | AssetReadError int | AssetReply int bytes

datatype get_error = GetFailed | GetReadFailed int | GetCancelled int | GetRateLimited nat

record asset_env =
  ae_get :: "string \<Rightarrow> nat \<Rightarrow> asset_response"
  ae_wait :: "nat \<Rightarrow> duration \<Rightarrow> bool"

definition asset_base :: "string \<Rightarrow> string" where
  "asset_base base = trim_right (CHR ''/'') base"

definition asset_backoff :: "duration list" where
  "asset_backoff = [200 * millisecond, second, 3 * second, 8 * second]"

text \<open>\<open>left\<close> attempts remain after this one; the ladder is indexed by \<open>attempt\<close>.\<close>

fun get_loop :: "asset_env \<Rightarrow> string \<Rightarrow> nat \<Rightarrow> nat \<Rightarrow> (get_error, int \<times> bytes) res" where
  "get_loop E url 0 attempt =
     (case ae_get E url attempt of
        AssetError \<Rightarrow> Inl GetFailed
      | AssetReadError s \<Rightarrow> Inl (GetReadFailed s)
      | AssetReply s b \<Rightarrow> if s \<noteq> 429 then Inr (s, b) else Inl (GetRateLimited (length asset_backoff + 1)))"
| "get_loop E url (Suc left) attempt =
     (case ae_get E url attempt of
        AssetError \<Rightarrow> Inl GetFailed
      | AssetReadError s \<Rightarrow> Inl (GetReadFailed s)
      | AssetReply s b \<Rightarrow>
          if s \<noteq> 429 then Inr (s, b)
          else if \<not> ae_wait E attempt (asset_backoff ! attempt) then Inl (GetCancelled s)
          else get_loop E url left (attempt + 1))"

definition asset_get :: "asset_env \<Rightarrow> string \<Rightarrow> string \<Rightarrow> (get_error, int \<times> bytes) res" where
  "asset_get E base path = get_loop E (base @ path) (length asset_backoff) 0"

datatype build_error =
    FetchFailed get_error
  | UnexpectedStatus int
  | NotWholeHashes nat
  | EncodeFailed encode_error
  | ParseFailed tnwire_error

text \<open>What a builder answers: an error, a skip (\<open>ok = false\<close>), a frame, or a panic.\<close>

datatype built = BuildFailed build_error | BuildSkip | Built bytes | BuildPanic

definition BuildSubtree :: "objfmt \<Rightarrow> asset_env \<Rightarrow> string \<Rightarrow> hash \<Rightarrow> built" where
  "BuildSubtree F E base h =
     (case asset_get E base (''/subtree/'' @ Display h) of
        Inl e \<Rightarrow> BuildFailed (FetchFailed e)
      | Inr (status, b) \<Rightarrow>
          if status = 404 then BuildSkip
          else if status \<noteq> 200 then BuildFailed (UnexpectedStatus status)
          else if b = [] \<or> length b mod 32 \<noteq> 0 then BuildFailed (NotWholeHashes (length b))
          else (case Subtree F h (chunks32 (length b div 32) b) of
                  Inl e \<Rightarrow> BuildFailed (EncodeFailed e)
                | Inr frame \<Rightarrow> Built frame))"

definition BuildBlock :: "objfmt \<Rightarrow> asset_env \<Rightarrow> string \<Rightarrow> hash \<Rightarrow> built" where
  "BuildBlock F E base h =
     (case asset_get E base (''/block/'' @ Display h) of
        Inl e \<Rightarrow> BuildFailed (FetchFailed e)
      | Inr (status, b) \<Rightarrow>
          if status = 404 then BuildSkip
          else if status \<noteq> 200 then BuildFailed (UnexpectedStatus status)
          else (case FromTeranode F b of
                  Inl Panic \<Rightarrow> BuildPanic
                | Inl e \<Rightarrow> BuildFailed (ParseFailed e)
                | Inr blk \<Rightarrow>
                    (case Block_Encode F blk of
                       Inl e \<Rightarrow> BuildFailed (EncodeFailed e)
                     | Inr frame \<Rightarrow> Built frame)))"

section \<open>The ladder\<close>

lemma asset_get_eq: "asset_get E base path = get_loop E (base @ path) 4 0"
proof -
  have "length asset_backoff = 4" by (simp add: asset_backoff_def)
  then show ?thesis by (simp only: asset_get_def)
qed

lemma get_loop_reply:
  "(\<And>j. j < i \<Longrightarrow> \<exists>b. ae_get E url (attempt + j) = AssetReply 429 b) \<Longrightarrow>
   (\<And>j. j < i \<Longrightarrow> ae_wait E (attempt + j) (asset_backoff ! (attempt + j))) \<Longrightarrow>
   i \<le> left \<Longrightarrow> ae_get E url (attempt + i) = AssetReply s b \<Longrightarrow> s \<noteq> 429 \<Longrightarrow>
   get_loop E url left attempt = Inr (s, b)"
proof (induction i arbitrary: left attempt)
  case 0
  then show ?case by (cases left) simp_all
next
  case (Suc i)
  then obtain l where l: "left = Suc l" "i \<le> l" by (cases left) auto
  obtain b0 where "ae_get E url attempt = AssetReply 429 b0" using Suc.prems(1) [of 0] by auto
  moreover have "ae_wait E attempt (asset_backoff ! attempt)" using Suc.prems(2) [of 0] by simp
  moreover have "get_loop E url l (attempt + 1) = Inr (s, b)"
    using Suc.prems(1,2) [of "Suc _"] Suc.prems(4,5) l(2) by (intro Suc.IH) auto
  ultimately show ?case by (simp add: l)
qed

lemma get_loop_not_429: "get_loop E url left attempt = Inr (s, b) \<Longrightarrow> s \<noteq> 429"
  by (induction left arbitrary: attempt) (auto split: asset_response.splits if_splits)

section \<open>Properties\<close>

definition answering :: "string \<Rightarrow> bytes \<Rightarrow> asset_env" where
  "answering url b = \<lparr> ae_get = (\<lambda>u n. if u = url \<and> n = 2 then AssetReply 200 b else AssetReply 429 []),
     ae_wait = (\<lambda>n d. True) \<rparr>"

lemma answering_get: "asset_get (answering (base @ path) b) base path = Inr (200, b)"
proof -
  have "get_loop (answering (base @ path) b) (base @ path) 4 0 = Inr (200, b)"
    by (rule get_loop_reply [where i = 2]) (simp_all add: answering_def)
  then show ?thesis by (simp only: asset_get_eq)
qed

text \<open>
  C27: What the cluster serves is rebuilt byte for byte.  If the asset service
  answers a block request with the serialization of a frame that
  \<open>Block.Encode\<close> built, the client builds that very frame; if it answers a
  subtree request with the node hashes of a subtree frame, the client builds
  that frame under the requested root.
\<close>

theorem build_inverts_serving:
  assumes "tx_delimited F" and "frame_headers F"
  shows "(\<forall>b frame tn. wf_block b \<and> Block_Encode F b = Inr frame \<and> length frame \<le> 2 ^ 48 \<and> ToTeranode F frame = Inr tn \<and>
            asset_get E base (''/block/'' @ Display h) = Inr (200, tn) \<longrightarrow> BuildBlock F E base h = Built frame) \<and>
    (\<forall>nodes frame. wf_hash h \<and> (\<forall>n \<in> set nodes. wf_hash n) \<and> Subtree F h nodes = Inr frame \<and>
            asset_get E base (''/subtree/'' @ Display h) = Inr (200, drop 40 frame) \<longrightarrow> BuildSubtree F E base h = Built frame)"
proof (intro conjI allI impI)
  fix b frame tn
  assume A: "wf_block b \<and> Block_Encode F b = Inr frame \<and> length frame \<le> 2 ^ 48 \<and> ToTeranode F frame = Inr tn \<and>
            asset_get E base (''/block/'' @ Display h) = Inr (200, tn)"
  then have "FromTeranode F tn = Inr b" using block_converts [OF assms, of b frame] by auto
  then show "BuildBlock F E base h = Built frame" using A by (simp add: BuildBlock_def)
next
  fix nodes frame
  assume A: "wf_hash h \<and> (\<forall>n \<in> set nodes. wf_hash n) \<and> Subtree F h nodes = Inr frame \<and>
            asset_get E base (''/subtree/'' @ Display h) = Inr (200, drop 40 frame)"
  then have S: "nodes \<noteq> []" "frame = h @ put_be64 (u64_of_len nodes) @ concat nodes" by (auto simp: Subtree_Inr_iff)
  then have d: "drop 40 frame = concat nodes" using A by simp
  have len: "length (concat nodes) = 32 * length nodes" using A by (intro length_concat32) simp
  moreover have "chunks32 (length nodes) (concat nodes) = nodes" using A chunks32_concat [of nodes "[]"] by simp
  moreover have "concat nodes \<noteq> []" using len S(1) by fastforce
  ultimately show "BuildSubtree F E base h = Built frame" using A d by (simp add: BuildSubtree_def)
qed

theorem build_inverts_serving_witness:
  "\<exists>tn. BuildBlock sample_objfmt (answering (''http://a'' @ ''/block/'' @ Display (replicate 32 1)) tn) ''http://a''
     (replicate 32 1) = Built sample_frame"
proof -
  obtain tn where tn: "ToTeranode sample_objfmt sample_frame = Inr tn"
    using block_converts [OF sample_objfmt_ok(1,2) sample_block_encodes(2,1)] sample_block_encodes(3) by auto
  have "asset_get (answering (''http://a'' @ ''/block/'' @ Display (replicate 32 1)) tn) ''http://a''
      (''/block/'' @ Display (replicate 32 1)) = Inr (200, tn)" by (rule answering_get)
  then have "BuildBlock sample_objfmt (answering (''http://a'' @ ''/block/'' @ Display (replicate 32 1)) tn) ''http://a''
     (replicate 32 1) = Built sample_frame"
    using build_inverts_serving [OF sample_objfmt_ok(1,2)] sample_block_encodes tn by simp
  then show ?thesis by blast
qed

text \<open>
  The rate limiter is waited out.  If the service answers 429 to at most
  four attempts and then anything else, and the ladder's waits are not
  cancelled, the client returns that other answer; it never returns a 429 as
  an answer.
\<close>

theorem asset_ladder:
  assumes "i \<le> 4" and "\<forall>j < i. (\<exists>b. ae_get E (base @ path) j = AssetReply 429 b) \<and> ae_wait E j (asset_backoff ! j)"
    and "ae_get E (base @ path) i = AssetReply s b" and "s \<noteq> 429"
  shows "asset_get E base path = Inr (s, b) \<and> (\<forall>s' b'. asset_get E base path = Inr (s', b') \<longrightarrow> s' \<noteq> 429)"
proof -
  have "get_loop E (base @ path) 4 0 = Inr (s, b)"
    using assms by (intro get_loop_reply [where i = i]) auto
  then show ?thesis unfolding asset_get_eq using get_loop_not_429 by blast
qed

theorem asset_ladder_witness:
  "asset_get (answering (''b'' @ ''/p'') [7]) ''b'' ''/p'' = Inr (200, [7])"
proof -
  have "\<forall>j < 2. (\<exists>b. ae_get (answering (''b'' @ ''/p'') [7]) (''b'' @ ''/p'') j = AssetReply 429 b) \<and>
      ae_wait (answering (''b'' @ ''/p'') [7]) j (asset_backoff ! j)" by (auto simp: answering_def)
  moreover have "ae_get (answering (''b'' @ ''/p'') [7]) (''b'' @ ''/p'') 2 = AssetReply 200 [7]"
    by (simp add: answering_def)
  ultimately show ?thesis using asset_ladder [of 2] by simp
qed

end
