(* ===== verification/Reverse.thy ===== *)
theory Reverse
  imports Registry Cache Submit Tnasset
begin

text \<open>
  The package \<open>reverse\<close>: the subscriber that republishes what the cluster
  produces.  The notification handler composes the registry, the asset client,
  the frame readers, the published-frame record and the up-tunnel exactly as
  the source does; the role of the standby and its promoter, the reconnect
  backoff, the cluster-state poll and the transport settings follow.
\<close>

section \<open>State and environment\<close>

datatype obj_class = ClsSubtree | ClsBlock

fun class_name :: "obj_class \<Rightarrow> string" where
  "class_name ClsSubtree = ''subtree''"
| "class_name ClsBlock = ''block''"

record Notification =
  n_Type :: int
  n_Hash :: bytes

definition typeSubtree :: int where "typeSubtree = 1"
definition typeBlock :: int where "typeBlock = 2"

record Subscriber =
  rv_MineTag :: bytes
  rv_Subtrees :: "UpTunnel option"
  rv_Blocks :: "UpTunnel option"
  rv_Published :: "Cache option"
  rv_seen :: Registry
  rv_active :: bool
  rv_fsmState :: "string option"
  rv_height :: u64
  subtreesUp :: nat
  blocksUp :: nat
  remoteSkipped :: nat
  skipped :: nat
  rv_failures :: nat
  gated :: nat
  standbyHeld :: nat
  foreignSkipped :: nat
  reconnects :: nat

text \<open>
  What the world answers while one notification is handled: the readiness gate
  (\<open>None\<close> when not configured), the builders, and the network of the send.
\<close>

record rev_env =
  re_ready :: "bool option"
  re_build :: "obj_class \<Rightarrow> hash \<Rightarrow> built"
  re_dial :: "string \<Rightarrow> bool"
  re_write :: write_end

type_synonym push = "obj_class \<times> hash \<times> bytes"

definition SetActive :: "bool \<Rightarrow> Subscriber \<Rightarrow> Subscriber" where
  "SetActive v s = s \<lparr> rv_active := v \<rparr>"

fun publisher :: "obj_class \<Rightarrow> Subscriber \<Rightarrow> UpTunnel option" where
  "publisher ClsSubtree s = rv_Subtrees s"
| "publisher ClsBlock s = rv_Blocks s"

fun set_publisher :: "obj_class \<Rightarrow> UpTunnel \<Rightarrow> Subscriber \<Rightarrow> Subscriber" where
  "set_publisher ClsSubtree u s = s \<lparr> rv_Subtrees := Some u \<rparr>"
| "set_publisher ClsBlock u s = s \<lparr> rv_Blocks := Some u \<rparr>"

fun count_up :: "obj_class \<Rightarrow> Subscriber \<Rightarrow> Subscriber" where
  "count_up ClsSubtree s = s \<lparr> subtreesUp := subtreesUp s + 1 \<rparr>"
| "count_up ClsBlock s = s \<lparr> blocksUp := blocksUp s + 1 \<rparr>"

section \<open>The notification handler\<close>

text \<open>The origin gate on a built frame: pass, a foreign block, an unreadable one, or a panic.\<close>

datatype origin = OriginOurs | OriginForeign | OriginUnreadable | OriginPanic

definition origin_gate :: "objfmt \<Rightarrow> obj_class \<Rightarrow> bytes \<Rightarrow> bytes \<Rightarrow> origin" where
  "origin_gate F cls tag frame =
     (if cls = ClsBlock \<and> tag \<noteq> [] then
        (case CoinbaseOf F frame of
           Inl Panic \<Rightarrow> OriginPanic
         | Inl e \<Rightarrow> OriginUnreadable
         | Inr cb \<Rightarrow> if contains cb tag then OriginOurs else OriginForeign)
      else OriginOurs)"

text \<open>Register, keep the bytes, send: the part of \<open>publish\<close> after the gates.\<close>

definition push_frame :: "rev_env \<Rightarrow> time \<Rightarrow> obj_class \<Rightarrow> hash \<Rightarrow> bytes \<Rightarrow> UpTunnel \<Rightarrow> Subscriber \<Rightarrow> Subscriber" where
  "push_frame E now cls h frame u s =
     (let s = s \<lparr> rv_seen := snd (Mark now h Submitted (rv_seen s)) \<rparr>;
          s = s \<lparr> rv_Published := map_option (cache_Put now h (class_name cls) frame) (rv_Published s) \<rparr>
      in case Send (re_dial E) (re_write E) frame u of
           (Some e, u) \<Rightarrow> (set_publisher cls u s) \<lparr> rv_failures := rv_failures s + 1 \<rparr>
         | (None, u) \<Rightarrow> count_up cls (set_publisher cls u s))"

text \<open>
  \<open>publish\<close>: the frames handed to the up-tunnel and the new state; \<open>None\<close> is a
  panic, which ends the process.
\<close>

definition publish :: "objfmt \<Rightarrow> rev_env \<Rightarrow> time \<Rightarrow> obj_class \<Rightarrow> hash \<Rightarrow> Subscriber \<Rightarrow> (push list \<times> Subscriber) option" where
  "publish F E now cls h s =
     (case publisher cls s of
        None \<Rightarrow> Some ([], s)
      | Some u \<Rightarrow>
          if \<not> rv_active s then Some ([], s \<lparr> standbyHeld := standbyHeld s + 1 \<rparr>)
          else if re_ready E = Some False then Some ([], s \<lparr> gated := gated s + 1 \<rparr>)
          else (case re_build E cls h of
                  BuildPanic \<Rightarrow> None
                | BuildFailed e \<Rightarrow> Some ([], s \<lparr> rv_failures := rv_failures s + 1 \<rparr>)
                | BuildSkip \<Rightarrow> Some ([], s \<lparr> skipped := skipped s + 1 \<rparr>)
                | Built frame \<Rightarrow>
                    (case origin_gate F cls (rv_MineTag s) frame of
                       OriginPanic \<Rightarrow> None
                     | OriginUnreadable \<Rightarrow> Some ([], s \<lparr> rv_failures := rv_failures s + 1 \<rparr>)
                     | OriginForeign \<Rightarrow> Some ([], s \<lparr> foreignSkipped := foreignSkipped s + 1 \<rparr>)
                     | OriginOurs \<Rightarrow> Some ([(cls, h, frame)], push_frame E now cls h frame u s))))"

definition handle :: "objfmt \<Rightarrow> rev_env \<Rightarrow> time \<Rightarrow> Notification \<Rightarrow> Subscriber \<Rightarrow> (push list \<times> Subscriber) option" where
  "handle F E now n s =
     (if n_Type n \<noteq> typeSubtree \<and> n_Type n \<noteq> typeBlock then Some ([], s)
      else case FromWire (n_Hash n) of
        Inl e \<Rightarrow> Some ([], s)
      | Inr h \<Rightarrow>
          (case Lookup h (rv_seen s) of
             Some d \<Rightarrow> Some ([], s \<lparr> remoteSkipped := remoteSkipped s + 1 \<rparr>)
           | None \<Rightarrow> publish F E now (if n_Type n = typeSubtree then ClsSubtree else ClsBlock) h s))"

fun run_notes :: "objfmt \<Rightarrow> (rev_env \<times> time \<times> Notification) list \<Rightarrow> Subscriber \<Rightarrow> (push list \<times> Subscriber) option" where
  "run_notes F [] s = Some ([], s)"
| "run_notes F ((E, now, n) # ns) s =
     (case handle F E now n s of
        None \<Rightarrow> None
      | Some (ps, s) \<Rightarrow>
          (case run_notes F ns s of
             None \<Rightarrow> None
           | Some (qs, s) \<Rightarrow> Some (ps @ qs, s)))"

section \<open>Promotion\<close>

record PromoterConfig =
  Interval :: duration
  FailN :: int
  OKN :: int

definition promoter_defaults :: "PromoterConfig \<Rightarrow> PromoterConfig" where
  "promoter_defaults c = c \<lparr>
     Interval := (if Interval c \<le> 0 then 2 * second else Interval c),
     FailN := (if FailN c \<le> 0 then 5 else FailN c),
     OKN := (if OKN c \<le> 0 then 10 else OKN c) \<rparr>"

text \<open>The loop's counters with the role; one step per probe result.\<close>

record promoter =
  pr_fails :: int
  pr_oks :: int
  pr_active :: bool

definition promoter_step :: "PromoterConfig \<Rightarrow> bool \<Rightarrow> promoter \<Rightarrow> promoter" where
  "promoter_step c ok p =
     (if ok then
        (let p = p \<lparr> pr_fails := 0, pr_oks := pr_oks p + 1 \<rparr> in
         if pr_oks p \<ge> OKN c \<and> pr_active p then p \<lparr> pr_active := False \<rparr> else p)
      else
        (let p = p \<lparr> pr_oks := 0, pr_fails := pr_fails p + 1 \<rparr> in
         if pr_fails p \<ge> FailN c \<and> \<not> pr_active p then p \<lparr> pr_active := True \<rparr> else p))"

definition RunPromoter :: "PromoterConfig \<Rightarrow> bool list \<Rightarrow> bool \<Rightarrow> promoter" where
  "RunPromoter c probes act =
     fold (promoter_step (promoter_defaults c)) probes \<lparr> pr_fails = 0, pr_oks = 0, pr_active = act \<rparr>"

section \<open>Reconnection\<close>

definition next_backoff :: "duration \<Rightarrow> duration" where
  "next_backoff d = (let d = d * 2 in if d > 30 * second then 30 * second else d)"

text \<open>
  The outer loop of \<open>Run\<close>: the backoff before each attempt.  A failed
  subscription waits and doubles; a successful one resets, serves its stream,
  counts the loss, and waits and doubles after it.
\<close>

datatype attempt = SubscribeFails | StreamServes "(rev_env \<times> time \<times> Notification) list"

fun run_loop :: "objfmt \<Rightarrow> attempt list \<Rightarrow> duration \<Rightarrow> Subscriber \<Rightarrow> (duration list \<times> push list \<times> Subscriber) option" where
  "run_loop F [] b s = Some ([], [], s)"
| "run_loop F (SubscribeFails # as) b s =
     (case run_loop F as (next_backoff b) s of
        None \<Rightarrow> None
      | Some (ws, ps, s) \<Rightarrow> Some (b # ws, ps, s))"
| "run_loop F (StreamServes ns # as) b s =
     (case run_notes F ns s of
        None \<Rightarrow> None
      | Some (ps, s) \<Rightarrow>
          (case run_loop F as (next_backoff second) (s \<lparr> reconnects := reconnects s + 1 \<rparr>) of
             None \<Rightarrow> None
           | Some (ws, qs, s) \<Rightarrow> Some (second # ws, ps @ qs, s)))"

section \<open>Cluster state, transport settings, statistics\<close>

text \<open>One poll: the FSM answer and the header answer are independent.\<close>

definition pollClusterState :: "string option \<Rightarrow> u32 option \<Rightarrow> Subscriber \<Rightarrow> Subscriber" where
  "pollClusterState fsm hdr s =
     (let s = (case fsm of None \<Rightarrow> s | Some name \<Rightarrow> s \<lparr> rv_fsmState := Some name \<rparr>)
      in case hdr of None \<Rightarrow> s | Some h \<Rightarrow> s \<lparr> rv_height := ucast h \<rparr>)"

definition ClusterState :: "Subscriber \<Rightarrow> string \<times> u64" where
  "ClusterState s = (case rv_fsmState s of None \<Rightarrow> [] | Some n \<Rightarrow> n, rv_height s)"

definition DefaultKeepaliveTime :: duration where "DefaultKeepaliveTime = 30 * second"
definition DefaultKeepaliveTimeout :: duration where "DefaultKeepaliveTimeout = 20 * second"
definition MinKeepaliveTime :: duration where "MinKeepaliveTime = 10 * second"

text \<open>Interval, timeout and whether the interval was raised.\<close>

definition keepaliveParams :: "duration \<Rightarrow> duration \<Rightarrow> duration \<times> duration \<times> bool" where
  "keepaliveParams every timeout =
     (let every = (if every \<le> 0 then DefaultKeepaliveTime else every);
          timeout = (if timeout \<le> 0 then DefaultKeepaliveTimeout else timeout)
      in if every < MinKeepaliveTime then (MinKeepaliveTime, timeout, True) else (every, timeout, False))"

record TLSConfig =
  SecurityLevel :: int
  CertFile :: string
  KeyFile :: string
  CACertFile :: string

datatype credentials = Insecure | TLSNoVerify | TLSMutual

datatype tls_error = MissingFiles int | UnreadableCA | EmptyCA | BadKeyPair | UnknownLevel int

text \<open>The files: whether the CA can be read and holds a certificate, whether the pair loads.\<close>

record tls_files =
  ca_readable :: bool
  ca_has_cert :: bool
  pair_loads :: bool

definition TLSConfig_credentials :: "tls_files \<Rightarrow> TLSConfig \<Rightarrow> (tls_error, credentials) res" where
  "TLSConfig_credentials fs t =
     (if SecurityLevel t = 0 then Inr Insecure
      else if SecurityLevel t = 1 then Inr TLSNoVerify
      else if SecurityLevel t = 2 \<or> SecurityLevel t = 3 then
        (if CACertFile t = [] \<or> CertFile t = [] \<or> KeyFile t = [] then Inl (MissingFiles (SecurityLevel t))
         else if \<not> ca_readable fs then Inl UnreadableCA
         else if \<not> ca_has_cert fs then Inl EmptyCA
         else if \<not> pair_loads fs then Inl BadKeyPair
         else Inr TLSMutual)
      else Inl (UnknownLevel (SecurityLevel t)))"

text \<open>
  \<open>New\<close>: \<open>grpc_ok\<close> is whether the gRPC library accepts the target.  A new
  subscriber does not hold the submitter role.
\<close>

datatype rev_error = NoBlockchainAddr | BadCredentials tls_error | DialRefused

definition reverse_New :: "tls_files \<Rightarrow> bool \<Rightarrow> string \<Rightarrow> TLSConfig \<Rightarrow> bytes \<Rightarrow> UpTunnel option \<Rightarrow> UpTunnel option \<Rightarrow>
    Cache option \<Rightarrow> Registry \<Rightarrow> (rev_error, Subscriber) res" where
  "reverse_New files grpc_ok addr tls tag subs blks pub seen =
     (if addr = [] then Inl NoBlockchainAddr
      else case TLSConfig_credentials files tls of
        Inl e \<Rightarrow> Inl (BadCredentials e)
      | Inr creds \<Rightarrow>
          if \<not> grpc_ok then Inl DialRefused
          else Inr \<lparr> rv_MineTag = tag, rv_Subtrees = subs, rv_Blocks = blks, rv_Published = pub, rv_seen = seen,
            rv_active = False, rv_fsmState = None, rv_height = 0, subtreesUp = 0, blocksUp = 0, remoteSkipped = 0,
            skipped = 0, rv_failures = 0, gated = 0, standbyHeld = 0, foreignSkipped = 0, reconnects = 0 \<rparr>)"

record reverse_Stats =
  rs_SubtreesUp :: nat
  rs_BlocksUp :: nat
  rs_RemoteSkipped :: nat
  rs_Skipped :: nat
  rs_Failures :: nat
  rs_Reconnects :: nat
  rs_Gated :: nat
  rs_ForeignSkipped :: nat
  rs_StandbyHeld :: nat
  rs_Active :: bool

definition reverse_Stats_of :: "Subscriber \<Rightarrow> reverse_Stats" where
  "reverse_Stats_of s =
     \<lparr> rs_SubtreesUp = subtreesUp s, rs_BlocksUp = blocksUp s, rs_RemoteSkipped = remoteSkipped s,
       rs_Skipped = skipped s, rs_Failures = rv_failures s, rs_Reconnects = reconnects s, rs_Gated = gated s,
       rs_ForeignSkipped = foreignSkipped s, rs_StandbyHeld = standbyHeld s, rs_Active = rv_active s \<rparr>"

section \<open>What handling a notification does\<close>

lemma push_frame_facts:
  "rv_seen (push_frame E now cls h frame u s) = snd (Mark now h Submitted (rv_seen s))"
  "rv_Published (push_frame E now cls h frame u s) = map_option (cache_Put now h (class_name cls) frame) (rv_Published s)"
  "publisher cls (push_frame E now cls h frame u s) = Some (snd (Send (re_dial E) (re_write E) frame u))"
  by (cases cls; simp add: push_frame_def Let_def split: prod.splits option.splits)+

lemma handle_cases:
  assumes "handle F E now n s = Some (ps, s')"
  obtains (quiet) "ps = []" "rv_seen s' = rv_seen s" "rv_Published s' = rv_Published s"
      "rv_Subtrees s' = rv_Subtrees s" "rv_Blocks s' = rv_Blocks s"
  | (push) cls h frame u where "ps = [(cls, h, frame)]" "FromWire (n_Hash n) = Inr h" "Lookup h (rv_seen s) = None"
      "rv_active s" "re_ready E \<noteq> Some False" "publisher cls s = Some u" "re_build E cls h = Built frame"
      "origin_gate F cls (rv_MineTag s) frame = OriginOurs" "s' = push_frame E now cls h frame u s"
proof -
  show thesis
  proof (cases "ps = []")
    case True
    then have "rv_seen s' = rv_seen s \<and> rv_Published s' = rv_Published s \<and> rv_Subtrees s' = rv_Subtrees s \<and>
        rv_Blocks s' = rv_Blocks s"
      using assms by (auto simp: handle_def publish_def split: if_splits sum.splits option.splits built.splits origin.splits)
    then show thesis using quiet True by blast
  next
    case False
    then obtain h where h: "FromWire (n_Hash n) = Inr h" "Lookup h (rv_seen s) = None"
      using assms by (auto simp: handle_def split: if_splits sum.splits option.splits)
    then obtain cls where "publish F E now cls h s = Some (ps, s')"
      using assms False by (auto simp: handle_def split: if_splits)
    then obtain u frame where "ps = [(cls, h, frame)]" "rv_active s" "re_ready E \<noteq> Some False"
        "publisher cls s = Some u" "re_build E cls h = Built frame"
        "origin_gate F cls (rv_MineTag s) frame = OriginOurs" "s' = push_frame E now cls h frame u s"
      using False by (auto simp: publish_def split: if_splits option.splits built.splits origin.splits)
    then show thesis using push h by blast
  qed
qed

definition pushes_of :: "hash \<Rightarrow> push list \<Rightarrow> push list" where
  "pushes_of h ps = filter (\<lambda>(cls, k, frame). k = h) ps"

text \<open>Once a hash is retained by the registry, no notification in the window is pushed for it.\<close>

lemma retained_handle:
  assumes "registry_ok c (rv_seen s)" and "retained t0 h d n (shardOf (reg_s (rv_seen s)) h)"
    and "t0 \<le> now" and "now < t0 + reg_ttl (rv_seen s) div 2" and "n < c"
    and "handle F E now m s = Some (ps, s')"
  shows "registry_ok c (rv_seen s') \<and> retained t0 h d (Suc n) (shardOf (reg_s (rv_seen s')) h) \<and>
    reg_ttl (rv_seen s') = reg_ttl (rv_seen s) \<and> pushes_of h ps = []"
  using assms(6)
proof (cases rule: handle_cases)
  case quiet
  then show ?thesis using assms by (auto simp: retained_def pushes_of_def)
next
  case (push cls k frame u)
  have "Lookup h (rv_seen s) = Some d" using assms(2) by (simp add: Lookup_def retained_lookup)
  then have "k \<noteq> h" using push(3) by auto
  then show ?thesis
    using push assms retained_Mark [OF assms(1-5)] registry_ok_Mark [OF assms(1)]
    by (simp add: push_frame_facts pushes_of_def)
qed

lemma retained_run_notes:
  "registry_ok c (rv_seen s) \<Longrightarrow> retained t0 h d n (shardOf (reg_s (rv_seen s)) h) \<Longrightarrow>
   \<forall>(E, now, m) \<in> set ns. t0 \<le> now \<and> now < t0 + reg_ttl (rv_seen s) div 2 \<Longrightarrow> n + length ns \<le> c \<Longrightarrow>
   run_notes F ns s = Some (ps, s') \<Longrightarrow> pushes_of h ps = []"
proof (induction ns arbitrary: s n ps)
  case Nil
  then show ?case by (simp add: pushes_of_def)
next
  case (Cons x ns)
  obtain E now m where x: "x = (E, now, m)" by (cases x)
  obtain p1 s1 p2 where h: "handle F E now m s = Some (p1, s1)" "run_notes F ns s1 = Some (p2, s')" "ps = p1 @ p2"
    using Cons.prems(5) x by (auto split: option.splits)
  have r: "registry_ok c (rv_seen s1) \<and> retained t0 h d (Suc n) (shardOf (reg_s (rv_seen s1)) h) \<and>
      reg_ttl (rv_seen s1) = reg_ttl (rv_seen s) \<and> pushes_of h p1 = []"
    using Cons.prems x by (intro retained_handle [OF Cons.prems(1,2) _ _ _ h(1)]) auto
  then have "pushes_of h p2 = []"
    using Cons.prems h(2) by (intro Cons.IH [of s1 "Suc n" p2]) auto
  then show ?case using r h(3) by (simp add: pushes_of_def)
qed

lemma run_notes_once:
  "registry_ok c (rv_seen s) \<Longrightarrow>
   \<forall>(E, now, m) \<in> set ns. t0 \<le> now \<and> now < t0 + reg_ttl (rv_seen s) div 2 \<Longrightarrow> length ns \<le> c \<Longrightarrow>
   run_notes F ns s = Some (ps, s') \<Longrightarrow> length (pushes_of h ps) \<le> 1"
proof (induction ns arbitrary: s ps)
  case Nil
  then show ?case by (simp add: pushes_of_def)
next
  case (Cons x ns)
  obtain E now m where x: "x = (E, now, m)" by (cases x)
  obtain p1 s1 p2 where h: "handle F E now m s = Some (p1, s1)" "run_notes F ns s1 = Some (p2, s')" "ps = p1 @ p2"
    using Cons.prems(4) x by (auto split: option.splits)
  have app: "pushes_of h ps = pushes_of h p1 @ pushes_of h p2" using h(3) by (simp add: pushes_of_def)
  show ?case using h(1)
  proof (cases rule: handle_cases)
    case quiet
    then have "length (pushes_of h p2) \<le> 1"
      using Cons.prems h(2) by (intro Cons.IH [of s1]) auto
    then show ?thesis using quiet app by (simp add: pushes_of_def)
  next
    case (push cls k frame u)
    have ok1: "registry_ok c (rv_seen s1)" and ttl: "reg_ttl (rv_seen s1) = reg_ttl (rv_seen s)"
      using push(9) registry_ok_Mark [OF Cons.prems(1)] by (simp_all add: push_frame_facts)
    show ?thesis
    proof (cases "k = h")
      case False
      have "length (pushes_of h p2) \<le> 1"
        using Cons.prems h(2) ok1 ttl by (intro Cons.IH [of s1]) auto
      then show ?thesis using push(1) False app by (simp add: pushes_of_def)
    next
      case True
      have len: "length (reg_s (rv_seen s)) = shards" using Cons.prems(1) by (rule registry_ok_length)
      have "pushes_of h p2 = []"
        using retained_run_notes [OF ok1, where ?t0.0 = t0 and h = h and n = 0 and ns = ns and ps = p2]
          retained_after_Mark [OF len, where ?t0.0 = t0 and k = k and now = now and d = Submitted] Cons.prems h(2) ttl push(9) True
        by (auto simp: push_frame_facts)
      then show ?thesis using push(1) app by (simp add: pushes_of_def)
    qed
  qed
qed

section \<open>The promoter's run lengths\<close>

definition trailing :: "bool \<Rightarrow> bool list \<Rightarrow> nat" where
  "trailing b ps = length (takeWhile (\<lambda>x. x = b) (rev ps))"

lemma trailing_snoc: "trailing b (ps @ [x]) = (if x = b then Suc (trailing b ps) else 0)"
  by (simp add: trailing_def)

lemma promoter_counts:
  "pr_fails (RunPromoter c ps act) = int (trailing False ps) \<and> pr_oks (RunPromoter c ps act) = int (trailing True ps)"
proof (induction ps rule: rev_induct)
  case Nil
  then show ?case by (simp add: RunPromoter_def trailing_def)
next
  case (snoc x ps)
  have "RunPromoter c (ps @ [x]) act = promoter_step (promoter_defaults c) x (RunPromoter c ps act)"
    by (simp add: RunPromoter_def)
  then show ?case using snoc by (cases x) (simp_all add: promoter_step_def Let_def trailing_snoc)
qed

lemma promoter_snoc:
  "pr_active (RunPromoter c (ps @ [x]) act) =
     (if x then (if int (trailing True (ps @ [x])) \<ge> OKN (promoter_defaults c) then False else pr_active (RunPromoter c ps act))
      else (if int (trailing False (ps @ [x])) \<ge> FailN (promoter_defaults c) then True else pr_active (RunPromoter c ps act)))"
proof -
  have "RunPromoter c (ps @ [x]) act = promoter_step (promoter_defaults c) x (RunPromoter c ps act)"
    by (simp add: RunPromoter_def)
  then show ?thesis using promoter_counts [of c ps act]
    by (cases x) (auto simp: promoter_step_def Let_def trailing_snoc)
qed

section \<open>Properties\<close>

text \<open>
  C21: What may be published.  Every frame handed to the up-tunnel for a
  notification is the builder's frame for that hash, while the subscriber holds
  the submitter role and the readiness gate is not closed, for a hash the
  registry did not know; if a mine tag is configured, a block's coinbase
  carries it.  Afterwards the registry knows the hash and the published record
  was given exactly the frame that was sent.
\<close>

theorem publish_guards:
  assumes "handle F E now n s = Some (ps, s')" and "registry_ok c (rv_seen s)" and "(cls, h, frame) \<in> set ps"
  shows "rv_active s \<and> re_ready E \<noteq> Some False \<and> Lookup h (rv_seen s) = None \<and> re_build E cls h = Built frame \<and>
    (cls = ClsBlock \<and> rv_MineTag s \<noteq> [] \<longrightarrow> (\<exists>cb. CoinbaseOf F frame = Inr cb \<and> contains cb (rv_MineTag s))) \<and>
    Lookup h (rv_seen s') = Some Submitted \<and>
    rv_Published s' = map_option (cache_Put now h (class_name cls) frame) (rv_Published s) \<and>
    (\<exists>u. publisher cls s = Some u \<and> publisher cls s' = Some (snd (Send (re_dial E) (re_write E) frame u)))"
  using assms(1)
proof (cases rule: handle_cases)
  case quiet
  then show ?thesis using assms(3) by simp
next
  case (push cls' h' frame' u)
  then have eq: "cls' = cls" "h' = h" "frame' = frame" using assms(3) by simp_all
  have "Lookup h (rv_seen s') = Some Submitted"
    using push eq reg.mark_fresh [OF assms(2), of h now Submitted] by (simp add: push_frame_facts)
  moreover have "cls = ClsBlock \<and> rv_MineTag s \<noteq> [] \<longrightarrow> (\<exists>cb. CoinbaseOf F frame = Inr cb \<and> contains cb (rv_MineTag s))"
    using push(8) eq by (auto simp: origin_gate_def split: if_splits sum.splits tnwire_error.splits)
  ultimately show ?thesis using push eq by (simp add: push_frame_facts)
qed

definition sample_subscriber :: Subscriber where
  "sample_subscriber =
     \<lparr> rv_MineTag = [], rv_Subtrees = Some (UpTunnel_new [''a''] ''subtree''), rv_Blocks = None, rv_Published = None,
       rv_seen = registry_New 20 1000 0, rv_active = True, rv_fsmState = None, rv_height = 0, subtreesUp = 0,
       blocksUp = 0, remoteSkipped = 0, skipped = 0, rv_failures = 0, gated = 0, standbyHeld = 0,
       foreignSkipped = 0, reconnects = 0 \<rparr>"

definition sample_rev_env :: rev_env where
  "sample_rev_env = \<lparr> re_ready = None, re_build = (\<lambda>cls h. Built [1, 2, 3]), re_dial = (\<lambda>a. False), re_write = WroteAll \<rparr>"

definition sample_note :: Notification where
  "sample_note = \<lparr> n_Type = 1, n_Hash = replicate 32 4 \<rparr>"

lemma sample_subscriber_ok: "registry_ok 7 (rv_seen sample_subscriber)"
  using registry_ok_New [of 1000 20 0] by (simp add: sample_subscriber_def)

lemma sample_handle:
  "\<exists>s'. handle F sample_rev_env now sample_note sample_subscriber = Some ([(ClsSubtree, replicate 32 4, [1, 2, 3])], s')"
  by (simp add: handle_def publish_def sample_note_def sample_subscriber_def sample_rev_env_def FromWire_def
      typeSubtree_def typeBlock_def Lookup_def lookup_shard_def registry_New_def Let_def origin_gate_def)

theorem publish_guards_witness:
  "\<exists>s'. handle sample_objfmt sample_rev_env 1 sample_note sample_subscriber = Some ([(ClsSubtree, replicate 32 4, [1, 2, 3])], s') \<and>
     Lookup (replicate 32 4) (rv_seen s') = Some Submitted"
  using sample_handle [of sample_objfmt 1] publish_guards [OF _ sample_subscriber_ok, of sample_objfmt sample_rev_env 1 sample_note]
  by fastforce

text \<open>
  Each object is pushed at most once.  Over any stream of notifications
  that falls within half the registry's time-to-live and is no longer than a
  shard's rotation capacity, at most one push is attempted per hash, however
  often the cluster repeats the notification and whatever the builders and the
  network answer.
\<close>

theorem push_at_most_once:
  assumes "registry_ok c (rv_seen s)" and "length ns \<le> c"
    and "\<forall>(E, now, m) \<in> set ns. t0 \<le> now \<and> now < t0 + reg_ttl (rv_seen s) div 2"
    and "run_notes F ns s = Some (ps, s')"
  shows "length (pushes_of h ps) \<le> 1"
  using run_notes_once [OF assms(1,3,2,4)] .

theorem push_at_most_once_witness:
  "\<exists>ps s'. run_notes sample_objfmt [(sample_rev_env, 1, sample_note), (sample_rev_env, 2, sample_note)] sample_subscriber = Some (ps, s') \<and>
     length (pushes_of (replicate 32 4) ps) \<le> 1"
proof -
  obtain s1 where s1: "handle sample_objfmt sample_rev_env 1 sample_note sample_subscriber =
      Some ([(ClsSubtree, replicate 32 4, [1, 2, 3])], s1)" using sample_handle by blast
  have "handle sample_objfmt sample_rev_env 2 sample_note s1 \<noteq> None"
    by (auto simp: handle_def publish_def sample_rev_env_def sample_note_def typeSubtree_def origin_gate_def
        split: sum.splits option.splits)
  then obtain ps s' where run: "run_notes sample_objfmt [(sample_rev_env, 1, sample_note), (sample_rev_env, 2, sample_note)]
      sample_subscriber = Some (ps, s')" using s1 by fastforce
  have "reg_ttl (rv_seen sample_subscriber) = 20" by (simp add: sample_subscriber_def registry_New_def Let_def)
  then have "length (pushes_of (replicate 32 4) ps) \<le> 1"
    using push_at_most_once [OF sample_subscriber_ok _ _ run, of 0] by simp
  then show ?thesis using run by blast
qed

text \<open>
  A failed send is not retried.  The hash is registered before the send, so
  when the up-tunnel fails the object counts as submitted, and a repeated
  notification is skipped as already seen.
\<close>

theorem failed_send_not_retried:
  assumes "registry_ok c (rv_seen s)" and "handle F E now n s = Some ([(cls, h, frame)], s')"
    and "FromWire (n_Hash m) = Inr h" and "n_Type m = typeSubtree \<or> n_Type m = typeBlock"
  shows "handle F E' now' m s' = Some ([], s' \<lparr> remoteSkipped := remoteSkipped s' + 1 \<rparr>)"
  using assms(2)
proof (cases rule: handle_cases)
  case (push cls' h' frame' u)
  then have "Lookup h (rv_seen s') = Some Submitted"
    using reg.mark_fresh [OF assms(1), of h now Submitted] by (simp add: push_frame_facts)
  then show ?thesis using assms(3,4) by (auto simp: handle_def)
qed simp

theorem failed_send_not_retried_witness:
  "\<exists>s'. handle sample_objfmt sample_rev_env 1 sample_note sample_subscriber = Some ([(ClsSubtree, replicate 32 4, [1, 2, 3])], s') \<and>
     handle sample_objfmt sample_rev_env 2 sample_note s' = Some ([], s' \<lparr> remoteSkipped := remoteSkipped s' + 1 \<rparr>)"
proof -
  obtain s1 where s1: "handle sample_objfmt sample_rev_env 1 sample_note sample_subscriber =
      Some ([(ClsSubtree, replicate 32 4, [1, 2, 3])], s1)" using sample_handle by blast
  have "FromWire (n_Hash sample_note) = Inr (replicate 32 4)" "n_Type sample_note = typeSubtree"
    by (simp_all add: sample_note_def FromWire_def typeSubtree_def)
  then show ?thesis
    using failed_send_not_retried [OF sample_subscriber_ok s1] s1 by blast
qed

text \<open>
  Promotion and demotion.  After any sequence of probes the standby is
  active if the last \<open>FailN\<close> probes all failed, inactive if the last \<open>OKN\<close> all
  succeeded, and otherwise its role is what it was before the last probe: no
  shorter run flips it.
\<close>

theorem promoter_role:
  "let c' = promoter_defaults c; role = (\<lambda>ps. pr_active (RunPromoter c ps act)); ps' = ps @ [x] in
   role ps' = (if FailN c' \<le> int (trailing False ps') then True
               else if OKN c' \<le> int (trailing True ps') then False else role ps)"
proof -
  have "0 < FailN (promoter_defaults c)" "0 < OKN (promoter_defaults c)" by (simp_all add: promoter_defaults_def)
  then show ?thesis unfolding Let_def promoter_snoc by (cases x) (simp_all add: trailing_snoc)
qed

text \<open>
  The reconnect waits.  Starting from one second, every wait of the
  subscription loop is between one and thirty seconds, whatever the sequence of
  failed attempts and lost streams.
\<close>

theorem reconnect_waits:
  assumes "run_loop F as b s = Some (ws, ps, s')" and "second \<le> b" and "b \<le> 30 * second"
  shows "\<forall>w \<in> set ws. second \<le> w \<and> w \<le> 30 * second"
  using assms
proof (induction as arbitrary: b s ws ps)
  case (Cons a as)
  have n: "second \<le> next_backoff d \<and> next_backoff d \<le> 30 * second" if "second \<le> d" for d
    using that by (simp add: next_backoff_def Let_def)
  show ?case
  proof (cases a)
    case SubscribeFails
    then show ?thesis using Cons.prems Cons.IH [of "next_backoff b" s] n [of b] by (auto split: option.splits)
  next
    case (StreamServes ns)
    then show ?thesis using Cons.prems Cons.IH [of "next_backoff second"] n [of second]
      by (fastforce split: option.splits)
  qed
qed simp

theorem reconnect_waits_witness:
  "\<forall>w \<in> set [second, 2 * second, second]. second \<le> w \<and> w \<le> 30 * second"
proof -
  have "run_loop F [SubscribeFails, SubscribeFails, StreamServes []] second sample_subscriber =
      Some ([second, 2 * second, second], [], sample_subscriber \<lparr> reconnects := 1 \<rparr>)"
    by (simp add: next_backoff_def Let_def) (simp add: sample_subscriber_def)
  from reconnect_waits [OF this] show ?thesis by simp
qed

end
