(* ===== verification/FirstPull.thy ===== *)
theory FirstPull
  imports Prelude
begin

text \<open>
  The announce-to-first-pull tracker of \<open>internal/obs\<close>: a capped map from an
  object's hash to the instant its announcement was acknowledged, consumed by
  the first pull and swept of old entries at most once a second.
\<close>

record fp_entry =
  fp_t :: time
  fp_class :: string

record FirstPull =
  fp_at :: "(string, fp_entry) gomap"
  fp_max :: int
  fp_ttl :: duration
  fp_lastGC :: time

text \<open>The zero \<open>time.Time\<close> lies before every instant of the clock.\<close>

definition NewFirstPull :: "int \<Rightarrow> duration \<Rightarrow> time \<Rightarrow> FirstPull" where
  "NewFirstPull capacity ttl zero =
     \<lparr> fp_at = [], fp_max = (if capacity \<le> 0 then 2 ^ 16 else capacity),
       fp_ttl = (if ttl \<le> 0 then 10 * minute else ttl), fp_lastGC = zero \<rparr>"

definition fp_gc :: "time \<Rightarrow> FirstPull \<Rightarrow> FirstPull" where
  "fp_gc now f =
     (if now - fp_lastGC f < second then f
      else f \<lparr> fp_lastGC := now, fp_at := filter (\<lambda>(k, e). \<not> now - fp_t e > fp_ttl f) (fp_at f) \<rparr>)"

text \<open>A nil tracker is \<open>None\<close>.\<close>

definition Announced :: "time \<Rightarrow> string \<Rightarrow> string \<Rightarrow> FirstPull option \<Rightarrow> FirstPull option" where
  "Announced now key cls fo =
     (case fo of
        None \<Rightarrow> None
      | Some f \<Rightarrow>
          (let f = fp_gc now f in
           if int (length (fp_at f)) \<ge> fp_max f then Some f
           else Some (f \<lparr> fp_at := AList.update key \<lparr> fp_t = now, fp_class = cls \<rparr> (fp_at f) \<rparr>)))"

text \<open>The observation made, if any: its class and the delay.\<close>

definition Pulled :: "time \<Rightarrow> string \<Rightarrow> FirstPull option \<Rightarrow> (string \<times> duration) option \<times> FirstPull option" where
  "Pulled now key fo =
     (case fo of
        None \<Rightarrow> (None, None)
      | Some f \<Rightarrow>
          (case map_of (fp_at f) key of
             None \<Rightarrow> (None, Some f)
           | Some e \<Rightarrow> (Some (fp_class e, now - fp_t e), Some (f \<lparr> fp_at := AList.delete key (fp_at f) \<rparr>))))"

definition FirstPull_Len :: "FirstPull option \<Rightarrow> nat" where
  "FirstPull_Len fo = (case fo of None \<Rightarrow> 0 | Some f \<Rightarrow> length (fp_at f))"

section \<open>Invariant\<close>

datatype fp_op = FpAnnounced time string string | FpPulled time string

fun fp_apply :: "fp_op \<Rightarrow> FirstPull option \<Rightarrow> FirstPull option" where
  "fp_apply (FpAnnounced now key cls) f = Announced now key cls f"
| "fp_apply (FpPulled now key) f = snd (Pulled now key f)"

definition fp_ok :: "int \<Rightarrow> FirstPull option \<Rightarrow> bool" where
  "fp_ok m fo \<longleftrightarrow>
     (case fo of None \<Rightarrow> True
      | Some f \<Rightarrow> fp_max f = m \<and> gomap_ok (fp_at f) \<and> int (length (fp_at f)) \<le> m)"

lemma fp_gc_facts:
  "fp_max (fp_gc now f) = fp_max f" "length (fp_at (fp_gc now f)) \<le> length (fp_at f)"
  "gomap_ok (fp_at f) \<Longrightarrow> gomap_ok (fp_at (fp_gc now f))"
  by (simp_all add: fp_gc_def distinct_map_filter)

lemma fp_ok_step:
  assumes "fp_ok m fo"
  shows "fp_ok m (fp_apply opn fo)"
proof (cases fo)
  case None
  then show ?thesis by (cases opn) (simp_all add: fp_ok_def Announced_def Pulled_def)
next
  case (Some f)
  show ?thesis
  proof (cases opn)
    case (FpAnnounced now key cls)
    then show ?thesis using assms Some fp_gc_facts [where now = now and f = f]
      by (auto simp: fp_ok_def Announced_def Let_def length_update)
  next
    case (FpPulled now key)
    have "length (AList.delete key (fp_at f)) \<le> length (fp_at f)" by (rule length_delete_le)
    then show ?thesis using assms Some FpPulled
      by (auto simp: fp_ok_def Pulled_def split: option.splits)
  qed
qed

lemma fp_ok_fold: "fp_ok m fo \<Longrightarrow> fp_ok m (fold fp_apply ops fo)"
  by (induction ops arbitrary: fo) (simp_all add: fp_ok_step)

section \<open>Properties\<close>

text \<open>
  The tracker is bounded and each announcement is observed at most once:
  after any sequence of announcements and pulls it holds no more entries than
  its capacity, and a pull that finds an entry leaves none for that object, so
  a second pull observes nothing.
\<close>

theorem first_pull_once:
  "let cap = (if capacity \<le> 0 then 2 ^ 16 else capacity);
       f = fold fp_apply ops (Some (NewFirstPull capacity ttl zero)) in
   int (FirstPull_Len f) \<le> cap \<and> fst (Pulled now2 key (snd (Pulled now key f))) = None"
proof -
  define cap where "cap = (if capacity \<le> 0 then 2 ^ 16 else capacity)"
  define f where "f = fold fp_apply ops (Some (NewFirstPull capacity ttl zero))"
  have "fp_ok cap f" unfolding f_def
    by (rule fp_ok_fold) (simp add: fp_ok_def NewFirstPull_def cap_def)
  then have "int (FirstPull_Len f) \<le> cap \<and> fst (Pulled now2 key (snd (Pulled now key f))) = None"
    by (auto simp: fp_ok_def FirstPull_Len_def Pulled_def map_of_delete cap_def split: option.splits)
  then show ?thesis by (simp add: cap_def f_def Let_def)
qed

end
