(* ===== verification/Announce.thy ===== *)
theory Announce
  imports FirstPull Hashid
begin

text \<open>
  The package \<open>announce\<close>: the message a Kafka announcement carries, its wire
  form, and the producer with its counters.  The protobuf wire primitives and
  the Kafka client are third-party code: parameters, with the primitives' laws
  named as a hypothesis.
\<close>

section \<open>Messages\<close>

record Message =
  msg_Hash :: string
  msg_URL :: string
  msg_PeerID :: string

text \<open>
  \<open>protowire\<close>: the appenders as the bytes they append, the consumers with their
  count, \<open>None\<close> for a negative one.  Wire type 2 is \<open>BytesType\<close>.
\<close>

record protowire =
  pw_tag :: "nat \<Rightarrow> nat \<Rightarrow> bytes"
  pw_string :: "string \<Rightarrow> bytes"
  pw_consume_tag :: "bytes \<Rightarrow> (nat \<times> nat \<times> nat) option"
  pw_consume_string :: "bytes \<Rightarrow> (string \<times> nat) option"
  pw_consume_value :: "nat \<Rightarrow> nat \<Rightarrow> bytes \<Rightarrow> nat option"

abbreviation BytesType :: nat where "BytesType \<equiv> 2"

definition append_field :: "protowire \<Rightarrow> nat \<Rightarrow> string \<Rightarrow> bytes" where
  "append_field P num v = (if v = [] then [] else pw_tag P num BytesType @ pw_string P v)"

definition Message_Encode :: "protowire \<Rightarrow> Message \<Rightarrow> bytes" where
  "Message_Encode P m =
     append_field P 1 (msg_Hash m) @ append_field P 2 (msg_URL m) @ append_field P 3 (msg_PeerID m)"

definition set_field :: "nat \<Rightarrow> string \<Rightarrow> Message \<Rightarrow> Message" where
  "set_field num v m =
     (if num = 1 then m \<lparr> msg_Hash := v \<rparr>
      else if num = 2 then m \<lparr> msg_URL := v \<rparr>
      else if num = 3 then m \<lparr> msg_PeerID := v \<rparr> else m)"

text \<open>
  \<open>Decode\<close>, with fuel for the number of fields: every field consumes at least
  its tag, so the length of the buffer is enough.
\<close>

fun decode_fields :: "protowire \<Rightarrow> nat \<Rightarrow> bytes \<Rightarrow> Message \<Rightarrow> Message option" where
  "decode_fields P 0 b m = (if b = [] then Some m else None)"
| "decode_fields P (Suc n) b m =
     (if b = [] then Some m
      else case pw_consume_tag P b of
        None \<Rightarrow> None
      | Some (num, typ, k) \<Rightarrow>
          (let b = drop k b in
           if typ \<noteq> BytesType then
             (case pw_consume_value P num typ b of
                None \<Rightarrow> None
              | Some k \<Rightarrow> decode_fields P n (drop k b) m)
           else
             (case pw_consume_string P b of
                None \<Rightarrow> None
              | Some (v, k) \<Rightarrow> decode_fields P n (drop k b) (set_field num v m))))"

definition Message_Decode :: "protowire \<Rightarrow> bytes \<Rightarrow> Message option" where
  "Message_Decode P b =
     decode_fields P (length b) b \<lparr> msg_Hash = [], msg_URL = [], msg_PeerID = [] \<rparr>"

text \<open>
  The documented behaviour: consuming returns what was appended, for the field
  numbers protobuf allows, and a tag is not empty.
\<close>

definition field_number :: "nat \<Rightarrow> bool" where
  "field_number num \<longleftrightarrow> 1 \<le> num \<and> num < 2 ^ 29"

definition protowire_laws :: "protowire \<Rightarrow> bool" where
  "protowire_laws P \<longleftrightarrow>
     (\<forall>num rest. field_number num \<longrightarrow>
        pw_consume_tag P (pw_tag P num BytesType @ rest) = Some (num, BytesType, length (pw_tag P num BytesType))) \<and>
     (\<forall>s rest. pw_consume_string P (pw_string P s @ rest) = Some (s, length (pw_string P s))) \<and>
     (\<forall>num. field_number num \<longrightarrow> pw_tag P num BytesType \<noteq> [])"

section \<open>The producer\<close>

record announce_Config =
  Brokers :: "string list"
  SubtreeTopic :: string
  BlockTopic :: string
  PeerID :: string
  ann_Timeout :: duration

record Producer =
  ann_cfg :: announce_Config
  ann_firstPull :: "FirstPull option"
  ann_subtrees :: nat
  ann_blocks :: nat
  ann_failures :: nat

datatype announce_error = NoBrokers | ClientError | EmptyTopic | ProduceError

definition announce_New :: "bool \<Rightarrow> announce_Config \<Rightarrow> (announce_error, Producer) res" where
  "announce_New client_ok c =
     (if Brokers c = [] then Inl NoBrokers
      else let c = (if ann_Timeout c \<le> 0 then c \<lparr> ann_Timeout := 10 * second \<rparr> else c) in
        if \<not> client_ok then Inl ClientError
        else Inr \<lparr> ann_cfg = c, ann_firstPull = None, ann_subtrees = 0, ann_blocks = 0, ann_failures = 0 \<rparr>)"

definition SetFirstPull :: "FirstPull option \<Rightarrow> Producer \<Rightarrow> Producer" where
  "SetFirstPull f p = p \<lparr> ann_firstPull := f \<rparr>"

text \<open>
  \<open>produce\<close>: \<open>acked\<close> is the broker's answer to a record.  The records sent are
  returned with the outcome.
\<close>

definition produce :: "protowire \<Rightarrow> (string \<times> bytes \<Rightarrow> bool) \<Rightarrow> time \<Rightarrow> string \<Rightarrow> string \<Rightarrow> Message \<Rightarrow> Producer \<Rightarrow>
    announce_error option \<times> (string \<times> bytes) list \<times> Producer" where
  "produce P acked now topic cls m p =
     (if topic = [] then (Some EmptyTopic, [], p)
      else let r = (topic, Message_Encode P m) in
        if \<not> acked r then (Some ProduceError, [r], p)
        else (None, [r], p \<lparr> ann_firstPull := Announced now (msg_Hash m) cls (ann_firstPull p) \<rparr>))"

definition announce_Subtree :: "protowire \<Rightarrow> (string \<times> bytes \<Rightarrow> bool) \<Rightarrow> time \<Rightarrow> string \<Rightarrow> string \<Rightarrow> Producer \<Rightarrow>
    announce_error option \<times> (string \<times> bytes) list \<times> Producer" where
  "announce_Subtree P acked now hash baseURL p =
     (case produce P acked now (SubtreeTopic (ann_cfg p)) ''subtree''
             \<lparr> msg_Hash = hash, msg_URL = baseURL, msg_PeerID = PeerID (ann_cfg p) \<rparr> p of
        (Some e, rs, p) \<Rightarrow> (Some e, rs, p \<lparr> ann_failures := ann_failures p + 1 \<rparr>)
      | (None, rs, p) \<Rightarrow> (None, rs, p \<lparr> ann_subtrees := ann_subtrees p + 1 \<rparr>))"

definition announce_Block :: "protowire \<Rightarrow> (string \<times> bytes \<Rightarrow> bool) \<Rightarrow> time \<Rightarrow> string \<Rightarrow> string \<Rightarrow> Producer \<Rightarrow>
    announce_error option \<times> (string \<times> bytes) list \<times> Producer" where
  "announce_Block P acked now hash baseURL p =
     (case produce P acked now (BlockTopic (ann_cfg p)) ''block''
             \<lparr> msg_Hash = hash, msg_URL = baseURL, msg_PeerID = PeerID (ann_cfg p) \<rparr> p of
        (Some e, rs, p) \<Rightarrow> (Some e, rs, p \<lparr> ann_failures := ann_failures p + 1 \<rparr>)
      | (None, rs, p) \<Rightarrow> (None, rs, p \<lparr> ann_blocks := ann_blocks p + 1 \<rparr>))"

record announce_Stats =
  as_Subtrees :: nat
  as_Blocks :: nat
  as_Failures :: nat
  as_Buffered :: int
  as_AwaitingPull :: nat

definition announce_Stats_of :: "int \<Rightarrow> Producer \<Rightarrow> announce_Stats" where
  "announce_Stats_of buffered p =
     \<lparr> as_Subtrees = ann_subtrees p, as_Blocks = ann_blocks p, as_Failures = ann_failures p,
       as_Buffered = buffered, as_AwaitingPull = FirstPull_Len (ann_firstPull p) \<rparr>"

section \<open>Round trip\<close>

lemma protowire_lawsD:
  assumes "protowire_laws P"
  shows "field_number num \<Longrightarrow>
      pw_consume_tag P (pw_tag P num BytesType @ rest) = Some (num, BytesType, length (pw_tag P num BytesType))"
    and "pw_consume_string P (pw_string P s @ rest) = Some (s, length (pw_string P s))"
    and "field_number num \<Longrightarrow> pw_tag P num BytesType \<noteq> []"
  using assms by (simp_all add: protowire_laws_def)

lemma decode_append_field:
  assumes P: "protowire_laws P" and num: "field_number num" and n: "length (append_field P num v @ rest) \<le> n"
  shows "\<exists>n' \<ge> length rest. decode_fields P n (append_field P num v @ rest) m =
     decode_fields P n' rest (if v = [] then m else set_field num v m)"
proof (cases "v = []")
  case True
  then show ?thesis using n by (auto simp: append_field_def)
next
  case False
  obtain x xs where t: "pw_tag P num BytesType = x # xs"
    using protowire_lawsD(3) [OF P num] by (cases "pw_tag P num BytesType") auto
  then obtain k where k: "n = Suc k" "length rest \<le> k"
    using n False by (cases n) (auto simp: append_field_def)
  have "decode_fields P n (append_field P num v @ rest) m = decode_fields P k rest (set_field num v m)"
    by (simp add: False k append_field_def num protowire_lawsD [OF P])
  then show ?thesis using False k(2) by auto
qed

lemma decode_encode:
  assumes P: "protowire_laws P"
  shows "Message_Decode P (Message_Encode P m) = Some m"
proof -
  have num: "field_number 1" "field_number 2" "field_number 3" by (simp_all add: field_number_def)
  let ?z = "\<lparr> msg_Hash = [], msg_URL = [], msg_PeerID = [] \<rparr>"
  let ?f = "\<lambda>num v m. if v = [] then m else set_field num v m"
  let ?r3 = "append_field P 3 (msg_PeerID m)"
  let ?r2 = "append_field P 2 (msg_URL m) @ ?r3"
  obtain n1 where 1: "length ?r2 \<le> n1" "Message_Decode P (Message_Encode P m) =
      decode_fields P n1 ?r2 (?f 1 (msg_Hash m) ?z)"
    using decode_append_field [OF P num(1) order_refl, where v = "msg_Hash m" and rest = ?r2 and m = ?z]
    by (auto simp: Message_Decode_def Message_Encode_def)
  obtain n2 where 2: "length ?r3 \<le> n2"
      "decode_fields P n1 ?r2 (?f 1 (msg_Hash m) ?z) = decode_fields P n2 ?r3 (?f 2 (msg_URL m) (?f 1 (msg_Hash m) ?z))"
    using decode_append_field [OF P num(2) 1(1), where m = "?f 1 (msg_Hash m) ?z"] by auto
  obtain n3 where 3:
      "decode_fields P n2 ?r3 (?f 2 (msg_URL m) (?f 1 (msg_Hash m) ?z)) =
       decode_fields P n3 [] (?f 3 (msg_PeerID m) (?f 2 (msg_URL m) (?f 1 (msg_Hash m) ?z)))"
    using decode_append_field [OF P num(3), where v = "msg_PeerID m" and rest = "[]" and n = n2
        and m = "?f 2 (msg_URL m) (?f 1 (msg_Hash m) ?z)"] 2(1) by auto
  have "decode_fields P n3 [] x = Some x" for x by (cases n3) simp_all
  moreover have "?f 3 (msg_PeerID m) (?f 2 (msg_URL m) (?f 1 (msg_Hash m) ?z)) = m"
    by (cases m) (simp add: set_field_def)
  ultimately show ?thesis using 1 2 3 by simp
qed

section \<open>Properties\<close>

text \<open>
  Announcement round trip: the wire form of a message decodes to the same
  message, empty fields included, given the wire primitives' laws.
\<close>

theorem message_roundtrip:
  assumes "protowire_laws P"
  shows "Message_Decode P (Message_Encode P m) = Some m"
  using assms by (rule decode_encode)

text \<open>A concrete wire: one tag byte, then the length in unary and the characters.\<close>

definition unary_string :: "bytes \<Rightarrow> (string \<times> nat) option" where
  "unary_string b =
     (let n = length (takeWhile (\<lambda>x. x = 1) b)
      in Some (map (\<lambda>x. char_of (unat x)) (take n (drop (n + 1) b)), 2 * n + 1))"

definition sample_wire :: protowire where
  "sample_wire =
     \<lparr> pw_tag = (\<lambda>num typ. replicate num 1 @ [0]),
       pw_string = (\<lambda>s. replicate (length s) 1 @ [0] @ map (\<lambda>ch. of_nat (of_char ch)) s),
       pw_consume_tag = (\<lambda>b. let n = length (takeWhile (\<lambda>x. x = 1) b) in Some (n, BytesType, n + 1)),
       pw_consume_string = unary_string,
       pw_consume_value = (\<lambda>num typ b. None) \<rparr>"

lemma takeWhile_ones: "takeWhile (\<lambda>x. x = (1 :: byte)) (replicate n 1 @ 0 # rest) = replicate n 1"
  by (induction n) simp_all

lemma char_byte: "char_of (unat (of_nat (of_char ch) :: byte)) = ch"
proof -
  have "(of_char ch :: nat) < 256" using nat_of_char_less_256 .

  then have "unat (of_nat (of_char ch) :: byte) = of_char ch" by (simp add: unat_of_nat)
  then show ?thesis by (simp only: char_of_char)
qed

lemma sample_wire_laws: "protowire_laws sample_wire"
  by (simp add: protowire_laws_def sample_wire_def unary_string_def takeWhile_ones Let_def comp_def char_byte)

theorem message_roundtrip_witness:
  "Message_Decode sample_wire (Message_Encode sample_wire \<lparr> msg_Hash = ''ab'', msg_URL = [], msg_PeerID = ''p'' \<rparr>)
     = Some \<lparr> msg_Hash = ''ab'', msg_URL = [], msg_PeerID = ''p'' \<rparr>"
  by (rule message_roundtrip [OF sample_wire_laws])

text \<open>
  One announcement, one outcome.  A block announcement reports success
  exactly when the block topic is configured and the broker acknowledged the
  record; then one record was sent, its value decodes to the hash, the base URL
  and the configured peer identity, and only the block counter moved.  Otherwise
  only the failure counter moved and the pull tracker is untouched.
\<close>

theorem announce_block_outcome:
  assumes "protowire_laws P" and "announce_Block P acked now h url p = (e, rs, p')"
  shows "(if e = None then
      (\<exists>v. rs = [(BlockTopic (ann_cfg p), v)] \<and> acked (BlockTopic (ann_cfg p), v) \<and>
           Message_Decode P v = Some \<lparr> msg_Hash = h, msg_URL = url, msg_PeerID = PeerID (ann_cfg p) \<rparr>) \<and>
      p' = p \<lparr> ann_blocks := ann_blocks p + 1, ann_firstPull := Announced now h ''block'' (ann_firstPull p) \<rparr>
    else p' = p \<lparr> ann_failures := ann_failures p + 1 \<rparr> \<and>
      (BlockTopic (ann_cfg p) = [] \<and> rs = [] \<or> (\<exists>r. rs = [r] \<and> \<not> acked r)))"
  using assms(2) decode_encode [OF assms(1)]
  by (auto simp: announce_Block_def produce_def Let_def split: if_splits)

definition sample_producer :: Producer where
  "sample_producer =
     \<lparr> ann_cfg = \<lparr> Brokers = [''b''], SubtreeTopic = ''subtrees'', BlockTopic = ''blocks'', PeerID = ''peer'', ann_Timeout = second \<rparr>,
       ann_firstPull = None, ann_subtrees = 0, ann_blocks = 0, ann_failures = 0 \<rparr>"

theorem announce_block_outcome_witness:
  "\<exists>v. Message_Decode sample_wire v = Some \<lparr> msg_Hash = ''ab'', msg_URL = ''u'', msg_PeerID = ''peer'' \<rparr>"
proof -
  obtain rs p' where "announce_Block sample_wire (\<lambda>r. True) 0 ''ab'' ''u'' sample_producer = (None, rs, p')"
    by (simp add: announce_Block_def produce_def sample_producer_def)
  from announce_block_outcome [OF sample_wire_laws this] show ?thesis
    by (auto simp: sample_producer_def)
qed

end
