(* ===== verification/Generational.thy ===== *)
theory Generational
  imports Cache
begin

text \<open>
  The package \<open>cache\<close>, file \<open>generational.go\<close>: the two-generation transaction
  cache, whose admission is also the transaction lane's re-delivery check.  A
  nil cache is \<open>None\<close>.  The lemmas show which admissions are refused, how long
  an admitted transaction keeps suppressing its re-deliveries, what the byte
  counters mean and how large they can get, and that the cache satisfies the
  store contract.
\<close>

record gshard =
  g_cur :: "(hash, bytes) gomap"
  g_prev :: "(hash, bytes) gomap"
  g_curBytes :: int
  g_prevBytes :: int
  g_maxBytes :: int
  g_ttl :: duration
  g_rotated :: time
  g_stored :: nat
  g_hits :: nat
  g_misses :: nat
  g_evicted :: nat
  g_duplicates :: nat

type_synonym Generational = "gshard list"

definition NewGenerational :: "cache_Options \<Rightarrow> time \<Rightarrow> Generational" where
  "NewGenerational o' start =
     (let mb = (if MaxBytes o' \<le> 0 then 2 ^ 30 else MaxBytes o');
          ttl = (if TTL o' \<le> 0 then 10 * minute else TTL o');
          per = mb div 64 div 2;
          per' = (if per \<le> 0 then 1 else per)
      in replicate shards
           \<lparr> g_cur = [], g_prev = [], g_curBytes = 0, g_prevBytes = 0, g_maxBytes = per',
             g_ttl = ttl, g_rotated = start, g_stored = 0, g_hits = 0, g_misses = 0,
             g_evicted = 0, g_duplicates = 0 \<rparr>)"

definition g_rotateLocked :: "time \<Rightarrow> gshard \<Rightarrow> gshard" where
  "g_rotateLocked now s =
     s\<lparr> g_evicted := g_evicted s + length (g_prev s),
        g_prev := g_cur s,
        g_prevBytes := g_curBytes s,
        g_cur := [],
        g_curBytes := 0,
        g_rotated := now \<rparr>"

definition g_maybeRotate :: "time \<Rightarrow> gshard \<Rightarrow> gshard" where
  "g_maybeRotate now s =
     (if now - g_rotated s \<ge> g_ttl s div 2 \<or> g_curBytes s \<ge> g_maxBytes s
      then g_rotateLocked now s else s)"

definition admit_shard :: "hash \<Rightarrow> bytes \<Rightarrow> gshard \<Rightarrow> bool \<times> gshard" where
  "admit_shard key body s =
     (if map_of (g_prev s) key \<noteq> None then (False, s\<lparr> g_duplicates := g_duplicates s + 1 \<rparr>)
      else
        let n = length (g_cur s); s' = s\<lparr> g_cur := AList.update key body (g_cur s) \<rparr>
        in if length (g_cur s') = n then (False, s'\<lparr> g_duplicates := g_duplicates s + 1 \<rparr>)
           else (True, s'\<lparr> g_curBytes := g_curBytes s + int (length body),
                           g_stored := g_stored s + 1 \<rparr>))"

definition Admit :: "time \<Rightarrow> hash \<Rightarrow> bytes \<Rightarrow> Generational option \<Rightarrow> bool \<times> Generational option" where
  "Admit now key body go =
     (case go of
        None \<Rightarrow> (True, None)
      | Some g \<Rightarrow>
          let res = admit_shard key body (g_maybeRotate now (shardOf g key))
          in (fst res, Some (set_shard g key (snd res))))"

definition gen_PutOwned :: "time \<Rightarrow> hash \<Rightarrow> bytes \<Rightarrow> Generational option \<Rightarrow> Generational option" where
  "gen_PutOwned now key body go = (case go of None \<Rightarrow> None | Some g \<Rightarrow> snd (Admit now key body go))"

definition gen_Put :: "time \<Rightarrow> hash \<Rightarrow> bytes \<Rightarrow> Generational option \<Rightarrow> Generational option" where
  "gen_Put now key body go = (case go of None \<Rightarrow> None | Some g \<Rightarrow> gen_PutOwned now key body go)"

definition gget_shard :: "hash \<Rightarrow> gshard \<Rightarrow> bytes option \<times> gshard" where
  "gget_shard key s =
     (case map_of (g_cur s) key of
        Some b \<Rightarrow> (Some b, s\<lparr> g_hits := g_hits s + 1 \<rparr>)
      | None \<Rightarrow>
          (case map_of (g_prev s) key of
             Some b \<Rightarrow> (Some b, s\<lparr> g_hits := g_hits s + 1 \<rparr>)
           | None \<Rightarrow> (None, s\<lparr> g_misses := g_misses s + 1 \<rparr>)))"

text \<open>The class of every entry is \<open>tx\<close>.\<close>

definition gen_Get :: "hash \<Rightarrow> Generational option \<Rightarrow> (bytes \<times> string) option \<times> Generational option" where
  "gen_Get key go =
     (case go of
        None \<Rightarrow> (None, None)
      | Some g \<Rightarrow>
          let res = gget_shard key (shardOf g key)
          in (map_option (\<lambda>b. (b, ''tx'')) (fst res), Some (set_shard g key (snd res))))"

definition gen_Has :: "hash \<Rightarrow> Generational option \<Rightarrow> bool" where
  "gen_Has key go =
     (case go of
        None \<Rightarrow> False
      | Some g \<Rightarrow> map_of (g_cur (shardOf g key)) key \<noteq> None \<or> map_of (g_prev (shardOf g key)) key \<noteq> None)"

definition gen_Stats_of :: "Generational option \<Rightarrow> cache_Stats" where
  "gen_Stats_of go =
     (let g = (case go of None \<Rightarrow> [] | Some g \<Rightarrow> g)
      in \<lparr> cst_Entries = sum_list (map (\<lambda>s. length (g_cur s) + length (g_prev s)) g),
           cst_Bytes = sum_list (map (\<lambda>s. g_curBytes s + g_prevBytes s) g),
           cst_MaxBytes = sum_list (map (\<lambda>s. g_maxBytes s * 2) g),
           cst_Stored = sum_list (map g_stored g),
           cst_Hits = sum_list (map g_hits g),
           cst_Misses = sum_list (map g_misses g),
           cst_Evicted = sum_list (map g_evicted g),
           cst_Expired = 0,
           cst_Duplicates = sum_list (map g_duplicates g) \<rparr>)"

section \<open>Invariant\<close>

definition gshard_ok :: "int \<Rightarrow> duration \<Rightarrow> gshard \<Rightarrow> bool" where
  "gshard_ok mb ttl s \<longleftrightarrow>
     gomap_ok (g_cur s) \<and> gomap_ok (g_prev s) \<and> g_maxBytes s = mb \<and> g_ttl s = ttl"

text \<open>The disabled cache is trivially well formed.\<close>

definition gen_ok :: "int \<Rightarrow> duration \<Rightarrow> Generational option \<Rightarrow> bool" where
  "gen_ok mb ttl go \<longleftrightarrow> (case go of None \<Rightarrow> True | Some g \<Rightarrow> all_shards (gshard_ok mb ttl) g)"

definition gshard_held :: "hash \<Rightarrow> gshard \<Rightarrow> bytes option" where
  "gshard_held key s =
     (case map_of (g_cur s) key of Some b \<Rightarrow> Some b | None \<Rightarrow> map_of (g_prev s) key)"

definition gen_held :: "hash \<Rightarrow> Generational option \<Rightarrow> bytes option" where
  "gen_held key go = (case go of None \<Rightarrow> None | Some g \<Rightarrow> gshard_held key (shardOf g key))"

lemma gshard_ok_rotate: "gshard_ok mb ttl s \<Longrightarrow> gshard_ok mb ttl (g_maybeRotate now s)"
  by (auto simp: gshard_ok_def g_maybeRotate_def g_rotateLocked_def)

lemma gshard_ok_admit: "gshard_ok mb ttl s \<Longrightarrow> gshard_ok mb ttl (snd (admit_shard key body s))"
  by (auto simp: gshard_ok_def admit_shard_def Let_def)

lemma gen_ok_Admit: "gen_ok mb ttl go \<Longrightarrow> gen_ok mb ttl (snd (Admit now key body go))"
  by (auto simp: gen_ok_def Admit_def Let_def split: option.splits
      intro: all_shards_update gshard_ok_admit gshard_ok_rotate)

lemma gen_ok_Get: "gen_ok mb ttl go \<Longrightarrow> gen_ok mb ttl (snd (gen_Get key go))"
proof -
  have "gshard_ok mb ttl s \<Longrightarrow> gshard_ok mb ttl (snd (gget_shard key s))" for s
    by (auto simp: gget_shard_def gshard_ok_def split: option.splits)
  then show "gen_ok mb ttl go \<Longrightarrow> gen_ok mb ttl (snd (gen_Get key go))"
    by (auto simp: gen_ok_def gen_Get_def Let_def split: option.splits intro: all_shards_update)
qed

lemma gen_ok_length: "gen_ok mb ttl (Some g) \<Longrightarrow> length g = shards"
  by (simp add: gen_ok_def all_shards_length)

section \<open>Admission\<close>

lemma admit_shard_fresh_iff:
  "gomap_ok (g_cur s) \<Longrightarrow>
   fst (admit_shard key body s) \<longleftrightarrow> map_of (g_cur s) key = None \<and> map_of (g_prev s) key = None"
  by (auto simp: admit_shard_def Let_def length_update map_of_eq_None_iff split: if_splits)

lemma rotate_held_sub: "gshard_held k (g_maybeRotate now s) = Some b \<Longrightarrow> gshard_held k s = Some b"
  by (auto simp: gshard_held_def g_maybeRotate_def g_rotateLocked_def split: option.splits if_splits)

lemma admit_held:
  "gshard_held k (snd (admit_shard key body s)) = Some b \<Longrightarrow>
   gshard_held k s = Some b \<or> (k = key \<and> b = body)"
  by (auto simp: gshard_held_def admit_shard_def Let_def map_of_update split: option.splits if_splits)

lemma admit_holds: "gshard_held key (snd (admit_shard key body s)) \<noteq> None"
  by (auto simp: gshard_held_def admit_shard_def Let_def map_of_update split: option.splits)

lemma gget_shard_fst: "fst (gget_shard key s) = gshard_held key s"
  by (simp add: gget_shard_def gshard_held_def split: option.splits)

lemma gget_shard_held: "gshard_held k (snd (gget_shard key s)) = gshard_held k s"
  by (simp add: gget_shard_def gshard_held_def split: option.splits)

abbreviation gen_put :: "time \<Rightarrow> hash \<Rightarrow> bytes \<Rightarrow> Generational option \<Rightarrow> Generational option" where
  "gen_put t k b go \<equiv> snd (Admit t k b go)"

abbreviation gen_get :: "time \<Rightarrow> hash \<Rightarrow> Generational option \<Rightarrow> bytes option \<times> Generational option" where
  "gen_get t k go \<equiv> (map_option fst (fst (gen_Get k go)), snd (gen_Get k go))"

interpretation gen: object_store gen_put gen_get gen_held "gen_ok mb ttl"
proof
  fix s :: "Generational option" and t k v
  assume ok: "gen_ok mb ttl s"
  show "gen_ok mb ttl (gen_put t k v s)" using ok by (rule gen_ok_Admit)
  show "gen_ok mb ttl (snd (gen_get t k s))" using ok by (simp add: gen_ok_Get)
  show "gen_held k s = Some v" if "fst (gen_get t k s) = Some v"
    using that by (auto simp: gen_Get_def gen_held_def Let_def gget_shard_fst split: option.splits)
  show "gen_held k' s = Some v" if "gen_held k' (snd (gen_get t k s)) = Some v" for k'
  proof (cases s)
    case (Some g)
    have len: "length g = shards" using ok Some by (auto intro: gen_ok_length)
    have "gshard_held k' (shardOf (set_shard g k (snd (gget_shard k (shardOf g k)))) k') =
        gshard_held k' (shardOf g k')"
      using shardOf_cong [of k' k g] by (auto simp: shardOf_set_shard len gget_shard_held)
    with that Some show ?thesis by (simp add: gen_Get_def gen_held_def Let_def)
  qed (use that in \<open>simp add: gen_Get_def gen_held_def\<close>)
  show "gen_held k' s = Some v' \<or> (k' = k \<and> v' = v)"
    if "gen_held k' (gen_put t k v s) = Some v'" for k' v'
  proof (cases s)
    case (Some g)
    have len: "length g = shards" using ok Some by (auto intro: gen_ok_length)
    show ?thesis
    proof (cases "shard_index k' = shard_index k")
      case True
      with that Some len show ?thesis
        by (auto simp: Admit_def gen_held_def Let_def shardOf_set_shard shardOf_cong [OF True]
            dest!: admit_held rotate_held_sub)
    next
      case False
      with that Some len show ?thesis
        by (simp add: Admit_def gen_held_def Let_def shardOf_set_shard)
    qed
  qed (use that in \<open>simp add: Admit_def gen_held_def\<close>)
qed

section \<open>How long an admitted transaction suppresses its re-deliveries\<close>

fun run_admits :: "(time \<times> hash \<times> bytes) list \<Rightarrow> Generational option \<Rightarrow> Generational option" where
  "run_admits [] go = go"
| "run_admits ((now, key, body) # as) go = run_admits as (snd (Admit now key body go))"

definition gretained :: "time \<Rightarrow> hash \<Rightarrow> int \<Rightarrow> gshard \<Rightarrow> bool" where
  "gretained t0 k n s \<longleftrightarrow>
     map_of (g_cur s) k \<noteq> None \<or>
     (map_of (g_prev s) k \<noteq> None \<and> t0 \<le> g_rotated s \<and> g_curBytes s \<le> n)"

lemma gretained_rotate:
  assumes "gretained t0 k n s" and "t0 \<le> now" and "now < t0 + g_ttl s div 2"
    and "n < g_maxBytes s" and "0 \<le> n"
  shows "gretained t0 k n (g_maybeRotate now s)"
  using assms by (auto simp: gretained_def g_maybeRotate_def g_rotateLocked_def)

lemma gretained_admit:
  "gretained t0 k n s \<Longrightarrow> gretained t0 k (n + int (length body)) (snd (admit_shard key body s))"
  by (auto simp: gretained_def admit_shard_def Let_def map_of_update)

lemma gretained_mono: "gretained t0 k n s \<Longrightarrow> n \<le> m \<Longrightarrow> gretained t0 k m s"
  by (auto simp: gretained_def)

lemma gretained_held: "gretained t0 k n s \<Longrightarrow> gshard_held k s \<noteq> None"
  by (auto simp: gretained_def gshard_held_def split: option.splits)

lemma gretained_Admit:
  assumes "gen_ok mb ttl (Some g)" and "gretained t0 k n (shardOf g k)"
    and "t0 \<le> now" and "now < t0 + ttl div 2" and "n < mb" and "0 \<le> n"
  shows "\<exists>g'. snd (Admit now key body (Some g)) = Some g' \<and> gen_ok mb ttl (Some g') \<and>
     gretained t0 k (n + int (length body)) (shardOf g' k)"
proof -
  let ?g = "set_shard g key (snd (admit_shard key body (g_maybeRotate now (shardOf g key))))"
  have len: "length g = shards" using assms(1) by (rule gen_ok_length)
  have res: "snd (Admit now key body (Some g)) = Some ?g" by (simp add: Admit_def Let_def)
  have sh: "g_ttl (shardOf g k) = ttl" "g_maxBytes (shardOf g k) = mb" for k
    using all_shards_shardOf [of "gshard_ok mb ttl" g k] assms(1)
    by (simp_all add: gen_ok_def gshard_ok_def)
  have "gretained t0 k (n + int (length body)) (shardOf ?g k)"
  proof (cases "shard_index k = shard_index key")
    case True
    with assms sh show ?thesis
      by (simp add: shardOf_set_shard len shardOf_cong [OF True] gretained_admit gretained_rotate)
  next
    case False
    with assms(2) show ?thesis by (auto simp: shardOf_set_shard len intro: gretained_mono)
  qed
  with res gen_ok_Admit [OF assms(1), of now key body] show ?thesis by simp
qed

lemma gretained_run:
  "gen_ok mb ttl (Some g) \<Longrightarrow> gretained t0 k n (shardOf g k) \<Longrightarrow> 0 \<le> n \<Longrightarrow>
   \<forall>(now, key, body) \<in> set as. t0 \<le> now \<and> now < t0 + ttl div 2 \<Longrightarrow>
   n + sum_list (map (\<lambda>(_, _, body). int (length body)) as) < mb \<Longrightarrow>
   \<exists>g' n'. run_admits as (Some g) = Some g' \<and> gen_ok mb ttl (Some g') \<and>
     gretained t0 k n' (shardOf g' k) \<and> 0 \<le> n' \<and> n' < mb"
proof (induction as arbitrary: g n)
  case Nil
  then show ?case by auto
next
  case (Cons a as)
  obtain now key body where a: "a = (now, key, body)" by (cases a)
  have nonneg: "0 \<le> sum_list (map (\<lambda>(_, _, body). int (length body)) as)"
    by (rule sum_list_nonneg) auto
  with Cons.prems a have "n < mb" by simp
  with Cons.prems a obtain g' where g': "snd (Admit now key body (Some g)) = Some g'"
    "gen_ok mb ttl (Some g')" "gretained t0 k (n + int (length body)) (shardOf g' k)"
    using gretained_Admit [OF Cons.prems(1,2), of now key body] by auto
  with Cons.IH [OF g'(2,3)] Cons.prems a show ?case by simp
qed

section \<open>Byte counters\<close>

abbreviation blen :: "bytes \<Rightarrow> int" where
  "blen b \<equiv> int (length b)"

text \<open>With bodies determined by their key (\<open>f\<close>), the counters are the sizes of the two maps.\<close>

definition gshard_bytes :: "(hash \<Rightarrow> bytes) \<Rightarrow> int \<Rightarrow> gshard \<Rightarrow> bool" where
  "gshard_bytes f m s \<longleftrightarrow>
     gomap_ok (g_cur s) \<and> (\<forall>k b. map_of (g_cur s) k = Some b \<longrightarrow> b = f k) \<and>
     g_curBytes s = gsum blen (g_cur s) \<and> g_prevBytes s = gsum blen (g_prev s) \<and>
     0 < g_maxBytes s \<and> 0 \<le> m \<and> g_curBytes s < g_maxBytes s + m \<and> g_prevBytes s < g_maxBytes s + m"

lemma gshard_bytes_admit:
  assumes "gshard_bytes f m s" and "body = f key" and "blen body \<le> m"
  shows "gshard_bytes f m (snd (admit_shard key body (g_maybeRotate now s)))"
proof -
  let ?r = "g_maybeRotate now s"
  have r: "gshard_bytes f m ?r" and lt: "g_curBytes ?r < g_maxBytes ?r"
    using assms(1) by (auto simp: gshard_bytes_def g_maybeRotate_def g_rotateLocked_def)
  show ?thesis
  proof (cases "map_of (g_cur ?r) key")
    case None
    with r lt assms(2,3) show ?thesis
      by (auto simp: gshard_bytes_def admit_shard_def Let_def length_update gsum_update_fresh
          map_of_update map_of_None_key [symmetric] simp del: map_of_eq_Some_iff split: if_splits)
  next
    case (Some b)
    then have "key \<in> fst ` set (g_cur ?r)" by (rule map_of_Some_key)
    with r Some assms(2) show ?thesis
      by (auto simp: gshard_bytes_def admit_shard_def Let_def length_update
          gsum_update_same map_of_update simp del: map_of_eq_Some_iff split: if_splits)
  qed
qed

lemma gen_bytes_run:
  "all_shards (gshard_bytes f m) g \<Longrightarrow>
   \<forall>(now, key, body) \<in> set as. body = f key \<and> blen body \<le> m \<Longrightarrow>
   \<exists>g'. run_admits as (Some g) = Some g' \<and> all_shards (gshard_bytes f m) g'"
proof (induction as arbitrary: g)
  case (Cons a as)
  obtain now key body where a: "a = (now, key, body)" by (cases a)
  have "all_shards (gshard_bytes f m)
      (set_shard g key (snd (admit_shard key body (g_maybeRotate now (shardOf g key)))))"
    using Cons.prems a by (auto intro: all_shards_update gshard_bytes_admit)
  with Cons.IH Cons.prems a show ?case by (simp add: Admit_def Let_def)
qed simp

lemma g_maxBytes_admit [simp]:
  "g_maxBytes (snd (admit_shard key body (g_maybeRotate now s))) = g_maxBytes s"
  by (simp add: admit_shard_def g_maybeRotate_def g_rotateLocked_def Let_def)

lemma gen_ok_New:
  "128 \<le> MaxBytes opts \<Longrightarrow>
   gen_ok (MaxBytes opts div 128) (if TTL opts \<le> 0 then 10 * minute else TTL opts)
     (Some (NewGenerational opts start))"
proof -
  assume a: "128 \<le> MaxBytes opts"
  have "MaxBytes opts div 64 div 2 = MaxBytes opts div 128" by (simp add: zdiv_zmult2_eq [symmetric])
  with a show ?thesis
    by (auto simp: gen_ok_def NewGenerational_def Let_def gshard_ok_def intro!: all_shards_replicate)
qed

lemma gen_ok_run: "gen_ok mb ttl go \<Longrightarrow> gen_ok mb ttl (run_admits as go)"
  by (induction as go rule: run_admits.induct) (auto intro: gen_ok_Admit)

section \<open>Properties\<close>

lemma admit_shard_True_cur: "fst (admit_shard key body s) \<Longrightarrow> map_of (g_cur (snd (admit_shard key body s))) key = Some body"
  by (auto simp: admit_shard_def Let_def map_of_update split: if_splits)

text \<open>
  C23: a transaction admitted as new at \<open>t0\<close> is recognised as a duplicate when
  it is delivered again less than half the time-to-live later, whatever else
  was admitted meanwhile, as long as that is less than one generation's byte
  budget; and it can be served to the cluster throughout.
\<close>

theorem gen_redelivery_suppressed:
  assumes "gen_ok mb ttl (Some g)" and "fst (Admit t0 k b (Some g))"
    and "\<forall>(now, key, body) \<in> set as. t0 \<le> now \<and> now < t0 + ttl div 2"
    and "sum_list (map (\<lambda>(_, _, body). int (length body)) as) < mb"
    and "t0 \<le> t" and "t < t0 + ttl div 2"
  shows "\<not> fst (Admit t k b' (run_admits as (snd (Admit t0 k b (Some g))))) \<and>
     fst (gen_Get k (run_admits as (snd (Admit t0 k b (Some g))))) \<noteq> None"
proof -
  have len: "length g = shards" using assms(1) by (rule gen_ok_length)
  let ?g1 = "set_shard g k (snd (admit_shard k b (g_maybeRotate t0 (shardOf g k))))"
  have g1: "snd (Admit t0 k b (Some g)) = Some ?g1" by (simp add: Admit_def Let_def)
  have "gretained t0 k 0 (shardOf ?g1 k)"
    using assms(2) by (simp add: gretained_def len Admit_def Let_def admit_shard_True_cur)
  then obtain g' n' where g': "run_admits as (Some ?g1) = Some g'" "gen_ok mb ttl (Some g')"
    and ret: "gretained t0 k n' (shardOf g' k)" "0 \<le> n'" "n' < mb"
    using gretained_run [of mb ttl ?g1 t0 k 0 as] gen_ok_Admit [OF assms(1), of t0 k b] g1 assms(3,4)
    by auto
  have ok: "gshard_ok mb ttl (shardOf g' k)" using g'(2) by (simp add: gen_ok_def all_shards_shardOf)
  then have "gretained t0 k n' (g_maybeRotate t (shardOf g' k))"
    using ret assms(5,6) by (simp add: gretained_rotate gshard_ok_def)
  then have "\<not> fst (admit_shard k b' (g_maybeRotate t (shardOf g' k)))"
    using gshard_ok_rotate [OF ok, of t] by (auto simp: admit_shard_fresh_iff gshard_ok_def gretained_def)
  with g1 g'(1) gretained_held [OF ret(1)] show ?thesis
    by (auto simp: Admit_def gen_Get_def Let_def gget_shard_fst)
qed

theorem gen_redelivery_suppressed_witness:
  "\<not> fst (Admit 9 [1] [5] (run_admits [(3, [65], [7, 7])]
      (snd (Admit 0 [1] [5] (Some (NewGenerational \<lparr> MaxBytes = 1280, TTL = 20 \<rparr> 0))))))"
proof -
  let ?g = "NewGenerational \<lparr> MaxBytes = 1280, TTL = 20 \<rparr> 0"
  have ok: "gen_ok 10 20 (Some ?g)"
    using gen_ok_New [of "\<lparr> MaxBytes = 1280, TTL = 20 \<rparr>" 0] by simp
  have fresh: "fst (Admit 0 [1] [5] (Some ?g))"
    by (simp add: Admit_def Let_def NewGenerational_def admit_shard_def g_maybeRotate_def)
  show ?thesis
    using gen_redelivery_suppressed [OF ok fresh, of "[(3, [65], [7, 7])]" 9 "[5]"] by simp
qed

text \<open>
  when every key is always admitted with the same body, the byte counters
  of each shard are the sizes of its two generations, and the live total of a
  cache built for \<open>MaxBytes\<close> is bounded by that ceiling plus one largest
  object per generation and shard: the rotation check runs before the insert.
\<close>

theorem gen_live_bytes:
  assumes "128 \<le> MaxBytes opts" and "1 \<le> m"
    and "\<forall>(now, key, body) \<in> set as. body = f key \<and> blen body \<le> m"
  shows "\<exists>g. run_admits as (Some (NewGenerational opts start)) = Some g \<and>
     (\<forall>s \<in> set g. g_curBytes s = gsum blen (g_cur s) \<and> g_prevBytes s = gsum blen (g_prev s)) \<and>
     cst_Bytes (gen_Stats_of (Some g)) \<le> MaxBytes opts + 128 * (m - 1)"
proof -
  let ?ttl = "if TTL opts \<le> 0 then 10 * minute else TTL opts" and ?mb = "MaxBytes opts div 128"
  have "MaxBytes opts div 64 div 2 = ?mb" by (simp add: zdiv_zmult2_eq [symmetric])
  with assms(1,2) have "all_shards (gshard_bytes f m) (NewGenerational opts start)"
    by (auto simp: NewGenerational_def Let_def gshard_bytes_def intro!: all_shards_replicate)
  then obtain g where g: "run_admits as (Some (NewGenerational opts start)) = Some g"
    and bytes: "all_shards (gshard_bytes f m) g"
    using gen_bytes_run [OF _ assms(3)] by blast
  have "gen_ok ?mb ?ttl (Some g)" using gen_ok_run [OF gen_ok_New [OF assms(1)]] g by metis
  then have mx: "\<forall>s \<in> set g. g_maxBytes s = ?mb" and len: "length g = 64"
    by (simp_all add: gen_ok_def all_shards_def gshard_ok_def shards_def)
  have "sum_list (map (\<lambda>s. g_curBytes s + g_prevBytes s) g) \<le> sum_list (map (\<lambda>_. 2 * (?mb + m - 1)) g)"
    using bytes mx by (intro sum_list_mono) (fastforce simp: all_shards_def gshard_bytes_def)
  also have "\<dots> = 128 * ?mb + 128 * (m - 1)"
    by (simp add: map_replicate_const sum_list_replicate len algebra_simps)
  also have "\<dots> \<le> MaxBytes opts + 128 * (m - 1)" by linarith
  finally show ?thesis
    using g bytes by (auto simp: gen_Stats_of_def Let_def all_shards_def gshard_bytes_def)
qed

theorem gen_live_bytes_witness:
  "\<exists>g. run_admits [(0, [1], [1, 1]), (1, [2], [2, 2])]
      (Some (NewGenerational \<lparr> MaxBytes = 128, TTL = 5 \<rparr> 0)) = Some g \<and>
     cst_Bytes (gen_Stats_of (Some g)) \<le> 256"
  using gen_live_bytes [of "\<lparr> MaxBytes = 128, TTL = 5 \<rparr>" 2
      "[(0, [1], [1, 1]), (1, [2], [2, 2])]" "\<lambda>k. [hd k, hd k]" 0] by auto

end
