(* ===== verification/Retrieval.thy ===== *)
theory Retrieval
  imports Tnwire Generational FirstPull
begin

text \<open>
  The package \<open>retrieval\<close>: the HTTP plane the cluster pulls announced objects
  from.  The handlers are written against the two store interfaces of the
  source; locales state what the handlers rely on, the handlers' guarantees are
  proved in them, and they are interpreted on the caches the bridge wires in.
\<close>

section \<open>Store interfaces\<close>

type_synonym 's getter = "time \<Rightarrow> hash \<Rightarrow> 's \<Rightarrow> (bytes \<times> string) option \<times> 's"

locale read_store =
  fixes get :: "'s getter" and held :: "hash \<Rightarrow> 's \<Rightarrow> (bytes \<times> string) option" and ok :: "'s \<Rightarrow> bool"
  assumes rs_ok: "ok s \<Longrightarrow> ok (snd (get t k s))"
    and rs_sound: "ok s \<Longrightarrow> fst (get t k s) = Some v \<Longrightarrow> held k s = Some v"
    and rs_keeps: "ok s \<Longrightarrow> held k' (snd (get t k s)) = Some v \<Longrightarrow> held k' s = Some v"

text \<open>A store whose entries neither expire on a read nor move.\<close>

locale exact_store = read_store +
  assumes es_get: "ok s \<Longrightarrow> fst (get t k s) = held k s"
    and es_keeps: "ok s \<Longrightarrow> held k' (snd (get t k s)) = held k' s"

section \<open>The server\<close>

record ('o, 't) Server =
  sv_prefix :: "string list"
  sv_objs :: 'o
  sv_txs :: 't
  sv_firstPull :: "FirstPull option"
  hitSubtree :: nat
  hitSubtreeData :: nat
  hitTxs :: nat
  hitBlock :: nat
  miss :: nat
  errs :: nat
  missRoute :: nat
  missChainSync :: nat

definition retrieval_APIPrefix :: "string \<Rightarrow> string" where
  "retrieval_APIPrefix prefix =
     ''/'' @ trim (CHR ''/'') (if prefix = [] then ''/api/v1'' else prefix)"

definition BaseURL :: "string \<Rightarrow> string \<Rightarrow> string" where
  "BaseURL prefix advertise = trim_right (CHR ''/'') advertise @ retrieval_APIPrefix prefix"

text \<open>What a handler answers; \<open>Crashed\<close> is a panic, which \<open>net/http\<close> turns into a dropped connection.\<close>

datatype http_reply = Served bytes | Refused int | Crashed

definition isPlaceholder :: "bytes \<Rightarrow> bool" where
  "isPlaceholder b = list_all (\<lambda>x. x = 0xFF) b"

definition toStandard :: "objfmt \<Rightarrow> bytes \<Rightarrow> bytes option" where
  "toStandard F raw = (if \<not> IsEF F raw then Some raw else ToStandard F raw)"

definition pulled :: "time \<Rightarrow> hash \<Rightarrow> ('o, 't) Server \<Rightarrow> ('o, 't) Server" where
  "pulled now h sv = sv \<lparr> sv_firstPull := snd (Pulled now (Display h) (sv_firstPull sv)) \<rparr>"

definition getSubtree :: "objfmt \<Rightarrow> 'o getter \<Rightarrow> time \<Rightarrow> string \<Rightarrow> ('o, 't) Server \<Rightarrow> http_reply \<times> ('o, 't) Server" where
  "getSubtree F geto now pv sv =
     (case ParseDisplay pv of
        Inl e \<Rightarrow> (Refused 400, sv)
      | Inr h \<Rightarrow>
          (case geto now h (sv_objs sv) of (r, o') \<Rightarrow>
           let sv = sv \<lparr> sv_objs := o' \<rparr> in
           case r of
             None \<Rightarrow> (Refused 404, sv \<lparr> miss := miss sv + 1 \<rparr>)
           | Some (obj, cls) \<Rightarrow>
               if length obj < SubtreeHeaderSize F then (Refused 500, sv \<lparr> errs := errs sv + 1 \<rparr>)
               else (Served (drop (SubtreeHeaderSize F) obj),
                     pulled now h (sv \<lparr> hitSubtree := hitSubtree sv + 1 \<rparr>))))"

text \<open>
  The member loop of the two transaction routes: the first transaction that is
  not held, or cannot be converted, ends it.
\<close>

datatype gather_end = NotHeld hash | Unconvertible

fun gather :: "objfmt \<Rightarrow> 't getter \<Rightarrow> time \<Rightarrow> bytes \<Rightarrow> hash list \<Rightarrow> 't \<Rightarrow> (gather_end, bytes) res \<times> 't" where
  "gather F gett now out [] st = (Inr out, st)"
| "gather F gett now out (k # ks) st =
     (case gett now k st of
        (None, st) \<Rightarrow> (Inl (NotHeld k), st)
      | (Some (raw, cls), st) \<Rightarrow>
          (case toStandard F raw of
             None \<Rightarrow> (Inl Unconvertible, st)
           | Some std \<Rightarrow> gather F gett now (out @ std) ks st))"

definition getSubtreeData :: "objfmt \<Rightarrow> 'o getter \<Rightarrow> 't getter \<Rightarrow> time \<Rightarrow> string \<Rightarrow> ('o, 't) Server \<Rightarrow>
    http_reply \<times> ('o, 't) Server" where
  "getSubtreeData F geto gett now pv sv =
     (case ParseDisplay pv of
        Inl e \<Rightarrow> (Refused 400, sv)
      | Inr h \<Rightarrow>
          (case geto now h (sv_objs sv) of (r, o') \<Rightarrow>
           let sv = sv \<lparr> sv_objs := o' \<rparr> in
           case r of
             None \<Rightarrow> (Refused 404, sv \<lparr> miss := miss sv + 1 \<rparr>)
           | Some (obj, cls) \<Rightarrow>
               if length obj < SubtreeHeaderSize F then (Crashed, sv)
               else
                 let nodes = drop (SubtreeHeaderSize F) obj;
                     members = filter (\<lambda>n. \<not> isPlaceholder n) (chunks32 (length nodes div 32) nodes)
                 in case gather F gett now [] members (sv_txs sv) of
                   (Inl (NotHeld k), t') \<Rightarrow> (Refused 404, sv \<lparr> sv_txs := t', miss := miss sv + 1 \<rparr>)
                 | (Inl Unconvertible, t') \<Rightarrow> (Refused 500, sv \<lparr> sv_txs := t', errs := errs sv + 1 \<rparr>)
                 | (Inr out, t') \<Rightarrow>
                     (Served out, pulled now h (sv \<lparr> sv_txs := t', hitSubtreeData := hitSubtreeData sv + 1 \<rparr>))))"

text \<open>\<open>io.ReadAll(io.LimitReader(r.Body, 64<<20))\<close>: \<open>None\<close> is a read error.\<close>

definition body_limit :: nat where
  "body_limit = 64 * 2 ^ 20"

definition postSubtreeTxs :: "objfmt \<Rightarrow> 't getter \<Rightarrow> time \<Rightarrow> bytes option \<Rightarrow> ('o, 't) Server \<Rightarrow>
    http_reply \<times> ('o, 't) Server" where
  "postSubtreeTxs F gett now req sv =
     (case req of
        None \<Rightarrow> (Refused 500, sv \<lparr> errs := errs sv + 1 \<rparr>)
      | Some full \<Rightarrow>
          let b = take body_limit full in
          if length b mod 32 \<noteq> 0 then (Refused 400, sv)
          else case gather F gett now [] (chunks32 (length b div 32) b) (sv_txs sv) of
            (Inl (NotHeld k), t') \<Rightarrow> (Refused 404, sv \<lparr> sv_txs := t', miss := miss sv + 1 \<rparr>)
          | (Inl Unconvertible, t') \<Rightarrow> (Refused 500, sv \<lparr> sv_txs := t', errs := errs sv + 1 \<rparr>)
          | (Inr out, t') \<Rightarrow> (Served out, sv \<lparr> sv_txs := t', hitTxs := hitTxs sv + 1 \<rparr>))"

definition getBlock :: "objfmt \<Rightarrow> 'o getter \<Rightarrow> time \<Rightarrow> string \<Rightarrow> ('o, 't) Server \<Rightarrow> http_reply \<times> ('o, 't) Server" where
  "getBlock F geto now pv sv =
     (case ParseDisplay pv of
        Inl e \<Rightarrow> (Refused 400, sv)
      | Inr h \<Rightarrow>
          (case geto now h (sv_objs sv) of (r, o') \<Rightarrow>
           let sv = sv \<lparr> sv_objs := o' \<rparr> in
           case r of
             None \<Rightarrow> (Refused 404, sv \<lparr> miss := miss sv + 1 \<rparr>)
           | Some (obj, cls) \<Rightarrow>
               (case ToTeranode F obj of
                  Inl Panic \<Rightarrow> (Crashed, sv)
                | Inl e \<Rightarrow> (Refused 500, sv \<lparr> errs := errs sv + 1 \<rparr>)
                | Inr out \<Rightarrow> (Served out, pulled now h (sv \<lparr> hitBlock := hitBlock sv + 1 \<rparr>)))))"

definition chain_sync_path :: "string \<Rightarrow> bool" where
  "chain_sync_path path \<longleftrightarrow>
     contains path ''/headers_from_common_ancestor'' \<or> contains path ''/block_locator'' \<or> contains path ''/blocks''"

definition notFound :: "string \<Rightarrow> ('o, 't) Server \<Rightarrow> http_reply \<times> ('o, 't) Server" where
  "notFound path sv =
     (Refused 404,
      (if chain_sync_path path then sv \<lparr> missChainSync := missChainSync sv + 1 \<rparr> else sv)
        \<lparr> missRoute := missRoute sv + 1 \<rparr>)"

text \<open>
  The route table over a clean path's segments.  A \<open>GET\<close> pattern also matches
  \<open>HEAD\<close>, and every other request reaches the catch-all.
\<close>

datatype route = RSubtree string | RSubtreeData string | RTxs string | RBlock string | RUnserved

definition route_of :: "string list \<Rightarrow> string \<Rightarrow> string list \<Rightarrow> route" where
  "route_of p meth segs =
     (let isGet = (meth = ''GET'' \<or> meth = ''HEAD''); h = (if segs = [] then [] else last segs);
          h2 = (if length segs < 2 then [] else segs ! (length segs - 2))
      in if isGet \<and> h \<noteq> [] \<and> segs = p @ [''subtree'', h] then RSubtree h
         else if isGet \<and> h \<noteq> [] \<and> segs = p @ [''subtree_data'', h] then RSubtreeData h
         else if meth = ''POST'' \<and> h2 \<noteq> [] \<and> segs = p @ [''subtree'', h2, ''txs''] then RTxs h2
         else if isGet \<and> h \<noteq> [] \<and> segs = p @ [''block'', h] then RBlock h
         else if isGet \<and> h \<noteq> [] \<and> segs = p @ p @ [''subtree_data'', h] then RSubtreeData h
         else RUnserved)"

definition join_path :: "string list \<Rightarrow> string" where
  "join_path segs = concat (map (\<lambda>s. ''/'' @ s) segs)"

definition serve_request :: "objfmt \<Rightarrow> 'o getter \<Rightarrow> 't getter \<Rightarrow> time \<Rightarrow> string \<Rightarrow> string list \<Rightarrow> bytes option \<Rightarrow>
    ('o, 't) Server \<Rightarrow> http_reply \<times> ('o, 't) Server" where
  "serve_request F geto gett now meth segs req sv =
     (case route_of (sv_prefix sv) meth segs of
        RSubtree h \<Rightarrow> getSubtree F geto now h sv
      | RSubtreeData h \<Rightarrow> getSubtreeData F geto gett now h sv
      | RTxs h \<Rightarrow> postSubtreeTxs F gett now req sv
      | RBlock h \<Rightarrow> getBlock F geto now h sv
      | RUnserved \<Rightarrow> notFound (join_path segs) sv)"

record retrieval_Stats =
  rt_Subtree :: nat
  rt_SubtreeData :: nat
  rt_Txs :: nat
  rt_Block :: nat
  rt_Miss :: nat
  rt_Errors :: nat
  rt_UnservedRoute :: nat
  rt_UnservedChainSync :: nat

definition retrieval_Stats_of :: "('o, 't) Server \<Rightarrow> retrieval_Stats" where
  "retrieval_Stats_of sv =
     \<lparr> rt_Subtree = hitSubtree sv, rt_SubtreeData = hitSubtreeData sv, rt_Txs = hitTxs sv, rt_Block = hitBlock sv,
       rt_Miss = miss sv, rt_Errors = errs sv, rt_UnservedRoute = missRoute sv,
       rt_UnservedChainSync = missChainSync sv \<rparr>"

section \<open>What the loops collect\<close>

text \<open>The member loop over a fixed view of the store.\<close>

fun collect :: "objfmt \<Rightarrow> (hash \<Rightarrow> (bytes \<times> string) option) \<Rightarrow> hash list \<Rightarrow> (gather_end, bytes) res" where
  "collect F H [] = Inr []"
| "collect F H (k # ks) =
     (case H k of
        None \<Rightarrow> Inl (NotHeld k)
      | Some (raw, cls) \<Rightarrow>
          (case toStandard F raw of
             None \<Rightarrow> Inl Unconvertible
           | Some std \<Rightarrow> res_bind (collect F H ks) (\<lambda>out. Inr (std @ out))))"

text \<open>\<open>std\<close> is the standard form of the transaction held under \<open>k\<close>.\<close>

definition standard_of :: "objfmt \<Rightarrow> (hash \<Rightarrow> (bytes \<times> string) option) \<Rightarrow> hash \<Rightarrow> bytes \<Rightarrow> bool" where
  "standard_of F H k std \<longleftrightarrow> (\<exists>raw cls. H k = Some (raw, cls) \<and> toStandard F raw = Some std)"

lemma collect_Inr_iff:
  "collect F H ks = Inr out \<longleftrightarrow> (\<exists>stds. list_all2 (standard_of F H) ks stds \<and> out = concat stds)"
proof (induction ks arbitrary: out)
  case (Cons k ks)
  show ?case
  proof
    assume "collect F H (k # ks) = Inr out"
    then obtain raw cls std o2 where "H k = Some (raw, cls)" "toStandard F raw = Some std"
        "collect F H ks = Inr o2" "out = std @ o2"
      by (auto simp: res_bind_Inr_iff split: option.splits)
    moreover from this obtain stds where "list_all2 (standard_of F H) ks stds" "o2 = concat stds"
      using Cons by blast
    ultimately have "list_all2 (standard_of F H) (k # ks) (std # stds)" "out = concat (std # stds)"
      by (auto simp: standard_of_def)
    then show "\<exists>stds. list_all2 (standard_of F H) (k # ks) stds \<and> out = concat stds" by blast
  next
    assume "\<exists>stds. list_all2 (standard_of F H) (k # ks) stds \<and> out = concat stds"
    then obtain std stds where "standard_of F H k std" "list_all2 (standard_of F H) ks stds"
        "out = std @ concat stds"
      by (auto simp: list_all2_Cons1)
    moreover from this have "collect F H ks = Inr (concat stds)" using Cons by blast
    ultimately show "collect F H (k # ks) = Inr out" by (auto simp: standard_of_def)
  qed
qed auto

context exact_store
begin

lemma gather_collect:
  "ok st \<Longrightarrow> fst (gather F get now out ks st) = res_bind (collect F (\<lambda>k. held k st) ks) (\<lambda>o2. Inr (out @ o2))"
proof (induction ks arbitrary: out st)
  case (Cons k ks)
  obtain r st' where g: "get now k st = (r, st')" by fastforce
  have r: "r = held k st" and ok': "ok st'" and keep: "\<And>k'. held k' st' = held k' st"
    using es_get [OF Cons.prems, of now k] rs_ok [OF Cons.prems, of now k] es_keeps [OF Cons.prems, of _ now k]
    by (simp_all add: g)
  show ?case
    using Cons.IH [OF ok'] r
    by (auto simp: g keep res_bind_def split: option.splits sum.splits)
qed simp

end

context read_store
begin

lemma getSubtree_served:
  assumes "ok (sv_objs sv)" and "getSubtree F get now pv sv = (Served out, sv')"
  shows "\<exists>h frame cls. ParseDisplay pv = Inr h \<and> held h (sv_objs sv) = Some (frame, cls) \<and>
    SubtreeHeaderSize F \<le> length frame \<and> out = drop (SubtreeHeaderSize F) frame"
proof -
  obtain h where h: "ParseDisplay pv = Inr h" using assms(2) by (auto simp: getSubtree_def split: sum.splits)
  obtain r o' where g: "get now h (sv_objs sv) = (r, o')" by fastforce
  then obtain frame cls where "r = Some (frame, cls)" "SubtreeHeaderSize F \<le> length frame"
      "out = drop (SubtreeHeaderSize F) frame"
    using assms(2) h by (auto simp: getSubtree_def Let_def split: option.splits if_splits)
  then show ?thesis using rs_sound [OF assms(1), of now h "(frame, cls)"] g h by auto
qed

lemma getBlock_served:
  assumes "ok (sv_objs sv)" and "getBlock F get now pv sv = (Served out, sv')"
  shows "\<exists>h frame cls. ParseDisplay pv = Inr h \<and> held h (sv_objs sv) = Some (frame, cls) \<and>
    ToTeranode F frame = Inr out"
proof -
  obtain h where h: "ParseDisplay pv = Inr h" using assms(2) by (auto simp: getBlock_def split: sum.splits)
  obtain r o' where g: "get now h (sv_objs sv) = (r, o')" by fastforce
  then obtain frame cls where "r = Some (frame, cls)" "ToTeranode F frame = Inr out"
    using assms(2) h
    by (auto simp: getBlock_def Let_def split: option.splits sum.splits tnwire_error.splits)
  then show ?thesis using rs_sound [OF assms(1), of now h "(frame, cls)"] g h by auto
qed

end

section \<open>The stores the bridge wires in\<close>

definition txs_held :: "hash \<Rightarrow> Generational option \<Rightarrow> (bytes \<times> string) option" where
  "txs_held k s = map_option (\<lambda>b. (b, ''tx'')) (gen_held k s)"

definition txs_get :: "Generational option getter" where
  "txs_get now k s = gen_Get k s"

interpretation objs: read_store cache_Get cache_held "cache_ok mb ttl"
  by unfold_locales (rule lru.ok_get lru.get_sound lru.get_held; assumption)+

lemma gen_Get_exact: "gen_ok mb ttl s \<Longrightarrow> fst (gen_Get k s) = txs_held k s"
  by (auto simp: gen_Get_def txs_held_def gen_held_def Let_def gget_shard_fst split: option.splits)

lemma gen_Get_keeps: "gen_ok mb ttl s \<Longrightarrow> txs_held k' (snd (gen_Get k s)) = txs_held k' s"
proof (cases s)
  case (Some g)
  moreover assume "gen_ok mb ttl s"
  ultimately have "length g = shards" by (auto intro: gen_ok_length)
  then have "gshard_held k' (shardOf (set_shard g k (snd (gget_shard k (shardOf g k)))) k') =
      gshard_held k' (shardOf g k')"
    using shardOf_cong [of k' k g] by (auto simp: shardOf_set_shard gget_shard_held)
  then show ?thesis using Some by (simp add: gen_Get_def txs_held_def gen_held_def Let_def)
qed (simp add: gen_Get_def)

interpretation txs: exact_store txs_get txs_held "gen_ok mb ttl"
  by unfold_locales (auto simp: txs_get_def gen_Get_exact gen_Get_keeps gen_ok_Get)

section \<open>Properties\<close>

abbreviation nodes_of :: "objfmt \<Rightarrow> bytes \<Rightarrow> hash list" where
  "nodes_of F frame \<equiv> chunks32 (length (drop (SubtreeHeaderSize F) frame) div 32) (drop (SubtreeHeaderSize F) frame)"

text \<open>
  C15: A subtree's transactions are served whole or not at all.  For a held
  frame, the data route answers 200 exactly when every non-placeholder node's
  transaction is held and convertible, and then with their standard forms
  concatenated in node order, never a partial body; it answers 404 exactly when
  the first member that cannot be served is one that is not held.
\<close>

theorem subtree_data_all_or_nothing:
  assumes "gen_ok mb ttl (sv_txs sv)" and "ParseDisplay pv = Inr h"
    and "fst (cache_Get now h (sv_objs sv)) = Some (frame, cls)" and "SubtreeHeaderSize F \<le> length frame"
  shows "let members = filter (\<lambda>n. \<not> isPlaceholder n) (nodes_of F frame);
             reply = fst (getSubtreeData F cache_Get txs_get now pv sv);
             H = (\<lambda>k. txs_held k (sv_txs sv)) in
    (\<forall>out. reply = Served out \<longleftrightarrow> (\<exists>stds. list_all2 (standard_of F H) members stds \<and> out = concat stds)) \<and>
    (reply = Refused 404 \<longleftrightarrow> (\<exists>k. collect F H members = Inl (NotHeld k))) \<and> reply \<noteq> Crashed"
proof -
  define members where "members = filter (\<lambda>n. \<not> isPlaceholder n) (nodes_of F frame)"
  define H where "H = (\<lambda>k. txs_held k (sv_txs sv))"
  define reply where "reply = fst (getSubtreeData F cache_Get txs_get now pv sv)"
  obtain o' where g: "cache_Get now h (sv_objs sv) = (Some (frame, cls), o')"
    using assms(3) by (cases "cache_Get now h (sv_objs sv)") auto
  obtain r t' where gt: "gather F txs_get now [] members (sv_txs sv) = (r, t')" by fastforce
  have r: "r = collect F H members"
    using txs.gather_collect [OF assms(1), of F now "[]" members]
    by (cases "collect F H members") (simp_all add: gt H_def)
  have reply: "reply = (case r of Inl (NotHeld k) \<Rightarrow> Refused 404 | Inl Unconvertible \<Rightarrow> Refused 500 | Inr out \<Rightarrow> Served out)"
    using assms(2,4) g gt unfolding reply_def members_def
    by (simp add: getSubtreeData_def Let_def split: sum.splits gather_end.splits)
  have "(\<forall>out. reply = Served out \<longleftrightarrow> (\<exists>stds. list_all2 (standard_of F H) members stds \<and> out = concat stds)) \<and>
    (reply = Refused 404 \<longleftrightarrow> (\<exists>k. collect F H members = Inl (NotHeld k))) \<and> reply \<noteq> Crashed"
    unfolding collect_Inr_iff [symmetric] reply r by (auto split: sum.splits gather_end.splits)
  then show ?thesis unfolding Let_def members_def reply_def H_def by simp
qed

text \<open>A server holding one object, and one transaction, under given hashes.\<close>

definition sample_cache :: "hash \<Rightarrow> string \<Rightarrow> bytes \<Rightarrow> Cache" where
  "sample_cache h cls frame = cache_Put 0 h cls frame (cache_New \<lparr> MaxBytes = 64000, TTL = 5 \<rparr>)"

definition sample_txs :: "hash \<Rightarrow> bytes \<Rightarrow> Generational option" where
  "sample_txs k tx = snd (Admit 0 k tx (Some (NewGenerational \<lparr> MaxBytes = 1280, TTL = 20 \<rparr> 0)))"

definition sample_server :: "hash \<Rightarrow> string \<Rightarrow> bytes \<Rightarrow> hash \<Rightarrow> bytes \<Rightarrow> (Cache, Generational option) Server" where
  "sample_server h cls frame k tx =
     \<lparr> sv_prefix = [''api'', ''v1''], sv_objs = sample_cache h cls frame, sv_txs = sample_txs k tx,
       sv_firstPull = None, hitSubtree = 0, hitSubtreeData = 0, hitTxs = 0, hitBlock = 0, miss = 0, errs = 0,
       missRoute = 0, missChainSync = 0 \<rparr>"

lemma sample_cache_Get:
  assumes "length frame \<le> 1000"
  shows "fst (cache_Get 1 h (sample_cache h cls frame)) = Some (frame, cls)"
proof -
  have ok: "cache_ok 1000 5 (cache_New \<lparr> MaxBytes = 64000, TTL = 5 \<rparr>)"
    using cache_ok_New [of "\<lparr> MaxBytes = 64000, TTL = 5 \<rparr>"] by (simp add: per_shard_def)
  have "cache_held h (cache_New \<lparr> MaxBytes = 64000, TTL = 5 \<rparr>) = None"
    by (simp add: cache_held_def cache_New_def Let_def)
  then show ?thesis using cache_Get_after_Put [OF ok, of h frame 1 0 cls] assms
    by (simp add: sample_cache_def)
qed

lemma sample_cache_ok: "cache_ok 1000 5 (sample_cache h cls frame)"
  using cache_ok_New [of "\<lparr> MaxBytes = 64000, TTL = 5 \<rparr>"]
  by (simp add: sample_cache_def cache_ok_Put per_shard_def)

lemma sample_txs_ok: "gen_ok 10 20 (sample_txs k tx)"
  using gen_ok_New [of "\<lparr> MaxBytes = 1280, TTL = 20 \<rparr>" 0] by (simp add: sample_txs_def gen_ok_Admit)

lemma sample_txs_held: "txs_held k (sample_txs k tx) = Some (tx, ''tx'')"
  by (simp add: sample_txs_def txs_held_def gen_held_def Admit_def Let_def NewGenerational_def
      shardOf_set_shard gshard_held_def admit_shard_def g_maybeRotate_def)

definition sample_subtree :: bytes where
  "sample_subtree = replicate 40 0 @ replicate 32 0xFF @ replicate 32 3"

theorem subtree_data_all_or_nothing_witness:
  "fst (getSubtreeData sample_objfmt cache_Get txs_get 1 (Display (replicate 32 1))
     (sample_server (replicate 32 1) ''subtree'' sample_subtree (replicate 32 3) [9, 9])) = Served [9, 9]"
proof -
  let ?sv = "sample_server (replicate 32 1) ''subtree'' sample_subtree (replicate 32 3) [9, 9]"
  have ok: "gen_ok 10 20 (sv_txs ?sv)" by (simp add: sample_server_def sample_txs_ok)
  have pd: "ParseDisplay (Display (replicate 32 1)) = Inr (replicate 32 1)" by code_simp
  have get: "fst (cache_Get 1 (replicate 32 1) (sv_objs ?sv)) = Some (sample_subtree, ''subtree'')"
    using sample_cache_Get [of sample_subtree] by (simp add: sample_server_def sample_subtree_def)
  have len: "SubtreeHeaderSize sample_objfmt \<le> length sample_subtree"
    by (simp add: sample_objfmt_def sample_subtree_def)
  have hd: "SubtreeHeaderSize sample_objfmt = 40" by (simp add: sample_objfmt_def)
  have members: "filter (\<lambda>n. \<not> isPlaceholder n) (nodes_of sample_objfmt sample_subtree) = [replicate 32 3]"
    unfolding hd by code_simp
  have "list_all2 (standard_of sample_objfmt (\<lambda>k. txs_held k (sv_txs ?sv))) [replicate 32 3] [[9, 9]]"
    by (simp add: standard_of_def sample_server_def sample_txs_held toStandard_def sample_objfmt_def)
  then have "\<exists>stds. list_all2 (standard_of sample_objfmt (\<lambda>k. txs_held k (sv_txs ?sv)))
      [replicate 32 3] stds \<and> [9, 9] = concat stds" by force
  then show ?thesis
    using subtree_data_all_or_nothing [OF ok pd get len] unfolding Let_def members by blast
qed

text \<open>
  A stored block reaches the cluster intact.  While the cache still returns
  the frame \<open>Block.Encode\<close> built, a pull of the block by its displayed hash is
  answered 200 with a serialization that parses back to that very block.
\<close>

theorem block_pull_faithful:
  assumes "tx_delimited F" and "frame_headers F" and "wf_block b" and "Block_Encode F b = Inr frame"
    and "length frame \<le> 2 ^ 48" and "ParseDisplay pv = Inr h"
    and "fst (cache_Get now h (sv_objs sv)) = Some (frame, cls)"
  shows "\<exists>tn. fst (getBlock F cache_Get now pv sv) = Served tn \<and> FromTeranode F tn = Inr b"
proof -
  obtain tn where tn: "ToTeranode F frame = Inr tn" "FromTeranode F tn = Inr b"
    using block_converts [OF assms(1-5)] by blast
  obtain o' where "cache_Get now h (sv_objs sv) = (Some (frame, cls), o')"
    using assms(7) by (cases "cache_Get now h (sv_objs sv)") auto
  then show ?thesis using assms(6) tn by (simp add: getBlock_def Let_def)
qed

theorem block_pull_faithful_witness:
  "\<exists>tn. fst (getBlock sample_objfmt cache_Get 1 (Display (replicate 32 1))
       (sample_server (replicate 32 1) ''block'' sample_frame (replicate 32 3) [9, 9])) = Served tn \<and>
     FromTeranode sample_objfmt tn = Inr sample_block"
proof -
  have pd: "ParseDisplay (Display (replicate 32 1)) = Inr (replicate 32 1)" by code_simp
  have get: "fst (cache_Get 1 (replicate 32 1) (sv_objs (sample_server (replicate 32 1) ''block'' sample_frame
      (replicate 32 3) [9, 9]))) = Some (sample_frame, ''block'')"
    using sample_cache_Get [of sample_frame] by (simp add: sample_server_def sample_block_encodes)
  show ?thesis
    by (rule block_pull_faithful [OF sample_objfmt_ok(1,2) sample_block_encodes(2,1) _ pd get])
       (simp add: sample_block_encodes)
qed

text \<open>
  No answer is made up.  A 200 on the subtree or the block route is the
  header-stripped or converted frame that the object cache held under the
  requested hash; a hash the cache does not return is answered 404.
\<close>

theorem pulls_only_held:
  assumes "cache_ok mb ttl (sv_objs sv)"
  shows "(\<forall>out sv'. getSubtree F cache_Get now pv sv = (Served out, sv') \<longrightarrow>
      (\<exists>h frame cls. ParseDisplay pv = Inr h \<and> cache_held h (sv_objs sv) = Some (frame, cls) \<and>
         SubtreeHeaderSize F \<le> length frame \<and> out = drop (SubtreeHeaderSize F) frame)) \<and>
    (\<forall>out sv'. getBlock F cache_Get now pv sv = (Served out, sv') \<longrightarrow>
      (\<exists>h frame cls. ParseDisplay pv = Inr h \<and> cache_held h (sv_objs sv) = Some (frame, cls) \<and>
         ToTeranode F frame = Inr out)) \<and>
    (\<forall>h. ParseDisplay pv = Inr h \<and> fst (cache_Get now h (sv_objs sv)) = None \<longrightarrow>
      fst (getSubtree F cache_Get now pv sv) = Refused 404 \<and> fst (getBlock F cache_Get now pv sv) = Refused 404 \<and>
      fst (getSubtreeData F cache_Get txs_get now pv sv) = Refused 404)"
proof -
  have "fst (getSubtree F cache_Get now pv sv) = Refused 404 \<and> fst (getBlock F cache_Get now pv sv) = Refused 404 \<and>
      fst (getSubtreeData F cache_Get txs_get now pv sv) = Refused 404"
    if "ParseDisplay pv = Inr h" "fst (cache_Get now h (sv_objs sv)) = None" for h
    using that by (cases "cache_Get now h (sv_objs sv)")
      (simp add: getSubtree_def getBlock_def getSubtreeData_def Let_def)
  then show ?thesis
    using objs.getSubtree_served [OF assms] objs.getBlock_served [OF assms] by blast
qed

theorem pulls_only_held_witness:
  "fst (getBlock sample_objfmt cache_Get 1 (Display (replicate 32 2))
     (sample_server (replicate 32 1) ''block'' sample_frame (replicate 32 3) [9, 9])) = Refused 404"
proof -
  let ?sv = "sample_server (replicate 32 1) ''block'' sample_frame (replicate 32 3) [9, 9]"
  have ok: "cache_ok 1000 5 (sv_objs ?sv)" by (simp add: sample_server_def sample_cache_ok)
  have pd: "ParseDisplay (Display (replicate 32 2)) = Inr (replicate 32 2)" by code_simp
  have "shard_index (replicate 32 2) \<noteq> shard_index (replicate 32 1)" by code_simp
  then have "fst (cache_Get 1 (replicate 32 2) (sv_objs ?sv)) = None"
    by (simp add: sample_server_def sample_cache_def cache_Get_def cache_Put_def Let_def cache_New_def
        shardOf_set_shard get_shard_def)
  then show ?thesis using pulls_only_held [OF ok] pd by blast
qed

text \<open>
  The routes do not look at an object's class.  A cached block asked for
  as a subtree is answered 200 with the block's bytes after the first forty,
  although no such subtree exists.
\<close>

theorem subtree_route_serves_blocks:
  assumes "frame_headers F" and "ParseDisplay pv = Inr h"
    and "fst (cache_Get now h (sv_objs sv)) = Some (frame, ''block'')" and "120 \<le> length frame"
  shows "fst (getSubtree F cache_Get now pv sv) = Served (drop 40 frame)"
  using assms by (cases "cache_Get now h (sv_objs sv)") (simp add: getSubtree_def Let_def frame_headers_def)

theorem subtree_route_serves_blocks_witness:
  "fst (getSubtree sample_objfmt cache_Get 1 (Display (replicate 32 1))
     (sample_server (replicate 32 1) ''block'' sample_frame (replicate 32 3) [9, 9])) = Served (drop 40 sample_frame)"
proof -
  have pd: "ParseDisplay (Display (replicate 32 1)) = Inr (replicate 32 1)" by code_simp
  have get: "fst (cache_Get 1 (replicate 32 1) (sv_objs (sample_server (replicate 32 1) ''block'' sample_frame
      (replicate 32 3) [9, 9]))) = Some (sample_frame, ''block'')"
    using sample_cache_Get [of sample_frame] by (simp add: sample_server_def sample_block_encodes)
  show ?thesis
    by (rule subtree_route_serves_blocks [OF sample_objfmt_ok(2) pd get]) (simp add: sample_block_encodes)
qed

end
