(* ===== verification/Lanes.thy ===== *)
theory Lanes
  imports Prelude "HOL-Library.AList"
begin

text \<open>
  The package \<open>lanes\<close>: the class listeners.  Three parts: the slab owner, with
  the slabs as an explicit store so that the objects handed out can be read
  back later; the connection loop over what the codec's reader yields, with the
  calls it makes to the session in order; and the per-lane counters with their
  live and retired connections.
\<close>

section \<open>Retained copies\<close>

definition slabSize :: nat where
  "slabSize = 2 ^ 20"

text \<open>
  The store of slabs ever allocated and the current one.  A retained object is
  a slab, an offset and a length.
\<close>

record owner =
  ow_slabs :: "bytes list"
  ow_cur :: "nat option"

type_synonym slab_ref = "nat \<times> nat \<times> nat"

definition owner_init :: owner where
  "owner_init = \<lparr> ow_slabs = [], ow_cur = None \<rparr>"

definition slab_room :: "owner \<Rightarrow> nat" where
  "slab_room a = (case ow_cur a of None \<Rightarrow> 0 | Some i \<Rightarrow> slabSize - length (ow_slabs a ! i))"

definition own :: "bytes \<Rightarrow> owner \<Rightarrow> slab_ref \<times> owner" where
  "own obj a =
     (let n = length obj in
      if n > slabSize div 8 then ((length (ow_slabs a), 0, n), a \<lparr> ow_slabs := ow_slabs a @ [obj] \<rparr>)
      else
        let a = (if slab_room a < n
                 then a \<lparr> ow_cur := Some (length (ow_slabs a)), ow_slabs := ow_slabs a @ [[]] \<rparr> else a)
        in case ow_cur a of
             None \<Rightarrow> ((0, 0, n), a)
           | Some i \<Rightarrow>
               ((i, length (ow_slabs a ! i), n), a \<lparr> ow_slabs := (ow_slabs a)[i := ow_slabs a ! i @ obj] \<rparr>))"

definition read_ref :: "owner \<Rightarrow> slab_ref \<Rightarrow> bytes" where
  "read_ref a r = (case r of (i, off, n) \<Rightarrow> if n = 0 then [] else take n (drop off (ow_slabs a ! i)))"

definition owner_ok :: "owner \<Rightarrow> bool" where
  "owner_ok a \<longleftrightarrow> (case ow_cur a of None \<Rightarrow> True | Some i \<Rightarrow> i < length (ow_slabs a) \<and> length (ow_slabs a ! i) \<le> slabSize)"

text \<open>A reference lies within what its slab holds.\<close>

definition ref_ok :: "owner \<Rightarrow> slab_ref \<Rightarrow> bool" where
  "ref_ok a r \<longleftrightarrow> (case r of (i, off, n) \<Rightarrow> n = 0 \<or> i < length (ow_slabs a) \<and> off + n \<le> length (ow_slabs a ! i))"

text \<open>Slabs only grow, at their ends.\<close>

definition grows :: "owner \<Rightarrow> owner \<Rightarrow> bool" where
  "grows a b \<longleftrightarrow> length (ow_slabs a) \<le> length (ow_slabs b) \<and>
     (\<forall>i < length (ow_slabs a). \<exists>ext. ow_slabs b ! i = ow_slabs a ! i @ ext)"

lemma grows_refl: "grows a a"
  by (simp add: grows_def)

lemma grows_trans: "grows a b \<Longrightarrow> grows b c \<Longrightarrow> grows a c"
  unfolding grows_def by (metis append.assoc order_less_le_trans order_trans)

lemma grows_read:
  assumes "grows a b" and "ref_ok a r"
  shows "ref_ok b r \<and> read_ref b r = read_ref a r"
proof -
  obtain i off n where r: "r = (i, off, n)" by (cases r)
  show ?thesis
  proof (cases "n = 0")
    case True
    then show ?thesis by (simp add: r ref_ok_def read_ref_def)
  next
    case False
    then have i: "i < length (ow_slabs a)" "off + n \<le> length (ow_slabs a ! i)" using assms(2) by (simp_all add: r ref_ok_def)
    then obtain ext where "ow_slabs b ! i = ow_slabs a ! i @ ext" "i < length (ow_slabs b)"
      using assms(1) unfolding grows_def by (meson order_less_le_trans)
    then show ?thesis using i False by (simp add: r ref_ok_def read_ref_def)
  qed
qed

lemma own_step:
  assumes "owner_ok a"
  shows "owner_ok (snd (own obj a)) \<and> grows a (snd (own obj a)) \<and>
    ref_ok (snd (own obj a)) (fst (own obj a)) \<and> read_ref (snd (own obj a)) (fst (own obj a)) = obj"
proof (cases "length obj > slabSize div 8")
  case True
  then show ?thesis using assms
    by (auto simp: own_def Let_def owner_ok_def grows_def ref_ok_def read_ref_def nth_append split: option.splits)
next
  case False
  define a1 where "a1 = (if slab_room a < length obj
      then a \<lparr> ow_cur := Some (length (ow_slabs a)), ow_slabs := ow_slabs a @ [[]] \<rparr> else a)"
  have g1: "grows a a1" by (auto simp: a1_def grows_def nth_append)
  have small: "length obj \<le> slabSize" using False by (simp add: slabSize_def)
  have room: "owner_ok a1 \<and> (obj \<noteq> [] \<longrightarrow> (\<exists>i. ow_cur a1 = Some i \<and> length (ow_slabs a1 ! i) + length obj \<le> slabSize))"
    using assms small by (auto simp: a1_def owner_ok_def slab_room_def nth_append split: option.splits)
  have own: "own obj a = (case ow_cur a1 of None \<Rightarrow> ((0, 0, length obj), a1)
      | Some i \<Rightarrow> ((i, length (ow_slabs a1 ! i), length obj), a1 \<lparr> ow_slabs := (ow_slabs a1)[i := ow_slabs a1 ! i @ obj] \<rparr>))"
    using False by (simp only: own_def a1_def [symmetric] Let_def if_False)
  show ?thesis
  proof (cases "ow_cur a1")
    case None
    then have "obj = []" using room by auto
    then show ?thesis using None own g1 room by (simp add: ref_ok_def read_ref_def)
  next
    case (Some i)
    then have i: "i < length (ow_slabs a1)" using room by (simp add: owner_ok_def)
    have len: "length (ow_slabs a1 ! i) + length obj \<le> slabSize"
      using room Some by (cases "obj = []") (auto simp: owner_ok_def)
    have "grows a1 (a1 \<lparr> ow_slabs := (ow_slabs a1)[i := ow_slabs a1 ! i @ obj] \<rparr>)"
      using i by (auto simp: grows_def nth_list_update)
    then show ?thesis using Some own i len grows_trans [OF g1]
      by (auto simp: owner_ok_def ref_ok_def read_ref_def)
  qed
qed

fun own_all :: "bytes list \<Rightarrow> owner \<Rightarrow> slab_ref list \<times> owner" where
  "own_all [] a = ([], a)"
| "own_all (x # xs) a = (case own x a of (r, a) \<Rightarrow> (case own_all xs a of (rs, a) \<Rightarrow> (r # rs, a)))"

lemma own_all_stable:
  "owner_ok a \<Longrightarrow> own_all xs a = (rs, b) \<Longrightarrow> owner_ok b \<and> grows a b \<and> map (read_ref b) rs = xs"
proof (induction xs arbitrary: a rs)
  case Nil
  then show ?case by (simp add: grows_refl)
next
  case (Cons x xs)
  obtain r a1 rs1 where o: "own x a = (r, a1)" "own_all xs a1 = (rs1, b)" "rs = r # rs1"
    using Cons.prems(2) by (auto split: prod.splits)
  have s: "owner_ok a1" "grows a a1" "ref_ok a1 r" "read_ref a1 r = x"
    using own_step [OF Cons.prems(1), of x] o(1) by simp_all
  have IH: "owner_ok b \<and> grows a1 b \<and> map (read_ref b) rs1 = xs" using Cons.IH [OF s(1) o(2)] .
  then have "read_ref b r = x" using grows_read [of a1 b r] s by simp
  then show ?case using IH grows_trans [OF s(2)] o(3) by auto
qed

section \<open>The connection loop\<close>

text \<open>
  What the codec's reader does between two turns of the loop: it reads the
  connection (which runs the session's \<open>Flush\<close> first), it yields a whole
  object, or it ends with an error.  Each event carries whether the lane's
  context is cancelled by then.
\<close>

datatype read_end = ReadEOF | ReadUnexpectedEOF | ReadReset | ReadNetError | ReadCodecFault

datatype reader_event = RFill | RObj bytes | REnd read_end

datatype handled = HandledOk | HandledReject | HandledError

text \<open>The calls a connection makes, in order.\<close>

datatype call = CHandle bytes | CFlush | CRead

record Lane =
  ln_Owned :: bool
  ln_MaxObject :: int
  ln_DrainTimeout :: duration
  ln_hasFlush :: bool

record 's conn =
  cn_session :: 's
  cn_owner :: owner
  cn_objects :: nat
  cn_bytes :: nat
  cn_errors :: nat
  cn_rejected :: nat
  cn_dropped :: nat
  cn_calls :: "call list"

definition conn_open :: "'s \<Rightarrow> 's conn" where
  "conn_open sess = \<lparr> cn_session = sess, cn_owner = owner_init, cn_objects = 0, cn_bytes = 0, cn_errors = 0,
     cn_rejected = 0, cn_dropped = 0, cn_calls = [] \<rparr>"

definition call_flush :: "Lane \<Rightarrow> ('s \<Rightarrow> bool \<times> 's) \<Rightarrow> 's conn \<Rightarrow> bool \<times> 's conn" where
  "call_flush L fl c =
     (if ln_hasFlush L then
        (case fl (cn_session c) of (ok, s) \<Rightarrow> (ok, c \<lparr> cn_session := s, cn_calls := cn_calls c @ [CFlush] \<rparr>))
      else (True, c))"

text \<open>The deferred calls when the loop returns.\<close>

definition conn_close :: "Lane \<Rightarrow> ('s \<Rightarrow> bool \<times> 's) \<Rightarrow> 's conn \<Rightarrow> 's conn" where
  "conn_close L fl c = snd (call_flush L fl c)"

text \<open>How the loop accounts for a reader error.\<close>

definition end_counts :: "read_end \<Rightarrow> bool \<Rightarrow> 's conn \<Rightarrow> 's conn" where
  "end_counts e cancelled c =
     (if e = ReadEOF \<or> cancelled \<or> (e = ReadUnexpectedEOF \<and> cn_objects c = 0)
         \<or> e = ReadUnexpectedEOF \<or> e = ReadReset \<or> e = ReadNetError
      then c else c \<lparr> cn_dropped := cn_dropped c + 1 \<rparr>)"

definition deliver :: "Lane \<Rightarrow> (bytes \<Rightarrow> 's \<Rightarrow> handled \<times> 's) \<Rightarrow> bytes \<Rightarrow> 's conn \<Rightarrow> 's conn" where
  "deliver L h obj c =
     (let c = c \<lparr> cn_objects := cn_objects c + 1, cn_bytes := cn_bytes c + length obj \<rparr>;
          (obj, c) = (if ln_Owned L then
              (case own obj (cn_owner c) of (r, a) \<Rightarrow> (read_ref a r, c \<lparr> cn_owner := a \<rparr>)) else (obj, c));
          (res, s) = h obj (cn_session c);
          c = c \<lparr> cn_session := s, cn_calls := cn_calls c @ [CHandle obj] \<rparr>
      in case res of
           HandledOk \<Rightarrow> c
         | HandledReject \<Rightarrow> c \<lparr> cn_rejected := cn_rejected c + 1 \<rparr>
         | HandledError \<Rightarrow> c \<lparr> cn_errors := cn_errors c + 1 \<rparr>)"

text \<open>
  \<open>atTop\<close> holds at the head of the loop, where cancellation is looked at; the
  Boolean of the result tells whether the loop has returned.
\<close>

fun serveConn :: "Lane \<Rightarrow> (bytes \<Rightarrow> 's \<Rightarrow> handled \<times> 's) \<Rightarrow> ('s \<Rightarrow> bool \<times> 's) \<Rightarrow> bool \<Rightarrow>
    (reader_event \<times> bool) list \<Rightarrow> 's conn \<Rightarrow> bool \<times> 's conn" where
  "serveConn L h fl atTop [] c = (False, c)"
| "serveConn L h fl atTop ((ev, cancelled) # evs) c =
     (if atTop \<and> cancelled \<and> \<not> ln_DrainTimeout L > 0 then (True, conn_close L fl c)
      else case ev of
        RFill \<Rightarrow>
          (case call_flush L fl c of
             (True, c) \<Rightarrow> serveConn L h fl False evs (c \<lparr> cn_calls := cn_calls c @ [CRead] \<rparr>)
           | (False, c) \<Rightarrow> (True, conn_close L fl (end_counts ReadCodecFault cancelled c)))
      | REnd e \<Rightarrow> (True, conn_close L fl (end_counts e cancelled c))
      | RObj obj \<Rightarrow>
          if ln_MaxObject L > 0 \<and> int (length obj) > ln_MaxObject L
          then (True, conn_close L fl (c \<lparr> cn_dropped := cn_dropped c + 1 \<rparr>))
          else serveConn L h fl True evs (deliver L h obj c))"

section \<open>What a connection hands on\<close>

definition handled_objs :: "call list \<Rightarrow> bytes list" where
  "handled_objs cs = concat (map (\<lambda>x. case x of CHandle b \<Rightarrow> [b] | _ \<Rightarrow> []) cs)"

definition event_objs :: "(reader_event \<times> bool) list \<Rightarrow> bytes list" where
  "event_objs evs = concat (map (\<lambda>x. case fst x of RObj b \<Rightarrow> [b] | _ \<Rightarrow> []) evs)"

text \<open>Every read of the connection comes right after a flush.\<close>

definition reads_flushed :: "call list \<Rightarrow> bool" where
  "reads_flushed cs \<longleftrightarrow> (\<forall>i < length cs. cs ! i = CRead \<longrightarrow> 0 < i \<and> cs ! (i - 1) = CFlush)"

lemma reads_flushed_snoc:
  "reads_flushed (cs @ [x]) \<longleftrightarrow> reads_flushed cs \<and> (x = CRead \<longrightarrow> cs \<noteq> [] \<and> last cs = CFlush)"
proof -
  have all: "(\<forall>i < Suc n. P i) \<longleftrightarrow> (\<forall>i < n. P i) \<and> P n" for P and n :: nat by (metis less_Suc_eq)
  have old: "(\<forall>i < length cs. (cs @ [x]) ! i = CRead \<longrightarrow> 0 < i \<and> (cs @ [x]) ! (i - 1) = CFlush) \<longleftrightarrow> reads_flushed cs"
    unfolding reads_flushed_def by (simp add: nth_append less_imp_diff_less)
  have new: "((cs @ [x]) ! length cs = CRead \<longrightarrow> 0 < length cs \<and> (cs @ [x]) ! (length cs - 1) = CFlush) \<longleftrightarrow>
      (x = CRead \<longrightarrow> cs \<noteq> [] \<and> last cs = CFlush)"
    by (cases "cs = []") (simp_all add: nth_append last_conv_nth)
  show ?thesis
    unfolding reads_flushed_def [of "cs @ [x]"] length_append_singleton all old new ..
qed

lemma reads_flushed_simps [simp]:
  "reads_flushed []" "reads_flushed (cs @ [CFlush]) \<longleftrightarrow> reads_flushed cs"
  "reads_flushed (cs @ [CHandle b]) \<longleftrightarrow> reads_flushed cs"
  "reads_flushed (cs @ [CFlush, CRead]) \<longleftrightarrow> reads_flushed cs"
proof -
  show "reads_flushed (cs @ [CFlush, CRead]) \<longleftrightarrow> reads_flushed cs"
    using reads_flushed_snoc [of "cs @ [CFlush]" CRead] reads_flushed_snoc [of cs CFlush] by simp
qed (simp_all add: reads_flushed_snoc, simp add: reads_flushed_def)

definition conn_ok :: "'s conn \<Rightarrow> bool" where
  "conn_ok c \<longleftrightarrow> owner_ok (cn_owner c) \<and> cn_objects c = length (handled_objs (cn_calls c)) \<and>
     cn_bytes c = length (concat (handled_objs (cn_calls c))) \<and>
     cn_rejected c + cn_errors c \<le> cn_objects c"

lemma handled_objs_simps [simp]:
  "handled_objs [] = []" "handled_objs (xs @ ys) = handled_objs xs @ handled_objs ys"
  "handled_objs (CHandle b # cs) = b # handled_objs cs" "handled_objs (CFlush # cs) = handled_objs cs"
  "handled_objs (CRead # cs) = handled_objs cs"
  by (simp_all add: handled_objs_def)

lemma deliver_facts:
  assumes "conn_ok c"
  shows "conn_ok (deliver L h obj c) \<and> cn_calls (deliver L h obj c) = cn_calls c @ [CHandle obj] \<and>
    cn_session (deliver L h obj c) = snd (h obj (cn_session c))"
proof -
  define c1 where "c1 = c \<lparr> cn_objects := cn_objects c + 1, cn_bytes := cn_bytes c + length obj \<rparr>"
  obtain r a where ow: "own obj (cn_owner c) = (r, a)" by fastforce
  have own: "owner_ok a" "read_ref a r = obj"
    using assms own_step [of "cn_owner c" obj] ow by (simp_all add: conn_ok_def)
  define c2 where "c2 = (if ln_Owned L then c1 \<lparr> cn_owner := a \<rparr> else c1)"
  have c2: "(if ln_Owned L then (case own obj (cn_owner c1) of (r, a) \<Rightarrow> (read_ref a r, c1 \<lparr> cn_owner := a \<rparr>))
      else (obj, c1)) = (obj, c2)" using ow own by (simp add: c2_def c1_def)
  have o2: "owner_ok (cn_owner c2)" using assms own by (simp add: c2_def c1_def conn_ok_def)
  have r2: "cn_objects c2 = cn_objects c + 1" "cn_bytes c2 = cn_bytes c + length obj" "cn_session c2 = cn_session c"
      "cn_calls c2 = cn_calls c" "cn_rejected c2 = cn_rejected c" "cn_errors c2 = cn_errors c"
    by (simp_all add: c2_def c1_def)
  obtain res s where hs: "h obj (cn_session c) = (res, s)" by fastforce
  show ?thesis
    unfolding deliver_def Let_def c1_def [symmetric] c2 prod.case r2(3) hs
    using assms o2 r2 by (cases res) (simp_all add: conn_ok_def)
qed

lemma call_flush_facts:
  "conn_ok c \<Longrightarrow> conn_ok (snd (call_flush L fl c))"
  "cn_calls (snd (call_flush L fl c)) = cn_calls c @ (if ln_hasFlush L then [CFlush] else [])"
  "cn_session (snd (call_flush L fl c)) = (if ln_hasFlush L then snd (fl (cn_session c)) else cn_session c)"
  "cn_objects (snd (call_flush L fl c)) = cn_objects c"
  by (cases "fl (cn_session c)"; simp add: call_flush_def conn_ok_def)+

lemma conn_close_ok:
  "conn_ok c \<Longrightarrow> conn_ok (conn_close L fl (end_counts e x c))"
  "conn_ok c \<Longrightarrow> conn_ok (conn_close L fl (c \<lparr> cn_dropped := n \<rparr>))"
  "conn_ok c \<Longrightarrow> conn_ok (conn_close L fl c)"
  unfolding conn_close_def by (rule call_flush_facts; simp add: conn_ok_def end_counts_def)+

lemma end_counts_calls [simp]: "cn_calls (end_counts e x c) = cn_calls c"
  by (simp add: end_counts_def)

lemma conn_close_calls [simp]:
  "cn_calls (conn_close L fl c) = cn_calls c @ (if ln_hasFlush L then [CFlush] else [])"
  by (simp add: conn_close_def call_flush_facts)

definition conn_inv :: "Lane \<Rightarrow> bytes list \<Rightarrow> bool \<Rightarrow> 's conn \<Rightarrow> 's conn \<Rightarrow> bool" where
  "conn_inv L objs ended c c' \<longleftrightarrow> conn_ok c' \<and>
     (\<exists>k. handled_objs (cn_calls c') = handled_objs (cn_calls c) @ take k objs \<and> (\<not> ended \<longrightarrow> length objs \<le> k)) \<and>
     (ln_hasFlush L \<longrightarrow> reads_flushed (cn_calls c) \<longrightarrow>
        reads_flushed (cn_calls c') \<and> (ended \<longrightarrow> cn_calls c' \<noteq> [] \<and> last (cn_calls c') = CFlush))"

lemma conn_inv_close:
  assumes "conn_ok c'" and "cn_calls c' = cn_calls c \<or> cn_calls c' = cn_calls c @ [CFlush]"
  shows "conn_inv L objs True c (conn_close L fl c')"
proof -
  have "handled_objs (cn_calls (conn_close L fl c')) = handled_objs (cn_calls c) @ take 0 objs"
    using assms(2) by auto
  then show ?thesis using assms conn_close_ok(3) [OF assms(1), of L fl]
    unfolding conn_inv_def by (auto intro: exI [of _ 0])
qed

lemma serveConn_inv:
  "conn_ok c \<Longrightarrow> serveConn L h fl atTop evs c = (ended, c') \<Longrightarrow> conn_inv L (event_objs evs) ended c c'"
proof (induction L h fl atTop evs c rule: serveConn.induct)
  case (1 L h fl atTop c)
  then show ?case by (simp add: conn_inv_def event_objs_def)
next
  case (2 L h fl atTop ev cancelled evs c)
  show ?case
  proof (cases "atTop \<and> cancelled \<and> \<not> ln_DrainTimeout L > 0")
    case True
    then show ?thesis using "2.prems" conn_inv_close [OF "2.prems"(1)] by auto
  next
    case run: False
    show ?thesis
    proof (cases ev)
      case RFill
      obtain ok c1 where f: "call_flush L fl c = (ok, c1)" by fastforce
      have c1: "conn_ok c1" "cn_calls c1 = cn_calls c @ (if ln_hasFlush L then [CFlush] else [])"
        using call_flush_facts(1) [OF "2.prems"(1), of L fl] call_flush_facts(2) [of L fl c] f by simp_all
      show ?thesis
      proof (cases ok)
        case False
        have "conn_ok (end_counts ReadCodecFault cancelled c1)" using c1(1) by (simp add: end_counts_def conn_ok_def)
        then show ?thesis using "2.prems"(2) run RFill f False c1(2)
            conn_inv_close [of "end_counts ReadCodecFault cancelled c1" c] by auto
      next
        case True
        define c2 where "c2 = c1 \<lparr> cn_calls := cn_calls c1 @ [CRead] \<rparr>"
        have c2: "conn_ok c2" "handled_objs (cn_calls c2) = handled_objs (cn_calls c)"
            "ln_hasFlush L \<longrightarrow> cn_calls c2 = cn_calls c @ [CFlush, CRead]"
          using c1 by (auto simp: c2_def conn_ok_def)
        have "serveConn L h fl False evs c2 = (ended, c')"
          using "2.prems"(2) run RFill f True by (simp add: c2_def)
        then have "conn_inv L (event_objs evs) ended c2 c'"
          using "2.IH"(1) [OF run RFill f [symmetric]] True c2(1) by (simp add: c2_def)
        then show ?thesis using c2 RFill by (auto simp: conn_inv_def event_objs_def)
      qed
    next
      case (REnd e)
      have "conn_ok (end_counts e cancelled c)" using "2.prems"(1) by (simp add: end_counts_def conn_ok_def)
      then show ?thesis using "2.prems"(2) run REnd conn_inv_close [of "end_counts e cancelled c" c] by auto
    next
      case (RObj obj)
      show ?thesis
      proof (cases "ln_MaxObject L > 0 \<and> int (length obj) > ln_MaxObject L")
        case True
        have "conn_ok (c \<lparr> cn_dropped := cn_dropped c + 1 \<rparr>)" using "2.prems"(1) by (simp add: conn_ok_def)
        then show ?thesis using "2.prems"(2) run RObj True conn_inv_close [of "c \<lparr> cn_dropped := cn_dropped c + 1 \<rparr>" c] by auto
      next
        case False
        note d = deliver_facts [OF "2.prems"(1), of L h obj]
        have "serveConn L h fl True evs (deliver L h obj c) = (ended, c')"
          using "2.prems"(2) run RObj False by simp
        then have "conn_inv L (event_objs evs) ended (deliver L h obj c) c'"
          using "2.IH"(2) [OF run RObj False] d by blast
        then obtain k where k: "handled_objs (cn_calls c') = handled_objs (cn_calls c) @ obj # take k (event_objs evs)"
            "\<not> ended \<longrightarrow> length (event_objs evs) \<le> k" and rest: "conn_ok c'"
            "ln_hasFlush L \<longrightarrow> reads_flushed (cn_calls c) \<longrightarrow>
              reads_flushed (cn_calls c') \<and> (ended \<longrightarrow> cn_calls c' \<noteq> [] \<and> last (cn_calls c') = CFlush)"
          using d by (auto simp: conn_inv_def)
        have "event_objs ((ev, cancelled) # evs) = obj # event_objs evs" using RObj by (simp add: event_objs_def)
        then show ?thesis using k rest unfolding conn_inv_def by (auto intro!: exI [of _ "Suc k"])
      qed
    qed
  qed
qed

section \<open>The session interface\<close>

text \<open>A connection's session is the fold of the calls made to it.\<close>

fun apply_call :: "(bytes \<Rightarrow> 's \<Rightarrow> handled \<times> 's) \<Rightarrow> ('s \<Rightarrow> bool \<times> 's) \<Rightarrow> call \<Rightarrow> 's \<Rightarrow> 's" where
  "apply_call h fl (CHandle b) s = snd (h b s)"
| "apply_call h fl CFlush s = snd (fl s)"
| "apply_call h fl CRead s = s"

definition traced :: "(bytes \<Rightarrow> 's \<Rightarrow> handled \<times> 's) \<Rightarrow> ('s \<Rightarrow> bool \<times> 's) \<Rightarrow> 's conn \<Rightarrow> 's conn \<Rightarrow> bool" where
  "traced h fl c c' \<longleftrightarrow> (\<exists>cs. cn_calls c' = cn_calls c @ cs \<and> cn_session c' = fold (apply_call h fl) cs (cn_session c))"

lemma traced_trans: "traced h fl a b \<Longrightarrow> traced h fl b c \<Longrightarrow> traced h fl a c"
  unfolding traced_def by (metis append.assoc fold_append comp_apply)

lemma traced_flush: "traced h fl c (snd (call_flush L fl c))"
  unfolding traced_def
  by (rule exI [of _ "if ln_hasFlush L then [CFlush] else []"]) (simp add: call_flush_facts)

lemma traced_read: "traced h fl c (c \<lparr> cn_calls := cn_calls c @ [CRead] \<rparr>)"
  unfolding traced_def by (rule exI [of _ "[CRead]"]) simp

lemma traced_same: "cn_calls c' = cn_calls c \<Longrightarrow> cn_session c' = cn_session c \<Longrightarrow> traced h fl c c'"
  unfolding traced_def by (rule exI [of _ "[]"]) simp

lemma traced_close: "cn_calls c' = cn_calls c \<Longrightarrow> cn_session c' = cn_session c \<Longrightarrow> traced h fl c (conn_close L fl c')"
  unfolding conn_close_def by (rule traced_trans [OF traced_same traced_flush])

lemma traced_deliver: "conn_ok c \<Longrightarrow> traced h fl c (deliver L h obj c)"
  unfolding traced_def by (rule exI [of _ "[CHandle obj]"]) (simp add: deliver_facts)

lemma serveConn_traced:
  "conn_ok c \<Longrightarrow> serveConn L h fl atTop evs c = (ended, c') \<Longrightarrow> traced h fl c c'"
proof (induction L h fl atTop evs c rule: serveConn.induct)
  case (1 L h fl atTop c)
  then show ?case by (simp add: traced_same)
next
  case (2 L h fl atTop ev cancelled evs c)
  show ?case
  proof (cases "atTop \<and> cancelled \<and> \<not> ln_DrainTimeout L > 0")
    case True
    then show ?thesis using "2.prems" by (auto intro: traced_close)
  next
    case run: False
    show ?thesis
    proof (cases ev)
      case RFill
      obtain ok c1 where f: "call_flush L fl c = (ok, c1)" by fastforce
      have t1: "traced h fl c c1" "conn_ok c1"
        using traced_flush [of h fl c L] call_flush_facts(1) [OF "2.prems"(1), of L fl] f by simp_all
      show ?thesis
      proof (cases ok)
        case False
        have "traced h fl c1 (conn_close L fl (end_counts ReadCodecFault cancelled c1))"
          by (rule traced_close) (simp_all add: end_counts_def)
        then show ?thesis using "2.prems"(2) run RFill f False traced_trans [OF t1(1)] by auto
      next
        case True
        define c2 where "c2 = c1 \<lparr> cn_calls := cn_calls c1 @ [CRead] \<rparr>"
        have c2: "conn_ok c2" "traced h fl c c2"
          using t1 traced_trans [OF t1(1) traced_read] by (simp_all add: c2_def conn_ok_def)
        have "serveConn L h fl False evs c2 = (ended, c')" using "2.prems"(2) run RFill f True by (simp add: c2_def)
        then have "traced h fl c2 c'" using "2.IH"(1) [OF run RFill f [symmetric]] True c2(1) by (simp add: c2_def)
        then show ?thesis using traced_trans [OF c2(2)] by blast
      qed
    next
      case (REnd e)
      then show ?thesis using "2.prems"(2) run by (auto intro!: traced_close simp: end_counts_def)
    next
      case (RObj obj)
      show ?thesis
      proof (cases "ln_MaxObject L > 0 \<and> int (length obj) > ln_MaxObject L")
        case True
        then show ?thesis using "2.prems"(2) run RObj by (auto intro!: traced_close)
      next
        case False
        have "serveConn L h fl True evs (deliver L h obj c) = (ended, c')" using "2.prems"(2) run RObj False by simp
        then have "traced h fl (deliver L h obj c) c'"
          using "2.IH"(2) [OF run RObj False] deliver_facts [OF "2.prems"(1), of L h obj] by blast
        then show ?thesis using traced_trans [OF traced_deliver [OF "2.prems"(1)]] by blast
      qed
    qed
  qed
qed

text \<open>
  What a lane relies on in a session that batches: handling only appends to what
  it has taken on, and a flush hands all of it over.
\<close>

locale batching_session =
  fixes h :: "bytes \<Rightarrow> 's \<Rightarrow> handled \<times> 's" and fl :: "'s \<Rightarrow> bool \<times> 's"
    and handed :: "'s \<Rightarrow> 'j list" and waiting :: "'s \<Rightarrow> 'j list" and ok :: "'s \<Rightarrow> bool"
  assumes ok_handle: "ok s \<Longrightarrow> ok (snd (h b s))" and ok_flush: "ok s \<Longrightarrow> ok (snd (fl s))"
    and handle_appends: "ok s \<Longrightarrow> \<exists>js. handed (snd (h b s)) @ waiting (snd (h b s)) = handed s @ waiting s @ js"
    and flush_hands: "ok s \<Longrightarrow> handed (snd (fl s)) = handed s @ waiting s"
    and flush_empties: "ok s \<Longrightarrow> waiting (snd (fl s)) = []"
begin

lemma ok_call: "ok s \<Longrightarrow> ok (apply_call h fl x s)"
  by (cases x) (simp_all add: ok_handle ok_flush)

lemma ok_calls: "ok s \<Longrightarrow> ok (fold (apply_call h fl) cs s)"
  by (induction cs arbitrary: s) (simp_all add: ok_call)

lemma calls_append:
  "ok s \<Longrightarrow> \<exists>js. handed (fold (apply_call h fl) cs s) @ waiting (fold (apply_call h fl) cs s) = handed s @ waiting s @ js"
proof (induction cs arbitrary: s)
  case (Cons x cs)
  have ok1: "ok (apply_call h fl x s)" using Cons.prems by (rule ok_call)
  have "\<exists>js. handed (apply_call h fl x s) @ waiting (apply_call h fl x s) = handed s @ waiting s @ js"
    using Cons.prems handle_appends by (cases x) (simp_all add: flush_hands flush_empties)
  then show ?case using Cons.IH [OF ok1] by (metis append.assoc fold_simps(2))
qed simp

text \<open>Nothing waits while the lane may block on the network, nor when it has ended.\<close>

lemma idle_empty:
  assumes "ok s" and "reads_flushed cs" and "cs \<noteq> []" and "\<And>b. last cs \<noteq> CHandle b"
  shows "waiting (fold (apply_call h fl) cs s) = []"
proof -
  obtain cs' x where cs: "cs = cs' @ [x]" using assms(3) by (metis append_butlast_last_id)
  have ok': "ok (fold (apply_call h fl) zs s)" for zs using ok_calls [OF assms(1)] .
  show ?thesis
  proof (cases x)
    case CFlush
    then show ?thesis using cs ok' by (simp add: flush_empties)
  next
    case CRead
    then have "cs' \<noteq> []" "last cs' = CFlush" using assms(2) cs by (simp_all add: reads_flushed_snoc)
    then obtain zs where "cs' = zs @ [CFlush]" by (metis append_butlast_last_id)
    then show ?thesis using cs CRead ok' by (simp add: flush_empties)
  next
    case (CHandle b)
    then show ?thesis using assms(4) [of b] cs by simp
  qed
qed

text \<open>The lane's side of the bargain: what its connections see of such a session.\<close>

lemma connection_flushes:
  assumes "ok s" and "ln_hasFlush L" and "serveConn L h fl True evs (conn_open s) = (ended, c)"
  shows "(ended \<or> (cn_calls c \<noteq> [] \<and> last (cn_calls c) = CRead)) \<longrightarrow> waiting (cn_session c) = []"
proof -
  have cok: "conn_ok (conn_open s)" by (simp add: conn_ok_def conn_open_def owner_ok_def owner_init_def)
  have ses: "cn_session c = fold (apply_call h fl) (cn_calls c) s"
    using serveConn_traced [OF cok assms(3)] by (auto simp: traced_def conn_open_def)
  have "reads_flushed (cn_calls c)" "ended \<longrightarrow> cn_calls c \<noteq> [] \<and> last (cn_calls c) = CFlush"
    using serveConn_inv [OF cok assms(3)] assms(2) by (simp_all add: conn_inv_def) (simp_all add: conn_open_def)
  then show ?thesis unfolding ses using idle_empty [OF assms(1), of "cn_calls c"] by auto
qed

end

section \<open>The lane's counters and its listener\<close>

text \<open>
  Objects and bytes are counted per connection while it is live and folded into
  the lane's totals when it retires.  A connection is named by a number, as
  \<open>*connCounts\<close> names it by its address.
\<close>

record lane_counts =
  lc_Conns :: nat
  lc_Active :: int
  lc_Objects :: nat
  lc_Bytes :: nat
  lc_Errors :: nat
  lc_Dropped :: nat
  lc_Rejected :: nat
  lc_live :: "(nat \<times> nat \<times> nat) list"

definition lane_counts_zero :: lane_counts where
  "lane_counts_zero = \<lparr> lc_Conns = 0, lc_Active = 0, lc_Objects = 0, lc_Bytes = 0, lc_Errors = 0, lc_Dropped = 0,
     lc_Rejected = 0, lc_live = [] \<rparr>"

definition addLive :: "nat \<Rightarrow> lane_counts \<Rightarrow> lane_counts" where
  "addLive i l = l \<lparr> lc_live := (i, 0, 0) # AList.delete i (lc_live l) \<rparr>"

definition count_object :: "nat \<Rightarrow> bytes \<Rightarrow> lane_counts \<Rightarrow> lane_counts" where
  "count_object i obj l =
     l \<lparr> lc_live := map (\<lambda>(j, n, b). if j = i then (j, n + 1, b + length obj) else (j, n, b)) (lc_live l) \<rparr>"

definition retireLive :: "nat \<Rightarrow> lane_counts \<Rightarrow> lane_counts" where
  "retireLive i l =
     (case map_of (lc_live l) i of
        None \<Rightarrow> l
      | Some (n, b) \<Rightarrow> l \<lparr> lc_live := AList.delete i (lc_live l),
          lc_Objects := lc_Objects l + n, lc_Bytes := lc_Bytes l + b \<rparr>)"

record lane_Stats =
  lst_Conns :: nat
  lst_Objects :: nat
  lst_Bytes :: nat
  lst_Errors :: nat
  lst_Dropped :: nat
  lst_Rejected :: nat
  lst_Active :: int

definition lane_Stats_of :: "lane_counts \<Rightarrow> lane_Stats" where
  "lane_Stats_of l = \<lparr> lst_Conns = lc_Conns l,
     lst_Objects = lc_Objects l + sum_list (map (\<lambda>(i, n, b). n) (lc_live l)),
     lst_Bytes = lc_Bytes l + sum_list (map (\<lambda>(i, n, b). b) (lc_live l)),
     lst_Errors = lc_Errors l, lst_Dropped = lc_Dropped l, lst_Rejected = lc_Rejected l,
     lst_Active = lc_Active l \<rparr>"

text \<open>
  The accept loop of \<open>Serve\<close>: what each \<open>Accept\<close> gives, with whether the
  context is cancelled by then.
\<close>

datatype accept_event = AConn | ATimeout | AError

datatype serve_end = ServeStopped | ServeFailed

fun Serve :: "(accept_event \<times> bool) list \<Rightarrow> lane_counts \<Rightarrow> serve_end option \<times> lane_counts" where
  "Serve [] l = (None, l)"
| "Serve ((AConn, cancelled) # evs) l = Serve evs (l \<lparr> lc_Conns := lc_Conns l + 1 \<rparr>)"
| "Serve ((ATimeout, cancelled) # evs) l = (if cancelled then (Some ServeStopped, l) else Serve evs l)"
| "Serve ((AError, cancelled) # evs) l = (if cancelled then (Some ServeStopped, l) else (Some ServeFailed, l))"

text \<open>How long the \<open>k\<close>-th connection to drain waits before its FIN.\<close>

definition drain_wait :: "duration \<Rightarrow> duration \<Rightarrow> nat \<Rightarrow> duration" where
  "drain_wait stagger timeout k = (if stagger > 0 then min (int k * stagger) (timeout div 2) else 0)"

text \<open>
  The interleavings of connections: starting one, making it live, one more
  object on it, an object's outcome, retiring it and ending it.  The list is
  every object handed over so far, the number the connections that are open but
  not live (just started, or about to end).
\<close>

inductive lane_reach :: "bytes list \<Rightarrow> nat \<Rightarrow> lane_counts \<Rightarrow> bool" where
  init: "lane_reach [] 0 lane_counts_zero"
| start: "lane_reach xs p l \<Longrightarrow> lane_reach xs (Suc p) (l \<lparr> lc_Conns := lc_Conns l + 1, lc_Active := lc_Active l + 1 \<rparr>)"
| live: "lane_reach xs (Suc p) l \<Longrightarrow> i \<notin> fst ` set (lc_live l) \<Longrightarrow> lane_reach xs p (addLive i l)"
| object: "lane_reach xs p l \<Longrightarrow> i \<in> fst ` set (lc_live l) \<Longrightarrow> lane_reach (xs @ [obj]) p (count_object i obj l)"
| fault: "lane_reach xs p l \<Longrightarrow> e + d + r \<le> 1 \<Longrightarrow>
    lane_reach xs p (l \<lparr> lc_Errors := lc_Errors l + e, lc_Dropped := lc_Dropped l + d, lc_Rejected := lc_Rejected l + r \<rparr>)"
| retire: "lane_reach xs p l \<Longrightarrow> i \<in> fst ` set (lc_live l) \<Longrightarrow> lane_reach xs (Suc p) (retireLive i l)"
| stop: "lane_reach xs (Suc p) l \<Longrightarrow> lane_reach xs p (l \<lparr> lc_Active := lc_Active l - 1 \<rparr>)"

lemma alist_delete_notin: "i \<notin> fst ` set kvs \<Longrightarrow> AList.delete i kvs = kvs"
  by (induction kvs) auto

lemma alist_delete_sum:
  "distinct (map fst kvs) \<Longrightarrow> map_of kvs i = Some v \<Longrightarrow>
     sum_list (map f (AList.delete i kvs)) + f (i, v) = (sum_list (map f kvs) :: nat) \<and>
     Suc (length (AList.delete i kvs)) = length kvs"
  by (induction kvs) (auto simp: alist_delete_notin split: if_splits)

lemma count_object_sums:
  assumes "distinct (map fst (lc_live l))" and "i \<in> fst ` set (lc_live l)"
  shows "lst_Objects (lane_Stats_of (count_object i obj l)) = lst_Objects (lane_Stats_of l) + 1 \<and>
    lst_Bytes (lane_Stats_of (count_object i obj l)) = lst_Bytes (lane_Stats_of l) + length obj \<and>
    map fst (lc_live (count_object i obj l)) = map fst (lc_live l)"
proof -
  have off: "map (\<lambda>(j, n, b). if j = i then (j, n + 1, b + length obj) else (j, n, b)) kvs = kvs"
    if "i \<notin> fst ` set kvs" for kvs :: "(nat \<times> nat \<times> nat) list"
    using that by (induction kvs) auto
  have "distinct (map fst kvs) \<Longrightarrow> i \<in> fst ` set kvs \<Longrightarrow>
      (let kvs' = map (\<lambda>(j, n, b). if j = i then (j, n + 1, b + length obj) else (j, n, b)) kvs in
       sum_list (map (\<lambda>(i, n, b). n) kvs') = sum_list (map (\<lambda>(i, n, b). n) kvs) + 1 \<and>
       sum_list (map (\<lambda>(i, n, b). b) kvs') = sum_list (map (\<lambda>(i, n, b). b) kvs) + length obj)"
    for kvs :: "(nat \<times> nat \<times> nat) list"
  proof (induction kvs)
    case (Cons kv kvs)
    then show ?case by (cases "fst kv = i") (auto simp: Let_def off split: prod.splits)
  qed simp
  from this [OF assms] show ?thesis
    by (simp add: lane_Stats_of_def count_object_def Let_def case_prod_beta if_distrib [of fst] o_def)
qed

lemma lane_reach_inv:
  "lane_reach xs p l \<Longrightarrow> distinct (map fst (lc_live l)) \<and> lst_Objects (lane_Stats_of l) = length xs \<and>
     lst_Bytes (lane_Stats_of l) = length (concat xs) \<and> lst_Active (lane_Stats_of l) = int p + int (length (lc_live l))"
proof (induction rule: lane_reach.induct)
  case init
  then show ?case by (simp add: lane_counts_zero_def lane_Stats_of_def)
next
  case (live xs p l i)
  then show ?case by (auto simp: addLive_def lane_Stats_of_def alist_delete_notin)
next
  case (object xs p l i obj)
  have "length (lc_live (count_object i obj l)) = length (lc_live l)" by (simp add: count_object_def)
  moreover have "lc_Active (count_object i obj l) = lc_Active l" by (simp add: count_object_def)
  ultimately show ?case
    using object count_object_sums [of l i obj] by (simp add: lane_Stats_of_def)
next
  case (retire xs p l i)
  then obtain n b where i: "map_of (lc_live l) i = Some (n, b)" by (metis map_of_eq_None_iff option.exhaust surj_pair)
  have d: "distinct (map fst (lc_live l))" using retire by blast
  show ?case
    using retire i alist_delete_sum [OF d i, of "\<lambda>(i, n, b). n"] alist_delete_sum [OF d i, of "\<lambda>(i, n, b). b"]
    by (auto simp: retireLive_def lane_Stats_of_def AList.distinct_delete)
qed (simp_all add: lane_Stats_of_def)

section \<open>Properties of a lane\<close>

definition is_end :: "reader_event \<Rightarrow> bool" where
  "is_end ev = (case ev of REnd _ \<Rightarrow> True | _ \<Rightarrow> False)"

definition within_ceiling :: "Lane \<Rightarrow> bytes \<Rightarrow> bool" where
  "within_ceiling L obj \<longleftrightarrow> ln_MaxObject L \<le> 0 \<or> int (length obj) \<le> ln_MaxObject L"

lemma call_flush_ok: "(\<And>s. fst (fl s)) \<Longrightarrow> call_flush L fl c = (True, snd (call_flush L fl c))"
  by (cases "fl (cn_session c)") (simp add: call_flush_def, metis fst_conv)

lemma event_objs_simps [simp]:
  "event_objs [] = []" "event_objs ((RFill, x) # evs) = event_objs evs"
  "event_objs ((RObj b, x) # evs) = b # event_objs evs" "event_objs ((REnd e, x) # evs) = event_objs evs"
  by (simp_all add: event_objs_def)

lemma serveConn_hands_on_all:
  assumes flush: "\<And>s. fst (fl s)" and drain: "ln_DrainTimeout L > 0 \<or> (\<forall>x \<in> set evs. \<not> snd x)"
    and fits: "\<forall>obj \<in> set (event_objs evs). within_ceiling L obj"
    and no_end: "\<forall>x \<in> set evs. \<not> is_end (fst x)" and last: "ln_DrainTimeout L > 0 \<or> \<not> cx" and ok: "conn_ok c"
  shows "\<exists>c'. serveConn L h fl atTop (evs @ [(REnd e, cx)]) c = (True, c') \<and>
    handled_objs (cn_calls c') = handled_objs (cn_calls c) @ event_objs evs"
  using drain fits no_end ok
proof (induction evs arbitrary: c atTop)
  case Nil
  then show ?case using last by auto
next
  case (Cons x evs)
  obtain ev cancelled where x: "x = (ev, cancelled)" by (cases x)
  have run: "\<not> (atTop \<and> cancelled \<and> \<not> ln_DrainTimeout L > 0)" using Cons.prems(1) by (auto simp: x)
  show ?case
  proof (cases ev)
    case RFill
    define c1 where "c1 = snd (call_flush L fl c) \<lparr> cn_calls := cn_calls (snd (call_flush L fl c)) @ [CRead] \<rparr>"
    have c1: "conn_ok c1" "handled_objs (cn_calls c1) = handled_objs (cn_calls c)"
      using call_flush_facts(1) [OF Cons.prems(4), of L fl] call_flush_facts(2) [of L fl c]
      by (simp_all add: c1_def conn_ok_def)
    have "serveConn L h fl atTop ((x # evs) @ [(REnd e, cx)]) c = serveConn L h fl False (evs @ [(REnd e, cx)]) c1"
      using run call_flush_ok [where fl = fl and L = L and c = c, OF flush] by (auto simp: x RFill c1_def split: prod.splits)
    then show ?thesis using Cons.IH [of c1 False] Cons.prems c1 by (auto simp: x RFill)
  next
    case (RObj obj)
    note d = deliver_facts [OF Cons.prems(4), of L h obj]
    have "serveConn L h fl atTop ((x # evs) @ [(REnd e, cx)]) c =
        serveConn L h fl True (evs @ [(REnd e, cx)]) (deliver L h obj c)"
      using run Cons.prems(2) by (auto simp: x RObj within_ceiling_def)
    then show ?thesis using Cons.IH [of "deliver L h obj c" True] Cons.prems d by (auto simp: x RObj)
  qed (use Cons.prems(3) in \<open>simp add: x is_end_def\<close>)
qed

text \<open>
  whatever a connection's reader yields, the handler sees a prefix of the
  objects in order and byte for byte, all of them as long as the connection is
  open; the connection's counters agree with the calls made; every read of the
  network comes right after a \<open>Flush\<close>, and a connection that ends has flushed
  last.
\<close>

theorem lane_hands_on_in_order:
  assumes "serveConn L h fl True evs (conn_open sess) = (ended, c)"
  shows "(\<exists>k. handled_objs (cn_calls c) = take k (event_objs evs) \<and> (\<not> ended \<longrightarrow> length (event_objs evs) \<le> k)) \<and>
    cn_objects c = length (handled_objs (cn_calls c)) \<and> cn_bytes c = length (concat (handled_objs (cn_calls c))) \<and>
    cn_rejected c + cn_errors c \<le> cn_objects c \<and>
    (ln_hasFlush L \<longrightarrow> reads_flushed (cn_calls c) \<and> (ended \<longrightarrow> cn_calls c \<noteq> [] \<and> last (cn_calls c) = CFlush))"
proof -
  have "conn_ok (conn_open sess)" by (simp add: conn_ok_def conn_open_def owner_ok_def owner_init_def)
  from serveConn_inv [OF this assms] show ?thesis by (simp add: conn_inv_def conn_ok_def) (simp add: conn_open_def)
qed

definition sample_lane :: Lane where
  "sample_lane = \<lparr> ln_Owned = True, ln_MaxObject = 4, ln_DrainTimeout = 5000000000, ln_hasFlush = True \<rparr>"

definition sample_events :: "(reader_event \<times> bool) list" where
  "sample_events = [(RFill, False), (RObj [1, 2], False), (RObj [3], False), (RFill, True), (RObj [4], True)]"

lemma sample_run:
  "serveConn sample_lane (\<lambda>obj s. (HandledOk, s)) (\<lambda>s. (True, s)) True sample_events (conn_open ()) =
     (False, \<lparr> cn_session = (), cn_owner = \<lparr> ow_slabs = [[1, 2, 3, 4]], ow_cur = Some 0 \<rparr>, cn_objects = 3, cn_bytes = 4,
        cn_errors = 0, cn_rejected = 0, cn_dropped = 0,
        cn_calls = [CFlush, CRead, CHandle [1, 2], CHandle [3], CFlush, CRead, CHandle [4]] \<rparr>)"
  by (simp add: sample_lane_def sample_events_def conn_open_def owner_init_def call_flush_def deliver_def own_def
      slab_room_def slabSize_def read_ref_def)

theorem lane_hands_on_in_order_witness:
  "let (ended, c) = serveConn sample_lane (\<lambda>obj s. (HandledOk, s)) (\<lambda>s. (True, s)) True sample_events (conn_open ()) in
     (\<exists>k. handled_objs (cn_calls c) = take k [[1, 2], [3], [4]] \<and> 3 \<le> k) \<and> cn_objects c = 3 \<and> reads_flushed (cn_calls c)"
  unfolding sample_run Let_def split
  using lane_hands_on_in_order [OF sample_run]
  by (simp add: sample_events_def numeral_3_eq_3) (simp add: sample_lane_def)

text \<open>
  The goroutine beside the loop, once the context is cancelled at \<open>t0\<close>: on a TCP
  connection of a draining lane it waits its turn, sends the FIN and sets the
  read deadline; any other connection it closes.
\<close>

datatype drain_action = HalfClose time time | CloseAt time

definition drain_goroutine :: "Lane \<Rightarrow> bool \<Rightarrow> duration \<Rightarrow> nat \<Rightarrow> time \<Rightarrow> drain_action" where
  "drain_goroutine L tcp stagger k t0 =
     (if tcp \<and> ln_DrainTimeout L > 0 then
        (let fin = t0 + drain_wait stagger (ln_DrainTimeout L) k in HalfClose fin (fin + ln_DrainTimeout L))
      else CloseAt t0)"

fun cutoff :: "drain_action \<Rightarrow> time" where
  "cutoff (HalfClose fin deadline) = deadline"
| "cutoff (CloseAt t) = t"

text \<open>
  What the loop sees of a reader whose events come with the time they would
  come without that goroutine: a read that has not returned by the cut-off
  returns an error instead.  The loop looks at the context right after the
  event before, at \<open>prev\<close>.
\<close>

fun timed_events :: "drain_action \<Rightarrow> time \<Rightarrow> time \<Rightarrow> (time \<times> reader_event) list \<Rightarrow> (reader_event \<times> bool) list" where
  "timed_events act t0 prev [] = []"
| "timed_events act t0 prev ((t, ev) # evs) =
     (case ev of
        RFill \<Rightarrow>
          if cutoff act \<le> t then [(RFill, t0 \<le> prev), (REnd ReadNetError, True)]
          else (RFill, t0 \<le> prev) # timed_events act t0 t evs
      | RObj obj \<Rightarrow> (RObj obj, t0 \<le> prev) # timed_events act t0 t evs
      | REnd e \<Rightarrow> (REnd e, t0 \<le> t) # timed_events act t0 t evs)"

definition timed_objs :: "(time \<times> reader_event) list \<Rightarrow> bytes list" where
  "timed_objs tevs = concat (map (\<lambda>x. case snd x of RObj b \<Rightarrow> [b] | _ \<Rightarrow> []) tevs)"

lemma timed_events_kept:
  assumes "\<forall>(t, ev) \<in> set tevs. ev = RFill \<longrightarrow> t < cutoff act" and "\<forall>(t, ev) \<in> set tevs. \<not> is_end ev"
  shows "\<exists>evs prev'. (\<forall>rest. timed_events act t0 prev (tevs @ rest) = evs @ timed_events act t0 prev' rest) \<and>
    event_objs evs = timed_objs tevs \<and> (\<forall>x \<in> set evs. \<not> is_end (fst x))"
  using assms
proof (induction tevs arbitrary: prev)
  case Nil
  then show ?case by (intro exI [of _ "[]"] exI [of _ prev]) (simp add: timed_objs_def)
next
  case (Cons x tevs)
  obtain t ev where x: "x = (t, ev)" by (cases x)
  obtain evs prev' where IH: "\<forall>rest. timed_events act t0 t (tevs @ rest) = evs @ timed_events act t0 prev' rest"
      "event_objs evs = timed_objs tevs" "\<forall>x \<in> set evs. \<not> is_end (fst x)"
    using Cons.IH [of t] Cons.prems by auto
  have "\<not> is_end ev" "ev = RFill \<longrightarrow> t < cutoff act" using Cons.prems by (auto simp: x)
  then show ?case
    using IH by (intro exI [of _ "(ev, t0 \<le> prev) # evs"] exI [of _ prev']) (cases ev; auto simp: x timed_objs_def is_end_def)
qed

lemma conn_open_ok: "conn_ok (conn_open sess)"
  by (simp add: conn_ok_def conn_open_def owner_ok_def owner_init_def)

lemma conn_ends_flushed:
  assumes "serveConn L h fl True evs (conn_open sess) = (True, c)" and "ln_hasFlush L"
  shows "last (cn_calls c) = CFlush"
  using serveConn_inv [OF conn_open_ok assms(1)] assms(2) by (simp add: conn_inv_def) (simp add: conn_open_def)

text \<open>
  C20: A shutdown with a drain timeout loses nothing that arrives within it.  On a
  TCP connection of a draining lane, whatever its turn in the stagger, if the
  flushes succeed, the objects keep to the lane's ceiling and every read returns
  within the drain timeout of the connection's FIN, then every object the peer
  sent before it ended the stream reaches the handler, in order, the connection
  ends, and if the lane has a flush the last call is that flush.
\<close>

theorem lane_drain_lossless:
  assumes "\<And>s. fst (fl s)" and "ln_DrainTimeout L > 0"
    and "\<forall>(t, ev) \<in> set tevs. ev = RFill \<longrightarrow> t < (t0 + drain_wait stagger (ln_DrainTimeout L) k) + ln_DrainTimeout L"
    and "\<forall>obj \<in> set (timed_objs tevs). within_ceiling L obj" and "\<forall>(t, ev) \<in> set tevs. \<not> is_end ev"
  shows "\<exists>c. serveConn L h fl True
      (timed_events (drain_goroutine L True stagger k t0) t0 start (tevs @ [(te, REnd e)])) (conn_open sess) = (True, c) \<and>
    handled_objs (cn_calls c) = timed_objs tevs \<and> (ln_hasFlush L \<longrightarrow> last (cn_calls c) = CFlush)"
proof -
  let ?act = "drain_goroutine L True stagger k t0"
  have "cutoff ?act = (t0 + drain_wait stagger (ln_DrainTimeout L) k) + ln_DrainTimeout L"
    using assms(2) by (simp add: drain_goroutine_def Let_def)
  then obtain evs prev' where evs: "timed_events ?act t0 start (tevs @ [(te, REnd e)]) = evs @ [(REnd e, t0 \<le> te)]"
      "event_objs evs = timed_objs tevs" "\<forall>x \<in> set evs. \<not> is_end (fst x)"
    using timed_events_kept [where act = ?act and ?t0.0 = t0 and prev = start, OF _ assms(5)] assms(3) by fastforce
  obtain c where c: "serveConn L h fl True (evs @ [(REnd e, t0 \<le> te)]) (conn_open sess) = (True, c)"
      "handled_objs (cn_calls c) = timed_objs tevs"
    using serveConn_hands_on_all [where fl = fl and L = L and cx = "t0 \<le> te" and h = h and e = e and atTop = True,
        OF assms(1) _ _ evs(3) _ conn_open_ok] assms(2,4) evs(2)
    by (auto simp: conn_open_def)
  show ?thesis using c evs(1) conn_ends_flushed [OF c(1)] by auto
qed

definition drained_events :: "(time \<times> reader_event) list" where
  "drained_events = [(0, RFill), (0, RObj [1, 2]), (0, RObj [3]), (14, RFill), (14, RObj [4])]"

theorem lane_drain_lossless_witness:
  "\<exists>c. serveConn (sample_lane \<lparr> ln_DrainTimeout := 10 \<rparr>) (\<lambda>obj s. (HandledOk, s @ [obj])) (\<lambda>s. (True, s)) True
      (timed_events (drain_goroutine (sample_lane \<lparr> ln_DrainTimeout := 10 \<rparr>) True 3 9 1) 1 0 (drained_events @ [(15, REnd ReadEOF)]))
      (conn_open []) = (True, c) \<and>
    handled_objs (cn_calls c) = timed_objs drained_events \<and>
    (ln_hasFlush (sample_lane \<lparr> ln_DrainTimeout := 10 \<rparr>) \<longrightarrow> last (cn_calls c) = CFlush)"
proof (rule lane_drain_lossless)
  show "fst (True, s)" for s :: "bytes list" by simp
qed (simp_all add: sample_lane_def drained_events_def within_ceiling_def is_end_def drain_wait_def timed_objs_def)

text \<open>
  The drain is bounded: a read that would return one and a half drain timeouts
  after the cancellation, or later, ends the connection instead.
\<close>

theorem lane_drain_bounded:
  assumes "\<And>s. fst (fl s)" and "ln_DrainTimeout L > 0" and "t0 + ln_DrainTimeout L + ln_DrainTimeout L div 2 \<le> t"
    and "\<forall>(t, ev) \<in> set tevs. ev = RFill \<longrightarrow> t < cutoff (drain_goroutine L True stagger k t0)"
    and "\<forall>obj \<in> set (timed_objs tevs). within_ceiling L obj" and "\<forall>(t, ev) \<in> set tevs. \<not> is_end ev"
  shows "\<exists>c. serveConn L h fl True
      (timed_events (drain_goroutine L True stagger k t0) t0 start (tevs @ (t, RFill) # tail)) (conn_open sess) = (True, c) \<and>
    handled_objs (cn_calls c) = timed_objs tevs"
proof -
  let ?act = "drain_goroutine L True stagger k t0"
  have "drain_wait stagger (ln_DrainTimeout L) k \<le> ln_DrainTimeout L div 2" using assms(2) by (simp add: drain_wait_def)
  then have cut: "cutoff ?act \<le> t" using assms(2,3) by (simp add: drain_goroutine_def Let_def)
  obtain evs prev' where evs: "timed_events ?act t0 start (tevs @ (t, RFill) # tail) = evs @ [(RFill, t0 \<le> prev'), (REnd ReadNetError, True)]"
      "event_objs evs = timed_objs tevs" "\<forall>x \<in> set evs. \<not> is_end (fst x)"
    using timed_events_kept [where act = ?act and ?t0.0 = t0 and prev = start, OF assms(4,6)] cut by force
  let ?evs = "evs @ [(RFill, t0 \<le> prev')]"
  have o: "event_objs ?evs = timed_objs tevs" using evs(2) by (simp add: event_objs_def)
  have e: "\<forall>x \<in> set ?evs. \<not> is_end (fst x)" using evs(3) by (auto simp: is_end_def)
  show ?thesis
    using serveConn_hands_on_all [where fl = fl and L = L and cx = True and h = h and e = ReadNetError and atTop = True and evs = ?evs,
        OF assms(1) _ _ e _ conn_open_ok [of sess]] assms(2,5) o evs(1)
    by (auto simp: conn_open_def)
qed

theorem lane_drain_bounded_witness:
  "\<exists>c. serveConn (sample_lane \<lparr> ln_DrainTimeout := 10 \<rparr>) (\<lambda>obj s. (HandledOk, s @ [obj])) (\<lambda>s. (True, s)) True
      (timed_events (drain_goroutine (sample_lane \<lparr> ln_DrainTimeout := 10 \<rparr>) True 3 9 1) 1 0 (drained_events @ (16, RFill) # [(17, RObj [5])]))
      (conn_open []) = (True, c) \<and> handled_objs (cn_calls c) = timed_objs drained_events"
proof (rule lane_drain_bounded)
  show "fst (True, s)" for s :: "bytes list" by simp
qed (simp_all add: sample_lane_def drained_events_def within_ceiling_def is_end_def drain_wait_def timed_objs_def drain_goroutine_def)

text \<open>
  the copies an owned lane hands out may be kept.  After any sequence of
  objects, small or large, across as many slabs as they need, every reference
  handed out still reads back as the object it was made of.
\<close>

theorem owned_copies_stable:
  assumes "own_all xs owner_init = (rs, a)"
  shows "map (read_ref a) rs = xs"
proof -
  have "owner_ok owner_init" by (simp add: owner_ok_def owner_init_def)
  then show ?thesis using own_all_stable assms by blast
qed

theorem owned_copies_stable_witness:
  "map (read_ref (snd (own_all [[1, 2], [], [3]] owner_init))) (fst (own_all [[1, 2], [], [3]] owner_init)) = [[1, 2], [], [3]]"
  by (rule owned_copies_stable) simp

text \<open>
  under every interleaving of connections a snapshot of the lane's counters
  is exact: its objects and bytes are those handed over on connections live and
  retired alike, so retiring a connection neither loses nor repeats any.
\<close>

theorem lane_stats_exact:
  assumes "lane_reach xs p l"
  shows "lst_Objects (lane_Stats_of l) = length xs \<and> lst_Bytes (lane_Stats_of l) = length (concat xs) \<and>
    lst_Active (lane_Stats_of l) = int p + int (length (lc_live l))"
  using lane_reach_inv [OF assms] by blast

theorem lane_stats_exact_witness:
  "lst_Objects (lane_Stats_of (retireLive 0 (count_object 0 [7, 8] (addLive 0
     (lane_counts_zero \<lparr> lc_Conns := 1, lc_Active := 1 \<rparr>))))) = 1"
proof -
  have "lane_reach [] (Suc 0) (lane_counts_zero \<lparr> lc_Conns := 1, lc_Active := 1 \<rparr>)"
    using lane_reach.start [OF lane_reach.init] by (simp add: lane_counts_zero_def)
  then have "lane_reach [] 0 (addLive 0 (lane_counts_zero \<lparr> lc_Conns := 1, lc_Active := 1 \<rparr>))"
    by (rule lane_reach.live) (simp add: lane_counts_zero_def)
  then have "lane_reach ([] @ [[7, 8]]) 0 (count_object 0 [7, 8] (addLive 0 (lane_counts_zero \<lparr> lc_Conns := 1, lc_Active := 1 \<rparr>)))"
    by (rule lane_reach.object) (simp add: addLive_def)
  then have "lane_reach ([] @ [[7, 8]]) (Suc 0) (retireLive 0 (count_object 0 [7, 8] (addLive 0
      (lane_counts_zero \<lparr> lc_Conns := 1, lc_Active := 1 \<rparr>))))"
    by (rule lane_reach.retire) (simp add: addLive_def count_object_def lane_counts_zero_def)
  from lane_stats_exact [OF this] show ?thesis by simp
qed

end
