(* ===== verification/Handlers.thy ===== *)
theory Handlers
  imports Reverse Announce Retrieval Lanes
begin

text \<open>
  \<open>cmd/teranode-bridge\<close>, the lane handlers: \<open>handleSubtree\<close> and \<open>handleBlock\<close>
  with the echo check and the announce gate they share.  The state is what
  \<open>main\<close> builds and the handlers are given; the records sent to the broker are
  returned with the outcome.  A handler reads the clock once per call here,
  where the source reads it in each callee.
\<close>

section \<open>State\<close>

record bridge =
  br_objects :: Cache
  br_txs :: "Generational option"
  br_seen :: Registry
  br_announced :: Registry
  br_producer :: "Producer option"
  br_baseURL :: string
  br_echoOK :: nat
  br_echoBad :: nat

datatype handler_error =
    FrameTooShort nat
  | BadRoot hashid_error
  | AnnounceFailed announce_error
  | HandlerPanic

text \<open>The broker: the wire primitives, and which records it acknowledges.\<close>

record broker =
  bk_wire :: protowire
  bk_acked :: "string \<times> bytes \<Rightarrow> bool"

type_synonym sent = "(string \<times> bytes) list"

type_synonym outcome = "handler_error option \<times> sent \<times> bridge"

section \<open>The handlers\<close>

definition verifyEcho :: "time \<Rightarrow> hash \<Rightarrow> bytes \<Rightarrow> bridge \<Rightarrow> bridge" where
  "verifyEcho now h obj b =
     (if Lookup h (br_seen b) \<noteq> Some Submitted then b
      else case cache_Get now h (br_objects b) of
        (None, c) \<Rightarrow> b \<lparr> br_objects := c \<rparr>
      | (Some (sent, cls), c) \<Rightarrow>
          if sent \<noteq> obj then b \<lparr> br_objects := c, br_echoBad := br_echoBad b + 1 \<rparr>
          else b \<lparr> br_objects := c, br_echoOK := br_echoOK b + 1 \<rparr>)"

definition mark_announced :: "time \<Rightarrow> hash \<Rightarrow> bridge \<Rightarrow> bridge" where
  "mark_announced now h b = b \<lparr> br_announced := snd (Mark now h Delivered (br_announced b)) \<rparr>"

definition mark_seen :: "time \<Rightarrow> hash \<Rightarrow> bridge \<Rightarrow> bridge" where
  "mark_seen now h b = b \<lparr> br_seen := snd (Mark now h Delivered (br_seen b)) \<rparr>"

fun announce_class :: "obj_class \<Rightarrow> broker \<Rightarrow> time \<Rightarrow> string \<Rightarrow> string \<Rightarrow> Producer \<Rightarrow> announce_error option \<times> sent \<times> Producer" where
  "announce_class ClsSubtree K now h url p = announce_Subtree (bk_wire K) (bk_acked K) now h url p"
| "announce_class ClsBlock K now h url p = announce_Block (bk_wire K) (bk_acked K) now h url p"

text \<open>The tail both handlers share, from the unconditional mark in \<open>seen\<close> on.\<close>

definition announce_gate :: "broker \<Rightarrow> time \<Rightarrow> obj_class \<Rightarrow> hash \<Rightarrow> bridge \<Rightarrow> outcome" where
  "announce_gate K now cls h b =
     (let dir = fst (Mark now h Delivered (br_seen b)); b = mark_seen now h b in
      if dir = Some Submitted then (None, [], b)
      else if Lookup h (br_announced b) \<noteq> None then (None, [], mark_announced now h b)
      else case br_producer b of
        None \<Rightarrow> (None, [], mark_announced now h b)
      | Some p \<Rightarrow>
          (case announce_class cls K now (Display h) (br_baseURL b) p of
             (Some e, rs, p) \<Rightarrow> (Some (AnnounceFailed e), rs, b \<lparr> br_producer := Some p \<rparr>)
           | (None, rs, p) \<Rightarrow> (None, rs, mark_announced now h (b \<lparr> br_producer := Some p \<rparr>))))"

definition store_object :: "time \<Rightarrow> obj_class \<Rightarrow> hash \<Rightarrow> bytes \<Rightarrow> bridge \<Rightarrow> bridge" where
  "store_object now cls h obj b = b \<lparr> br_objects := cache_Put now h (class_name cls) obj (br_objects b) \<rparr>"

definition handleSubtree :: "objfmt \<Rightarrow> broker \<Rightarrow> time \<Rightarrow> bytes \<Rightarrow> bridge \<Rightarrow> outcome" where
  "handleSubtree F K now obj b =
     (if length obj < SubtreeHeaderSize F then (Some (FrameTooShort (length obj)), [], b)
      else if length obj < 32 then (Some HandlerPanic, [], b)
      else case FromWire (take 32 obj) of
        Inl e \<Rightarrow> (Some (BadRoot e), [], b)
      | Inr root \<Rightarrow>
          announce_gate K now ClsSubtree root (store_object now ClsSubtree root obj (verifyEcho now root obj b)))"

definition mark_roots :: "time \<Rightarrow> hash list \<Rightarrow> bridge \<Rightarrow> bridge" where
  "mark_roots now rs b = fold (\<lambda>r b. mark_announced now r (mark_seen now r b)) rs b"

definition handleBlock :: "objfmt \<Rightarrow> broker \<Rightarrow> time \<Rightarrow> bytes \<Rightarrow> bridge \<Rightarrow> outcome" where
  "handleBlock F K now obj b =
     (if length obj < BlockPrefixSize F then (Some (FrameTooShort (length obj)), [], b)
      else if length obj < 80 then (Some HandlerPanic, [], b)
      else
        let h = DoubleSHA256 (take 80 obj);
            b = store_object now ClsBlock h obj (verifyEcho now h obj b)
        in case SubtreeRootsOf F obj of
             Inl Panic \<Rightarrow> (Some HandlerPanic, [], b)
           | Inl e \<Rightarrow> announce_gate K now ClsBlock h b
           | Inr rs \<Rightarrow> announce_gate K now ClsBlock h (mark_roots now rs b))"

text \<open>How the lane sees a handler's outcome: these handlers never refuse on format policy.\<close>

definition lane_result :: "handler_error option \<Rightarrow> handled" where
  "lane_result e = (case e of None \<Rightarrow> HandledOk | Some _ \<Rightarrow> HandledError)"

section \<open>What each part leaves alone\<close>

lemma verifyEcho_frame [simp]:
  "br_seen (verifyEcho now h obj b) = br_seen b" "br_announced (verifyEcho now h obj b) = br_announced b"
  "br_producer (verifyEcho now h obj b) = br_producer b" "br_baseURL (verifyEcho now h obj b) = br_baseURL b"
  "br_txs (verifyEcho now h obj b) = br_txs b"
  by (simp_all add: verifyEcho_def split: prod.splits option.splits)

lemma store_object_frame [simp]:
  "br_seen (store_object now cls h obj b) = br_seen b" "br_announced (store_object now cls h obj b) = br_announced b"
  "br_producer (store_object now cls h obj b) = br_producer b" "br_baseURL (store_object now cls h obj b) = br_baseURL b"
  "br_txs (store_object now cls h obj b) = br_txs b"
  by (simp_all add: store_object_def)

lemma mark_frames [simp]:
  "br_objects (mark_seen now h b) = br_objects b" "br_objects (mark_announced now h b) = br_objects b"
  "br_announced (mark_seen now h b) = br_announced b" "br_seen (mark_announced now h b) = br_seen b"
  "br_producer (mark_seen now h b) = br_producer b" "br_producer (mark_announced now h b) = br_producer b"
  "br_baseURL (mark_seen now h b) = br_baseURL b" "br_baseURL (mark_announced now h b) = br_baseURL b"
  "br_seen (mark_seen now h b) = snd (Mark now h Delivered (br_seen b))"
  "br_announced (mark_announced now h b) = snd (Mark now h Delivered (br_announced b))"
  "br_echoOK (mark_seen now h b) = br_echoOK b" "br_echoOK (mark_announced now h b) = br_echoOK b"
  "br_echoBad (mark_seen now h b) = br_echoBad b" "br_echoBad (mark_announced now h b) = br_echoBad b"
  by (simp_all add: mark_seen_def mark_announced_def)

text \<open>The marks a list of roots makes, in one registry.\<close>

definition root_marks :: "time \<Rightarrow> hash list \<Rightarrow> (time \<times> hash \<times> Direction) list" where
  "root_marks now rs = map (\<lambda>r. (now, r, Delivered)) rs"

lemma mark_roots_facts:
  "br_objects (mark_roots now rs b) = br_objects b"
  "br_producer (mark_roots now rs b) = br_producer b" "br_baseURL (mark_roots now rs b) = br_baseURL b"
  "br_seen (mark_roots now rs b) = run_marks Mark (root_marks now rs) (br_seen b)"
  "br_announced (mark_roots now rs b) = run_marks Mark (root_marks now rs) (br_announced b)"
  "br_echoOK (mark_roots now rs b) = br_echoOK b" "br_echoBad (mark_roots now rs b) = br_echoBad b"
  by (induction rs arbitrary: b; simp add: mark_roots_def root_marks_def)+

lemma run_marks_append: "run_marks m (xs @ ys) r = run_marks m ys (run_marks m xs r)"
  by (induction m xs r rule: run_marks.induct) simp_all

lemma announce_gate_facts:
  assumes "announce_gate K now cls h b = (e, rs, b')"
  shows "br_objects b' = br_objects b" "br_baseURL b' = br_baseURL b"
    "br_seen b' = snd (Mark now h Delivered (br_seen b))"
    "br_echoOK b' = br_echoOK b" "br_echoBad b' = br_echoBad b"
    "br_announced b' = br_announced b \<or> br_announced b' = snd (Mark now h Delivered (br_announced b))"
  using assms by (auto simp: announce_gate_def Let_def split: if_splits option.splits prod.splits)

lemma announce_class_sent:
  assumes "announce_class cls K now h url p = (e, rs, p')" and "protowire_laws (bk_wire K)"
  shows "(e = None \<longrightarrow> rs \<noteq> []) \<and> ann_cfg p' = ann_cfg p \<and>
    (\<forall>(topic, v) \<in> set rs. topic = (case cls of ClsSubtree \<Rightarrow> SubtreeTopic (ann_cfg p) | ClsBlock \<Rightarrow> BlockTopic (ann_cfg p)) \<and>
       Message_Decode (bk_wire K) v = Some \<lparr> msg_Hash = h, msg_URL = url, msg_PeerID = PeerID (ann_cfg p) \<rparr>)"
  using assms decode_encode [OF assms(2)]
  by (cases cls) (auto simp: announce_Subtree_def announce_Block_def produce_def Let_def split: if_splits)

text \<open>A record is sent only for a hash that is neither an echo nor already announced.\<close>

lemma announce_gate_sent:
  assumes "announce_gate K now cls h b = (e, rs, b')" and "rs \<noteq> []"
  shows "fst (Mark now h Delivered (br_seen b)) \<noteq> Some Submitted \<and> Lookup h (br_announced b) = None \<and>
    (\<exists>p p'. br_producer b = Some p \<and> br_producer b' = Some p' \<and>
       announce_class cls K now (Display h) (br_baseURL b) p = (case e of Some (AnnounceFailed a) \<Rightarrow> Some a | _ \<Rightarrow> None, rs, p'))"
  using assms by (auto simp: announce_gate_def Let_def split: if_splits option.splits prod.splits)

lemma announce_gate_records:
  assumes "announce_gate K now cls h b = (None, rs, b')" and "registry_ok c (br_announced b)"
    and "fst (Mark now h Delivered (br_seen b)) \<noteq> Some Submitted"
  shows "Lookup h (br_announced b') \<noteq> None"
  using assms reg.mark_records [OF assms(2), of h now Delivered]
  by (auto simp: announce_gate_def Let_def split: if_splits option.splits prod.splits)

lemma announce_gate_failed:
  assumes "announce_gate K now cls h b = (Some e, rs, b')"
  shows "br_announced b' = br_announced b \<and> Lookup h (br_announced b') = None"
  using assms by (auto simp: announce_gate_def Let_def split: if_splits option.splits prod.splits)

lemma cache_ok_verifyEcho: "cache_ok mb ttl (br_objects b) \<Longrightarrow> cache_ok mb ttl (br_objects (verifyEcho now h obj b))"
  using cache_ok_Get [of mb ttl "br_objects b" now h] by (auto simp: verifyEcho_def split: prod.splits option.splits)

lemma held_verifyEcho:
  assumes "cache_ok mb ttl (br_objects b)" and "cache_held k (br_objects (verifyEcho now h obj b)) = Some v"
  shows "cache_held k (br_objects b) = Some v"
  using assms lru.get_held [OF assms(1), of k now h v] by (auto simp: verifyEcho_def split: prod.splits option.splits if_splits)

section \<open>What a delivery stores\<close>

lemma stored_then_get:
  assumes "cache_ok mb ttl (br_objects b)" and "bodies_within M (br_objects b)" and "int (length obj) \<le> M"
    and "cache_held h (br_objects b) = None \<or> cache_held h (br_objects b) = Some (obj, class_name cls)"
    and "\<forall>op \<in> set ops. op_within now ttl M op" and "int (Suc (touches h ops)) * M \<le> mb" and "t' - now \<le> ttl"
  shows "fst (cache_Get t' h (cache_run ops (br_objects (store_object now cls h obj (verifyEcho now h obj b))))) =
    Some (obj, class_name cls)"
proof -
  let ?b = "verifyEcho now h obj b"
  have ok: "cache_ok mb ttl (br_objects ?b)" using assms(1) by (rule cache_ok_verifyEcho)
  have small: "bodies_within M (br_objects ?b)"
    using assms(2) bodies_within_Get [OF assms(2) cache_ok_length [OF assms(1)], of now h]
    by (auto simp: verifyEcho_def split: prod.splits option.splits)
  have "cache_held h (br_objects ?b) = None \<or> cache_held h (br_objects ?b) = Some (obj, class_name cls)"
    using held_verifyEcho [OF assms(1), of h now h obj] assms(4) by (metis not_None_eq option.inject)
  then show ?thesis
    using cache_retention [OF ok small assms(3) _ assms(5-7)] by (simp add: store_object_def)
qed

lemma handleSubtree_gate:
  assumes "frame_headers F" and "40 \<le> length obj"
  shows "handleSubtree F K now obj b =
    announce_gate K now ClsSubtree (take 32 obj) (store_object now ClsSubtree (take 32 obj) obj (verifyEcho now (take 32 obj) obj b))"
  using assms by (simp add: handleSubtree_def frame_headers_def FromWire_def min_def)

lemma handleSubtree_sent:
  assumes "frame_headers F" and "handleSubtree F K now obj b = (e, rs, b')" and "rs \<noteq> [] \<or> e = None"
  shows "40 \<le> length obj"
  using assms by (auto simp: handleSubtree_def frame_headers_def split: if_splits)

lemma handleBlock_gate:
  assumes "frame_headers F" and "handleBlock F K now obj b = (e, rs, b')" and "rs \<noteq> [] \<or> e = None"
  obtains rt where "104 \<le> length obj"
    "announce_gate K now ClsBlock (DoubleSHA256 (take 80 obj))
       (mark_roots now rt (store_object now ClsBlock (DoubleSHA256 (take 80 obj)) obj (verifyEcho now (DoubleSHA256 (take 80 obj)) obj b)))
       = (e, rs, b')"
    "SubtreeRootsOf F obj = Inr rt \<or> (rt = [] \<and> (\<exists>err. SubtreeRootsOf F obj = Inl err))"
proof -
  have len: "104 \<le> length obj" and np: "SubtreeRootsOf F obj \<noteq> Inl Panic"
    using assms by (auto simp: handleBlock_def frame_headers_def Let_def split: if_splits)
  show thesis
  proof (cases "SubtreeRootsOf F obj")
    case (Inl err)
    then show thesis
      using that [of "[]"] assms len np by (cases err) (simp_all add: handleBlock_def frame_headers_def mark_roots_def Let_def)
  next
    case (Inr rt)
    then show thesis
      using that [of rt] assms len by (simp add: handleBlock_def frame_headers_def Let_def)
  qed
qed

section \<open>Properties\<close>

text \<open>
  C5: An announced subtree can be pulled.  Every record a delivered subtree
  makes the bridge send names, in a message the consumer decodes, a hash and the
  bridge's base URL.  A pull of that hash made within the object cache's
  time-to-live is answered with exactly the delivered node list, whatever was
  stored and read in between, under three conditions: the cache held nothing
  else under the hash when the subtree came, no object is larger than some size
  \<open>M\<close>, and the operations on the object's shard since then, with the object
  itself, make at most as many objects as fit the shard's share of the byte
  ceiling at size \<open>M\<close>.  With no operation in between the last condition is that
  the subtree fits the share.
\<close>

theorem announced_subtree_served:
  assumes "frame_headers F" and "protowire_laws (bk_wire K)" and "cache_ok mb ttl (br_objects b)"
    and "handleSubtree F K now obj b = (e, rs, b')" and "(topic, v) \<in> set rs"
    and "bodies_within M (br_objects b)" and "int (length obj) \<le> M"
    and "cache_held (take 32 obj) (br_objects b) = None \<or> cache_held (take 32 obj) (br_objects b) = Some (obj, ''subtree'')"
    and "\<forall>op \<in> set ops. op_within now ttl M op" and "int (Suc (touches (take 32 obj) ops)) * M \<le> mb"
    and "t' - now \<le> ttl" and "sv_objs sv = cache_run ops (br_objects b')"
  shows "\<exists>m. Message_Decode (bk_wire K) v = Some m \<and> msg_URL m = br_baseURL b \<and>
    fst (getSubtree F cache_Get t' (msg_Hash m) sv) = Served (drop 40 obj)"
proof -
  let ?h = "take 32 obj"
  let ?b = "store_object now ClsSubtree ?h obj (verifyEcho now ?h obj b)"
  have len: "40 \<le> length obj" using handleSubtree_sent [OF assms(1,4)] assms(5) by (cases rs) auto
  have gate: "announce_gate K now ClsSubtree ?h ?b = (e, rs, b')"
    using assms(4) handleSubtree_gate [OF assms(1) len] by simp
  have ne: "rs \<noteq> []" using assms(5) by auto
  obtain p p' x where ann: "announce_class ClsSubtree K now (Display ?h) (br_baseURL b) p = (x, rs, p')"
    using announce_gate_sent [OF gate ne] by auto
  have msg: "Message_Decode (bk_wire K) v = Some \<lparr> msg_Hash = Display ?h, msg_URL = br_baseURL b, msg_PeerID = PeerID (ann_cfg p) \<rparr>"
    using announce_class_sent [OF ann assms(2)] assms(5) by auto
  have "fst (cache_Get t' ?h (cache_run ops (br_objects b'))) = Some (obj, ''subtree'')"
    using stored_then_get [OF assms(3,6,7) _ assms(9-11), of ClsSubtree] assms(8) announce_gate_facts(1) [OF gate] by simp
  moreover have "ParseDisplay (Display ?h) = Inr ?h"
    using len by (simp add: ParseDisplay_Display)
  ultimately have "fst (getSubtree F cache_Get t' (Display ?h) sv) = Served (drop 40 obj)"
    using len assms(1,12) by (auto simp: getSubtree_def Let_def frame_headers_def split: prod.splits)
  then show ?thesis using msg by simp
qed

definition sample_broker :: broker where
  "sample_broker = \<lparr> bk_wire = sample_wire, bk_acked = (\<lambda>r. True) \<rparr>"

definition sample_bridge :: bridge where
  "sample_bridge =
     \<lparr> br_objects = cache_New \<lparr> MaxBytes = 64000, TTL = 100 \<rparr>, br_txs = None, br_seen = registry_New 20 1000 0,
       br_announced = registry_New 20 1000 0, br_producer = Some sample_producer, br_baseURL = ''u'',
       br_echoOK = 0, br_echoBad = 0 \<rparr>"

lemma sample_bridge_ok:
  "cache_ok 1000 100 (br_objects sample_bridge)" "registry_ok 7 (br_seen sample_bridge)"
  "registry_ok 7 (br_announced sample_bridge)" "cache_held h (br_objects sample_bridge) = None"
  "Lookup h (br_seen sample_bridge) = None" "Lookup h (br_announced sample_bridge) = None"
  using cache_ok_New [of "\<lparr> MaxBytes = 64000, TTL = 100 \<rparr>"] registry_ok_New [of 1000 20 0]
  by (simp_all add: sample_bridge_def per_shard_def cache_held_def cache_New_def Let_def Lookup_def lookup_shard_def registry_New_def)

lemma announce_gate_new:
  assumes "registry_ok c (br_seen b)" and "Lookup h (br_seen b) = None" and "Lookup h (br_announced b) = None"
    and "br_producer b = Some p" and "announce_class cls K now (Display h) (br_baseURL b) p = (e, rs, p')"
  shows "fst (announce_gate K now cls h b) = map_option AnnounceFailed e \<and> fst (snd (announce_gate K now cls h b)) = rs"
  using assms reg.mark_fresh [OF assms(1,2), of now Delivered]
  by (cases e) (simp_all add: announce_gate_def Let_def)

lemma sample_announces:
  assumes "\<And>r. bk_acked K r = ok"
  shows "\<exists>v. fst (announce_class cls K now x url sample_producer) = (if ok then None else Some ProduceError) \<and>
    fst (snd (announce_class cls K now x url sample_producer)) =
      [(case cls of ClsSubtree \<Rightarrow> ''subtrees'' | ClsBlock \<Rightarrow> ''blocks'', v)]"
  using assms by (cases cls) (simp_all add: announce_Subtree_def announce_Block_def produce_def sample_producer_def Let_def)

lemma sample_delivery:
  assumes "\<And>r. bk_acked K r = ok"
  shows "\<exists>v b'. handleSubtree sample_objfmt K now (replicate 40 7) sample_bridge =
    (if ok then None else Some (AnnounceFailed ProduceError), [(''subtrees'', v)], b')"
proof -
  let ?h = "take 32 (replicate 40 (7 :: byte))"
  let ?b = "store_object now ClsSubtree ?h (replicate 40 7) (verifyEcho now ?h (replicate 40 7) sample_bridge)"
  obtain v p' where ann: "announce_class ClsSubtree K now (Display ?h) (br_baseURL ?b) sample_producer =
      (if ok then None else Some ProduceError, [(''subtrees'', v)], p')"
    using sample_announces [OF assms, where cls = ClsSubtree and now = now and x = "Display ?h" and url = "br_baseURL ?b"]
    by (cases "announce_class ClsSubtree K now (Display ?h) (br_baseURL ?b) sample_producer") auto
  have "br_producer ?b = Some sample_producer" by (simp add: sample_bridge_def)
  then have "fst (announce_gate K now ClsSubtree ?h ?b) = map_option AnnounceFailed (if ok then None else Some ProduceError) \<and>
      fst (snd (announce_gate K now ClsSubtree ?h ?b)) = [(''subtrees'', v)]"
    using sample_bridge_ok by (intro announce_gate_new [OF _ _ _ _ ann]) simp_all
  moreover have "handleSubtree sample_objfmt K now (replicate 40 7) sample_bridge = announce_gate K now ClsSubtree ?h ?b"
    by (rule handleSubtree_gate [OF sample_objfmt_ok(2)]) simp
  ultimately show ?thesis by (cases "announce_gate K now ClsSubtree ?h ?b") auto
qed

text \<open>What the cache is asked between a delivery and its pull.\<close>

definition busy_ops :: "(hash, bytes \<times> string) store_op list" where
  "busy_ops = [OpPut 10 (replicate 32 9) (replicate 150 1, ''block''), OpGet 20 (replicate 32 9)]"

lemma busy_ops_ok:
  "\<forall>op \<in> set busy_ops. op_within 0 100 200 op" "int (Suc (touches h busy_ops)) * 200 \<le> 1000"
  "bodies_within 200 (br_objects sample_bridge)"
proof -
  have "touches h busy_ops \<le> 2" using length_filter_le [of _ busy_ops] by (simp add: touches_def busy_ops_def)
  then show "int (Suc (touches h busy_ops)) * 200 \<le> 1000" by simp
  show "\<forall>op \<in> set busy_ops. op_within 0 100 200 op" by (simp add: busy_ops_def)
  show "bodies_within 200 (br_objects sample_bridge)"
    by (simp add: bodies_within_def sample_bridge_def cache_New_def Let_def)
qed

theorem announced_subtree_served_witness:
  "\<exists>v m b'. handleSubtree sample_objfmt sample_broker 0 (replicate 40 7) sample_bridge = (None, [(''subtrees'', v)], b') \<and>
     Message_Decode sample_wire v = Some m \<and> msg_URL m = ''u'' \<and>
     fst (getSubtree sample_objfmt cache_Get 60 (msg_Hash m) ((sample_server [] [] [] [] []) \<lparr> sv_objs := cache_run busy_ops (br_objects b') \<rparr>)) = Served []"
proof -
  obtain v b' where run: "handleSubtree sample_objfmt sample_broker 0 (replicate 40 7) sample_bridge = (None, [(''subtrees'', v)], b')"
    using sample_delivery [of sample_broker True 0] by (auto simp: sample_broker_def)
  have "\<exists>m. Message_Decode (bk_wire sample_broker) v = Some m \<and> msg_URL m = br_baseURL sample_bridge \<and>
      fst (getSubtree sample_objfmt cache_Get 60 (msg_Hash m) ((sample_server [] [] [] [] []) \<lparr> sv_objs := cache_run busy_ops (br_objects b') \<rparr>)) =
        Served (drop 40 (replicate 40 7))"
    by (rule announced_subtree_served [OF sample_objfmt_ok(2) _ sample_bridge_ok(1) run _ busy_ops_ok(3) _ _ busy_ops_ok(1,2)])
       (simp_all add: sample_broker_def sample_wire_laws sample_bridge_ok)
  then have "\<exists>m. Message_Decode sample_wire v = Some m \<and> msg_URL m = ''u'' \<and>
      fst (getSubtree sample_objfmt cache_Get 60 (msg_Hash m) ((sample_server [] [] [] [] []) \<lparr> sv_objs := cache_run busy_ops (br_objects b') \<rparr>)) = Served []"
    by (simp add: sample_broker_def sample_bridge_def)
  then show ?thesis using run by blast
qed

text \<open>
  C6: An announced block can be pulled.  Every record a delivered block makes
  the bridge send decodes to a hash and the bridge's base URL, and a pull of
  that hash within the time-to-live, whatever was stored and read in between, is
  answered with the conversion of exactly the delivered frame, under four
  conditions: the frame converts, the cache held nothing else under the hash when
  the block came, no object is larger than some size M, and the operations on the
  object's shard since then, with the object itself, make at most as many objects
  as fit the shard's share of the byte ceiling at size M.
\<close>

theorem announced_block_served:
  assumes "frame_headers F" and "protowire_laws (bk_wire K)" and "cache_ok mb ttl (br_objects b)"
    and "handleBlock F K now obj b = (e, rs, b')" and "(topic, v) \<in> set rs"
    and "bodies_within M (br_objects b)" and "int (length obj) \<le> M" and "h = DoubleSHA256 (take 80 obj)"
    and "cache_held h (br_objects b) = None \<or> cache_held h (br_objects b) = Some (obj, ''block'')"
    and "\<forall>op \<in> set ops. op_within now ttl M op" and "int (Suc (touches h ops)) * M \<le> mb"
    and "t' - now \<le> ttl" and "sv_objs sv = cache_run ops (br_objects b')" and "ToTeranode F obj = Inr out"
  shows "\<exists>m. Message_Decode (bk_wire K) v = Some m \<and> msg_URL m = br_baseURL b \<and>
    fst (getBlock F cache_Get t' (msg_Hash m) sv) = Served out"
proof -
  let ?b = "store_object now ClsBlock h obj (verifyEcho now h obj b)"
  have ne: "rs \<noteq> []" using assms(5) by auto
  obtain rt where gate: "announce_gate K now ClsBlock h (mark_roots now rt ?b) = (e, rs, b')"
    using handleBlock_gate [OF assms(1,4)] ne assms(8) by metis
  obtain p p' x where ann: "announce_class ClsBlock K now (Display h) (br_baseURL b) p = (x, rs, p')"
    using announce_gate_sent [OF gate ne] by (auto simp: mark_roots_facts)
  have msg: "Message_Decode (bk_wire K) v = Some \<lparr> msg_Hash = Display h, msg_URL = br_baseURL b, msg_PeerID = PeerID (ann_cfg p) \<rparr>"
    using announce_class_sent [OF ann assms(2)] assms(5) by auto
  have "fst (cache_Get t' h (cache_run ops (br_objects b'))) = Some (obj, ''block'')"
    using stored_then_get [OF assms(3,6,7) _ assms(10-12), of ClsBlock] assms(9) announce_gate_facts(1) [OF gate] by (simp add: mark_roots_facts)
  moreover have "ParseDisplay (Display h) = Inr h" by (simp add: ParseDisplay_Display assms(8))
  ultimately have "fst (getBlock F cache_Get t' (Display h) sv) = Served out"
    using assms(13,14) by (auto simp: getBlock_def Let_def split: prod.splits)
  then show ?thesis using msg by simp
qed

definition bare_block :: Block where
  "bare_block = sample_block \<lparr> SubtreeRoots := [] \<rparr>"

definition bare_frame :: bytes where
  "bare_frame = block_layout bare_block"

lemma bare_block_encodes:
  "Block_Encode sample_objfmt bare_block = Inr bare_frame" "wf_block bare_block" "length bare_frame = 131"
  "SubtreeRootsOf sample_objfmt bare_frame = Inr []"
proof -
  show wf: "wf_block bare_block" by (simp add: wf_block_def bare_block_def sample_block_def)
  show len: "length bare_frame = 131"
    using length_block_layout [OF wf] by (simp add: bare_block_def sample_block_def bare_frame_def)
  have "sample_block_size bare_frame = Some 131"
    unfolding sample_block_size_def len
    by (simp add: bare_frame_def block_layout_def bare_block_def sample_block_def get_put_be64 u64_of_len_def)
  then show "Block_Encode sample_objfmt bare_block = Inr bare_frame"
    using len unfolding Block_Encode_Inr_iff bare_frame_def
    by (simp add: bare_block_def sample_block_def sample_objfmt_def sample_tx_size_def)
  have pre: "BlockPrefixSize sample_objfmt = 104" using sample_objfmt_ok(2) by (simp add: frame_headers_def)
  have "slice bare_frame 96 104 = Some (put_be64 0)"
    unfolding slice_def len by (simp add: bare_frame_def block_layout_def bare_block_def sample_block_def u64_of_len_def)
  then have "rd64 bare_frame 96 = Inr 0" by (simp add: rd64_def get_put_be64)
  then show "SubtreeRootsOf sample_objfmt bare_frame = Inr []"
    unfolding SubtreeRootsOf_def pre len by (simp add: Let_def wrap_int_id int_of_u64_def maxAlloc_def)
qed

theorem announced_block_served_witness:
  "\<exists>v m b' out. handleBlock sample_objfmt sample_broker 0 bare_frame sample_bridge = (None, [(''blocks'', v)], b') \<and>
     Message_Decode sample_wire v = Some m \<and> msg_URL m = ''u'' \<and> ToTeranode sample_objfmt bare_frame = Inr out \<and>
     fst (getBlock sample_objfmt cache_Get 60 (msg_Hash m) ((sample_server [] [] [] [] []) \<lparr> sv_objs := cache_run busy_ops (br_objects b') \<rparr>)) = Served out"
proof -
  let ?h = "DoubleSHA256 (take 80 bare_frame)"
  let ?b = "store_object 0 ClsBlock ?h bare_frame (verifyEcho 0 ?h bare_frame sample_bridge)"
  obtain out where out: "ToTeranode sample_objfmt bare_frame = Inr out"
    using block_converts [OF sample_objfmt_ok(1,2) bare_block_encodes(2,1)] by (auto simp: bare_block_encodes)
  obtain v p' where ann: "announce_class ClsBlock sample_broker 0 (Display ?h) (br_baseURL ?b) sample_producer = (None, [(''blocks'', v)], p')"
    using sample_announces [of sample_broker True ClsBlock 0 "Display ?h" "br_baseURL ?b"]
    by (cases "announce_class ClsBlock sample_broker 0 (Display ?h) (br_baseURL ?b) sample_producer") (auto simp: sample_broker_def)
  have pre: "BlockPrefixSize sample_objfmt = 104" using sample_objfmt_ok(2) by (simp add: frame_headers_def)
  have "handleBlock sample_objfmt sample_broker 0 bare_frame sample_bridge = announce_gate sample_broker 0 ClsBlock ?h ?b"
    unfolding handleBlock_def pre bare_block_encodes by (simp add: mark_roots_def Let_def)
  moreover have "br_producer ?b = Some sample_producer" by (simp add: sample_bridge_def)
  then have "fst (announce_gate sample_broker 0 ClsBlock ?h ?b) = map_option AnnounceFailed None \<and>
      fst (snd (announce_gate sample_broker 0 ClsBlock ?h ?b)) = [(''blocks'', v)]"
    using sample_bridge_ok by (intro announce_gate_new [OF _ _ _ _ ann]) simp_all
  ultimately obtain b' where run: "handleBlock sample_objfmt sample_broker 0 bare_frame sample_bridge = (None, [(''blocks'', v)], b')"
    by (cases "announce_gate sample_broker 0 ClsBlock ?h ?b") auto
  have "\<exists>m. Message_Decode (bk_wire sample_broker) v = Some m \<and> msg_URL m = br_baseURL sample_bridge \<and>
      fst (getBlock sample_objfmt cache_Get 60 (msg_Hash m) ((sample_server [] [] [] [] []) \<lparr> sv_objs := cache_run busy_ops (br_objects b') \<rparr>)) = Served out"
    by (rule announced_block_served [OF sample_objfmt_ok(2) _ sample_bridge_ok(1) run _ busy_ops_ok(3) _ refl _ busy_ops_ok(1,2) _ _ out])
       (simp_all add: sample_broker_def sample_wire_laws sample_bridge_ok bare_block_encodes)
  then have "\<exists>m. Message_Decode sample_wire v = Some m \<and> msg_URL m = ''u'' \<and>
      fst (getBlock sample_objfmt cache_Get 60 (msg_Hash m) ((sample_server [] [] [] [] []) \<lparr> sv_objs := cache_run busy_ops (br_objects b') \<rparr>)) = Served out"
    by (simp add: sample_broker_def sample_bridge_def)
  then show ?thesis using out run by blast
qed

text \<open>
  C18: A failed announcement heals on redelivery.  When announcing a delivered
  subtree fails, nothing is recorded as announced; the same frame delivered
  again while the broker acknowledges is announced then, and only then recorded.
\<close>

theorem failed_announce_heals:
  assumes "frame_headers F" and "registry_ok c (br_seen b)" and "registry_ok c' (br_announced b)"
    and "handleSubtree F K now obj b = (Some (AnnounceFailed e), rs, b')"
    and "br_producer b = Some p" and "SubtreeTopic (ann_cfg p) \<noteq> []" and "\<And>r. bk_acked K' r"
  shows "Lookup (take 32 obj) (br_announced b') = None \<and>
    (\<exists>rs' b''. handleSubtree F K' now' obj b' = (None, rs', b'') \<and> rs' \<noteq> [] \<and>
       Lookup (take 32 obj) (br_announced b'') \<noteq> None)"
proof -
  let ?h = "take 32 obj"
  let ?b = "store_object now ClsSubtree ?h obj (verifyEcho now ?h obj b)"
  let ?b1 = "store_object now' ClsSubtree ?h obj (verifyEcho now' ?h obj b')"
  have len: "40 \<le> length obj" using assms(1,4) by (auto simp: handleSubtree_def frame_headers_def split: if_splits)
  have gate: "announce_gate K now ClsSubtree ?h ?b = (Some (AnnounceFailed e), rs, b')"
    using assms(4) handleSubtree_gate [OF assms(1) len] by simp
  have ann: "br_announced b' = br_announced b" "Lookup ?h (br_announced b) = None"
    using announce_gate_failed [OF gate] by auto
  have seen: "br_seen b' = snd (Mark now ?h Delivered (br_seen b))" using announce_gate_facts(3) [OF gate] by simp
  have dir: "fst (Mark now ?h Delivered (br_seen b)) \<noteq> Some Submitted"
    using gate by (auto simp: announce_gate_def Let_def split: if_splits)
  have "Lookup ?h (br_seen b') = Some Delivered"
    using reg.mark_self [OF assms(2), of ?h now Delivered] dir seen Direction.exhaust by (auto split: option.splits)
  then have fresh: "fst (Mark now' ?h Delivered (br_seen b')) \<noteq> Some Submitted"
    using Mark_known_sub [of now' ?h Delivered "br_seen b'" Submitted] by auto
  obtain p' where p': "br_producer b' = Some p'" "ann_cfg p' = ann_cfg p"
    using gate assms(5)
    by (auto simp: announce_gate_def Let_def announce_Subtree_def produce_def split: if_splits option.splits prod.splits)
  obtain rs' q where send: "announce_class ClsSubtree K' now' (Display ?h) (br_baseURL b') p' = (None, rs', q)" "rs' \<noteq> []"
    using assms(6,7) p'(2) by (simp add: announce_Subtree_def produce_def)
  have run: "announce_gate K' now' ClsSubtree ?h ?b1 = (None, rs', mark_announced now' ?h ((mark_seen now' ?h ?b1) \<lparr> br_producer := Some q \<rparr>))"
    using fresh ann p' send by (simp add: announce_gate_def Let_def)
  have "Lookup ?h (br_announced (mark_announced now' ?h ((mark_seen now' ?h ?b1) \<lparr> br_producer := Some q \<rparr>))) \<noteq> None"
    using ann reg.mark_records [OF assms(3), of ?h now' Delivered] by simp
  then show ?thesis using ann run handleSubtree_gate [OF assms(1) len, of K' now' b'] send(2) by auto
qed

definition refusing_broker :: broker where
  "refusing_broker = \<lparr> bk_wire = sample_wire, bk_acked = (\<lambda>r. False) \<rparr>"

theorem failed_announce_heals_witness:
  "\<exists>v b' rs' b''. handleSubtree sample_objfmt refusing_broker 0 (replicate 40 7) sample_bridge =
        (Some (AnnounceFailed ProduceError), [(''subtrees'', v)], b') \<and>
     Lookup (replicate 32 7) (br_announced b') = None \<and>
     handleSubtree sample_objfmt sample_broker 5 (replicate 40 7) b' = (None, rs', b'') \<and> rs' \<noteq> [] \<and>
     Lookup (replicate 32 7) (br_announced b'') \<noteq> None"
proof -
  obtain v b' where run: "handleSubtree sample_objfmt refusing_broker 0 (replicate 40 7) sample_bridge =
      (Some (AnnounceFailed ProduceError), [(''subtrees'', v)], b')"
    using sample_delivery [of refusing_broker False 0] by (auto simp: refusing_broker_def)
  have p: "br_producer sample_bridge = Some sample_producer" "SubtreeTopic (ann_cfg sample_producer) \<noteq> []"
    by (simp_all add: sample_bridge_def sample_producer_def)
  have "take 32 (replicate 40 (7 :: byte)) = replicate 32 7" by simp
  with failed_announce_heals [OF sample_objfmt_ok(2) sample_bridge_ok(2,3) run p, where K' = sample_broker and now' = 5]
  show ?thesis using run by (auto simp: sample_broker_def)
qed

end
