(* ===== verification/System.thy ===== *)
theory System
  imports Handlers
begin

text \<open>
  The running bridge: the lane handlers and the reverse path over the state
  they share.  The subscriber's registry is the handlers' \<open>seen\<close> and its record
  of published frames is the object cache.  Neither a notification nor a
  delivery is one step.  A notification takes two, since the frame is fetched
  from the cluster between the look-up in the registry and the mark.  A delivery
  takes up to four, since every connection of a lane has its own goroutine and
  no lock is held across the handler: what comes up to and including the mark in
  \<open>seen\<close>, the look-up in \<open>announced\<close>, the synchronous announcement, and the
  record in \<open>announced\<close>.  Steps of other deliveries and notifications may come
  in between.
\<close>

section \<open>The two phases of a notification\<close>

text \<open>\<open>publish\<close> up to the gates: the frame to push, if any; \<open>None\<close> is a panic.\<close>

definition publish_front :: "objfmt \<Rightarrow> rev_env \<Rightarrow> obj_class \<Rightarrow> hash \<Rightarrow> Subscriber \<Rightarrow> (push option \<times> Subscriber) option" where
  "publish_front F E cls h s =
     (case publisher cls s of
        None \<Rightarrow> Some (None, s)
      | Some u \<Rightarrow>
          if \<not> rv_active s then Some (None, s \<lparr> standbyHeld := standbyHeld s + 1 \<rparr>)
          else if re_ready E = Some False then Some (None, s \<lparr> gated := gated s + 1 \<rparr>)
          else (case re_build E cls h of
                  BuildPanic \<Rightarrow> None
                | BuildFailed e \<Rightarrow> Some (None, s \<lparr> rv_failures := rv_failures s + 1 \<rparr>)
                | BuildSkip \<Rightarrow> Some (None, s \<lparr> skipped := skipped s + 1 \<rparr>)
                | Built frame \<Rightarrow>
                    (case origin_gate F cls (rv_MineTag s) frame of
                       OriginPanic \<Rightarrow> None
                     | OriginUnreadable \<Rightarrow> Some (None, s \<lparr> rv_failures := rv_failures s + 1 \<rparr>)
                     | OriginForeign \<Rightarrow> Some (None, s \<lparr> foreignSkipped := foreignSkipped s + 1 \<rparr>)
                     | OriginOurs \<Rightarrow> Some (Some (cls, h, frame), s))))"

definition handle_front :: "objfmt \<Rightarrow> rev_env \<Rightarrow> Notification \<Rightarrow> Subscriber \<Rightarrow> (push option \<times> Subscriber) option" where
  "handle_front F E n s =
     (if n_Type n \<noteq> typeSubtree \<and> n_Type n \<noteq> typeBlock then Some (None, s)
      else case FromWire (n_Hash n) of
        Inl e \<Rightarrow> Some (None, s)
      | Inr h \<Rightarrow>
          (case Lookup h (rv_seen s) of
             Some d \<Rightarrow> Some (None, s \<lparr> remoteSkipped := remoteSkipped s + 1 \<rparr>)
           | None \<Rightarrow> publish_front F E (if n_Type n = typeSubtree then ClsSubtree else ClsBlock) h s))"

definition publish_back :: "rev_env \<Rightarrow> time \<Rightarrow> push \<Rightarrow> Subscriber \<Rightarrow> Subscriber" where
  "publish_back E now p s =
     (case p of (cls, h, frame) \<Rightarrow>
        (case publisher cls s of None \<Rightarrow> s | Some u \<Rightarrow> push_frame E now cls h frame u s))"

section \<open>The four phases of a delivery\<close>

text \<open>How the part of a handler up to the mark in \<open>seen\<close> ends.\<close>

datatype arrival = Declined handler_error | Echo | Fresh obj_class hash

text \<open>Where a delivery that goes on stands: before its look-up, its announcement or its record.\<close>

datatype phase = Looking | Announcing | Recording

definition gate_mark :: "time \<Rightarrow> obj_class \<Rightarrow> hash \<Rightarrow> bridge \<Rightarrow> arrival \<times> bridge" where
  "gate_mark now cls h b =
     (if fst (Mark now h Delivered (br_seen b)) = Some Submitted then Echo else Fresh cls h, mark_seen now h b)"

definition handleSubtree_front :: "objfmt \<Rightarrow> time \<Rightarrow> bytes \<Rightarrow> bridge \<Rightarrow> arrival \<times> bridge" where
  "handleSubtree_front F now obj b =
     (if length obj < SubtreeHeaderSize F then (Declined (FrameTooShort (length obj)), b)
      else if length obj < 32 then (Declined HandlerPanic, b)
      else case FromWire (take 32 obj) of
        Inl e \<Rightarrow> (Declined (BadRoot e), b)
      | Inr root \<Rightarrow> gate_mark now ClsSubtree root (store_object now ClsSubtree root obj (verifyEcho now root obj b)))"

definition handleBlock_front :: "objfmt \<Rightarrow> time \<Rightarrow> bytes \<Rightarrow> bridge \<Rightarrow> arrival \<times> bridge" where
  "handleBlock_front F now obj b =
     (if length obj < BlockPrefixSize F then (Declined (FrameTooShort (length obj)), b)
      else if length obj < 80 then (Declined HandlerPanic, b)
      else
        let h = DoubleSHA256 (take 80 obj);
            b = store_object now ClsBlock h obj (verifyEcho now h obj b)
        in case SubtreeRootsOf F obj of
             Inl Panic \<Rightarrow> (Declined HandlerPanic, b)
           | Inl e \<Rightarrow> gate_mark now ClsBlock h b
           | Inr rs \<Rightarrow> gate_mark now ClsBlock h (mark_roots now rs b))"

text \<open>A hash already announced, or nobody to tell: only the record is left.\<close>

definition gate_look :: "hash \<Rightarrow> bridge \<Rightarrow> phase" where
  "gate_look h b = (if Lookup h (br_announced b) \<noteq> None \<or> br_producer b = None then Recording else Announcing)"

definition gate_produce :: "broker \<Rightarrow> time \<Rightarrow> obj_class \<Rightarrow> hash \<Rightarrow> bridge \<Rightarrow> announce_error option \<times> sent \<times> bridge" where
  "gate_produce K now cls h b =
     (case br_producer b of
        None \<Rightarrow> (None, [], b)
      | Some p \<Rightarrow>
          (case announce_class cls K now (Display h) (br_baseURL b) p of
             (e, rs, p) \<Rightarrow> (e, rs, b \<lparr> br_producer := Some p \<rparr>)))"

section \<open>State and steps\<close>

record system =
  sy_bridge :: bridge
  sy_rev :: Subscriber
  sy_pending :: "push option"
  sy_open :: "(obj_class \<times> hash \<times> phase) list"

text \<open>The subscriber with the shared parts in place, and putting them back.\<close>

definition shared_in :: "system \<Rightarrow> Subscriber" where
  "shared_in s = (sy_rev s) \<lparr> rv_seen := br_seen (sy_bridge s), rv_Published := Some (br_objects (sy_bridge s)) \<rparr>"

definition shared_out :: "Subscriber \<Rightarrow> system \<Rightarrow> system" where
  "shared_out r s = s \<lparr> sy_rev := r, sy_bridge := (sy_bridge s) \<lparr> br_seen := rv_seen r,
     br_objects := (case rv_Published r of None \<Rightarrow> br_objects (sy_bridge s) | Some c \<Rightarrow> c) \<rparr> \<rparr>"

datatype sys_event =
    EvSubtree bytes
  | EvBlock bytes
  | EvLookup obj_class hash
  | EvProduce broker obj_class hash
  | EvRecord obj_class hash
  | EvNotify rev_env Notification
  | EvPush rev_env

text \<open>What leaves the process: an announcement, with whether it was acknowledged, or a push.\<close>

datatype sys_out = OutAnnounce obj_class hash bool | OutPush obj_class hash bytes

definition announce_outs :: "obj_class \<Rightarrow> hash \<Rightarrow> 'e option \<Rightarrow> sent \<Rightarrow> sys_out list" where
  "announce_outs cls h e rs = map (\<lambda>r. OutAnnounce cls h (e = None)) rs"

definition arrive :: "arrival \<times> bridge \<Rightarrow> system \<Rightarrow> (sys_out list \<times> system) option" where
  "arrive ab s =
     (case ab of (a, b) \<Rightarrow>
        (case a of
           Declined e \<Rightarrow> if e = HandlerPanic then None else Some ([], s \<lparr> sy_bridge := b \<rparr>)
         | Echo \<Rightarrow> Some ([], s \<lparr> sy_bridge := b \<rparr>)
         | Fresh cls h \<Rightarrow> Some ([], s \<lparr> sy_bridge := b, sy_open := (cls, h, Looking) # sy_open s \<rparr>)))"

text \<open>A step of a delivery that no open delivery can take does nothing.\<close>

definition sys_step :: "objfmt \<Rightarrow> time \<Rightarrow> sys_event \<Rightarrow> system \<Rightarrow> (sys_out list \<times> system) option" where
  "sys_step F now ev s =
     (case ev of
        EvSubtree obj \<Rightarrow> arrive (handleSubtree_front F now obj (sy_bridge s)) s
      | EvBlock obj \<Rightarrow> arrive (handleBlock_front F now obj (sy_bridge s)) s
      | EvLookup cls h \<Rightarrow>
          if (cls, h, Looking) \<notin> set (sy_open s) then Some ([], s)
          else Some ([], s \<lparr> sy_open := (cls, h, gate_look h (sy_bridge s)) # remove1 (cls, h, Looking) (sy_open s) \<rparr>)
      | EvProduce K cls h \<Rightarrow>
          if (cls, h, Announcing) \<notin> set (sy_open s) then Some ([], s)
          else (case gate_produce K now cls h (sy_bridge s) of (e, rs, b) \<Rightarrow>
            Some (announce_outs cls h e rs, s \<lparr> sy_bridge := b,
              sy_open := (if e = None then [(cls, h, Recording)] else []) @ remove1 (cls, h, Announcing) (sy_open s) \<rparr>))
      | EvRecord cls h \<Rightarrow>
          if (cls, h, Recording) \<notin> set (sy_open s) then Some ([], s)
          else Some ([], s \<lparr> sy_bridge := mark_announced now h (sy_bridge s), sy_open := remove1 (cls, h, Recording) (sy_open s) \<rparr>)
      | EvNotify E n \<Rightarrow>
          (case sy_pending s of
             Some p \<Rightarrow> Some ([], s)
           | None \<Rightarrow>
               (case handle_front F E n (shared_in s) of
                  None \<Rightarrow> None
                | Some (p, r) \<Rightarrow> Some ([], (shared_out r s) \<lparr> sy_pending := p \<rparr>)))
      | EvPush E \<Rightarrow>
          (case sy_pending s of
             None \<Rightarrow> Some ([], s)
           | Some (cls, h, frame) \<Rightarrow>
               Some ([OutPush cls h frame],
                     (shared_out (publish_back E now (cls, h, frame) (shared_in s)) s) \<lparr> sy_pending := None \<rparr>)))"

fun sys_run :: "objfmt \<Rightarrow> (time \<times> sys_event) list \<Rightarrow> system \<Rightarrow> (sys_out list \<times> system) option" where
  "sys_run F [] s = Some ([], s)"
| "sys_run F ((now, ev) # evs) s =
     (case sys_step F now ev s of
        None \<Rightarrow> None
      | Some (os, s) \<Rightarrow>
          (case sys_run F evs s of None \<Rightarrow> None | Some (os', s) \<Rightarrow> Some (os @ os', s)))"

text \<open>
  How many marks a step may make in \<open>seen\<close> and in \<open>announced\<close>, and the hashes a
  delivery names.
\<close>

definition block_roots :: "objfmt \<Rightarrow> bytes \<Rightarrow> hash list" where
  "block_roots F obj = (case SubtreeRootsOf F obj of Inl e \<Rightarrow> [] | Inr rs \<Rightarrow> rs)"

fun weight :: "objfmt \<Rightarrow> sys_event \<Rightarrow> nat" where
  "weight F (EvSubtree obj) = 1"
| "weight F (EvBlock obj) = length (block_roots F obj) + 1"
| "weight F (EvPush E) = 1"
| "weight F ev = 0"

fun ann_weight :: "objfmt \<Rightarrow> sys_event \<Rightarrow> nat" where
  "ann_weight F (EvBlock obj) = length (block_roots F obj)"
| "ann_weight F (EvRecord cls h) = 1"
| "ann_weight F ev = 0"

fun delivers :: "objfmt \<Rightarrow> sys_event \<Rightarrow> hash list" where
  "delivers F (EvSubtree obj) = (if SubtreeHeaderSize F \<le> length obj then [take 32 obj] else [])"
| "delivers F (EvBlock obj) =
     (if BlockPrefixSize F \<le> length obj then block_roots F obj @ [DoubleSHA256 (take 80 obj)] else [])"
| "delivers F ev = []"

text \<open>
  How many deliveries of a hash are open, in all and in one phase, and the most
  that are open at once in a run.
\<close>

definition in_phase :: "phase \<Rightarrow> hash \<Rightarrow> system \<Rightarrow> nat" where
  "in_phase p h s = length (filter (\<lambda>(cls, k, q). k = h \<and> q = p) (sy_open s))"

definition open_count :: "hash \<Rightarrow> system \<Rightarrow> nat" where
  "open_count h s = length (filter (\<lambda>(cls, k, q). k = h) (sy_open s))"

fun peak :: "objfmt \<Rightarrow> hash \<Rightarrow> (time \<times> sys_event) list \<Rightarrow> system \<Rightarrow> nat" where
  "peak F h [] s = open_count h s"
| "peak F h ((now, ev) # evs) s =
     max (open_count h s) (case sys_step F now ev s of None \<Rightarrow> 0 | Some (os, s) \<Rightarrow> peak F h evs s)"

section \<open>The phases compose to the handler\<close>

text \<open>With nothing in between, the phases are exactly the handlers of the code.\<close>

lemma publish_phases:
  "publish F E now cls h s =
     (case publish_front F E cls h s of
        None \<Rightarrow> None
      | Some (None, s) \<Rightarrow> Some ([], s)
      | Some (Some p, s) \<Rightarrow> Some ([p], publish_back E now p s))"
  by (auto simp: publish_def publish_front_def publish_back_def split: option.splits built.splits origin.splits)

lemma handle_phases:
  "handle F E now n s =
     (case handle_front F E n s of
        None \<Rightarrow> None
      | Some (None, s) \<Rightarrow> Some ([], s)
      | Some (Some p, s) \<Rightarrow> Some ([p], publish_back E now p s))"
  by (simp add: handle_def handle_front_def publish_phases split: sum.splits option.splits)

lemma handle_front_frame:
  assumes "handle_front F E n s = Some (p, s')"
  shows "rv_seen s' = rv_seen s \<and> rv_Published s' = rv_Published s \<and>
    (\<forall>cls h frame. p = Some (cls, h, frame) \<longrightarrow> Lookup h (rv_seen s) = None)"
  using assms
  by (auto simp: handle_front_def publish_front_def split: if_splits sum.splits option.splits built.splits origin.splits)

lemma publish_back_seen:
  "rv_seen (publish_back E now (cls, h, frame) s) = rv_seen s \<or>
   rv_seen (publish_back E now (cls, h, frame) s) = snd (Mark now h Submitted (rv_seen s))"
  by (auto simp: publish_back_def push_frame_facts split: option.splits)

lemma announce_gate_phases:
  "announce_gate K now cls h b =
     (case gate_mark now cls h b of
        (Fresh c k, b) \<Rightarrow>
          if gate_look h b = Recording then (None, [], mark_announced now h b)
          else (case gate_produce K now cls h b of
                  (Some e, rs, b) \<Rightarrow> (Some (AnnounceFailed e), rs, b)
                | (None, rs, b) \<Rightarrow> (None, rs, mark_announced now h b))
      | (a, b) \<Rightarrow> (None, [], b))"
  by (auto simp: announce_gate_def gate_mark_def gate_look_def gate_produce_def Let_def split: option.splits prod.splits)

section \<open>Registries under the steps\<close>

lemma retained_mono: "retained t0 k d n s \<Longrightarrow> n \<le> n' \<Longrightarrow> retained t0 k d n' s"
  by (auto simp: retained_def)

text \<open>A hash kept in a registry since \<open>t0\<close>, with room for \<open>c - n\<close> more marks.\<close>

definition kept :: "nat \<Rightarrow> time \<Rightarrow> duration \<Rightarrow> hash \<Rightarrow> Direction \<Rightarrow> nat \<Rightarrow> Registry \<Rightarrow> bool" where
  "kept c t0 W h d n r \<longleftrightarrow> registry_ok c r \<and> reg_ttl r = W \<and> retained t0 h d n (shardOf (reg_s r) h)"

lemma kept_lookup: "kept c t0 W h d n r \<Longrightarrow> Lookup h r = Some d"
  by (auto simp: kept_def Lookup_def dest: retained_lookup)

lemma kept_mono: "kept c t0 W h d n r \<Longrightarrow> n \<le> n' \<Longrightarrow> kept c t0 W h d n' r"
  unfolding kept_def using retained_mono by blast

lemma kept_Mark:
  "kept c t0 W h d n r \<Longrightarrow> t0 \<le> now \<Longrightarrow> now < t0 + W div 2 \<Longrightarrow> n < c \<Longrightarrow> kept c t0 W h d (Suc n) (snd (Mark now key dir r))"
  unfolding kept_def using retained_Mark [of c r t0 h d n now key dir] registry_ok_Mark [of c r now key dir] by simp

lemma kept_known:
  assumes "kept c t0 W h d n r" and "t0 \<le> now" and "now < t0 + W div 2" and "n < c"
  shows "fst (Mark now h dir r) = Some d"
proof -
  have ok: "registry_ok c r" using assms(1) by (simp add: kept_def)
  have "Lookup h (snd (Mark now h dir r)) = Some d" using kept_lookup [OF kept_Mark [OF assms]] .
  moreover have "fst (Mark now h dir r) \<noteq> None"
  proof -
    have "r_cap (shardOf (reg_s r) h) = c"
      using all_shards_shardOf [of "rshard_ok c" "reg_s r" h] ok by (simp add: registry_ok_def rshard_ok_def)
    then have "retained t0 h d n (maybeRotateLocked now (reg_ttl r div 2) (shardOf (reg_s r) h))"
      using assms by (auto simp: kept_def retained_def maybeRotateLocked_def r_rotateLocked_def)
    then show ?thesis by (simp add: Mark_def Let_def mark_shard_result retained_lookup)
  qed
  ultimately show ?thesis using reg.mark_self [OF ok, of h now dir] by (auto split: option.splits)
qed

lemma kept_run_marks:
  "kept c t0 W h d n r \<Longrightarrow> \<forall>x \<in> set ms. t0 \<le> fst x \<and> fst x < t0 + W div 2 \<Longrightarrow> n + length ms \<le> c \<Longrightarrow>
     kept c t0 W h d (n + length ms) (run_marks Mark ms r)"
proof (induction ms arbitrary: r n)
  case (Cons m ms)
  obtain now key dir where m: "m = (now, key, dir)" by (cases m)
  have "kept c t0 W h d (Suc n) (snd (Mark now key dir r))"
    using Cons.prems m by (intro kept_Mark) auto
  then show ?case using Cons.IH [of "Suc n"] Cons.prems m by simp
qed simp

lemma kept_after_Mark:
  assumes "registry_ok c r" and "reg_ttl r = W"
  shows "\<exists>d. kept c t0 W h d 0 (snd (Mark now h dir r))"
proof -
  have len: "length (reg_s r) = shards" using assms(1) by (rule registry_ok_length)
  show ?thesis
    using retained_after_Mark [OF len, where ?t0.0 = t0 and k = h and now = now and d = dir] registry_ok_Mark [OF assms(1)] assms(2)
    unfolding kept_def by auto
qed

text \<open>The marks one step makes, all at the instant of the step.\<close>

definition marked :: "time \<Rightarrow> nat \<Rightarrow> Registry \<Rightarrow> Registry \<Rightarrow> bool" where
  "marked now n r r' \<longleftrightarrow> (\<exists>ms. r' = run_marks Mark ms r \<and> length ms \<le> n \<and> (\<forall>x \<in> set ms. fst x = now))"

lemma marked_refl [simp]: "marked now n r r"
  unfolding marked_def by (rule exI [of _ "[]"]) simp

lemma marked_one: "marked now (Suc n) r (snd (Mark now h d r))"
  unfolding marked_def by (rule exI [of _ "[(now, h, d)]"]) simp

lemma marked_roots: "marked now (length rs) r (run_marks Mark (root_marks now rs) r)"
  unfolding marked_def root_marks_def by (rule exI [of _ "map (\<lambda>r. (now, r, Delivered)) rs"]) simp

lemma marked_trans:
  assumes "marked now n r r'" and "marked now m r' r''"
  shows "marked now (n + m) r r''"
proof -
  obtain xs ys where "r' = run_marks Mark xs r" "r'' = run_marks Mark ys r'" "length xs \<le> n" "length ys \<le> m"
      "\<forall>x \<in> set xs. fst x = now" "\<forall>x \<in> set ys. fst x = now"
    using assms unfolding marked_def by blast
  then show ?thesis unfolding marked_def by (intro exI [of _ "xs @ ys"]) (auto simp: run_marks_append)
qed

lemma kept_marked:
  assumes "kept c t0 W h d n r" and "marked now k r r'" and "t0 \<le> now" and "now < t0 + W div 2" and "n + k \<le> c"
  shows "kept c t0 W h d (n + k) r'"
proof -
  obtain ms where "r' = run_marks Mark ms r" "length ms \<le> k" "\<forall>x \<in> set ms. fst x = now"
    using assms(2) by (auto simp: marked_def)
  then show ?thesis
    using kept_mono [OF kept_run_marks [OF assms(1), of ms]] assms by auto
qed

lemma marked_ok: "registry_ok c r \<Longrightarrow> marked now k r r' \<Longrightarrow> registry_ok c r' \<and> reg_ttl r' = reg_ttl r"
proof -
  have "reg_ttl (run_marks Mark ms r) = reg_ttl r" for ms and r
    by (induction "Mark" ms r rule: run_marks.induct) simp_all
  then show "registry_ok c r \<Longrightarrow> marked now k r r' \<Longrightarrow> ?thesis"
    using reg.ok_run_marks [of c r] by (auto simp: marked_def)
qed

lemma shared_facts [simp]:
  "rv_seen (shared_in s) = br_seen (sy_bridge s)" "br_seen (sy_bridge (shared_out r s)) = rv_seen r"
  "br_announced (sy_bridge (shared_out r s)) = br_announced (sy_bridge s)" "sy_rev (shared_out r s) = r"
  "sy_open (shared_out r s) = sy_open s"
  by (simp_all add: shared_in_def shared_out_def)

text \<open>What the first step of a delivery does: nothing, or its marks in the registries.\<close>

definition taken_in :: "time \<Rightarrow> obj_class \<Rightarrow> hash \<Rightarrow> hash list \<Rightarrow> system \<Rightarrow> system \<Rightarrow> bool" where
  "taken_in now cls h rs s s' \<longleftrightarrow>
     (let r = run_marks Mark (root_marks now rs) (br_seen (sy_bridge s)) in
      br_seen (sy_bridge s') = snd (Mark now h Delivered r) \<and>
      br_announced (sy_bridge s') = run_marks Mark (root_marks now rs) (br_announced (sy_bridge s)) \<and>
      sy_open s' = (if fst (Mark now h Delivered r) = Some Submitted then [] else [(cls, h, Looking)]) @ sy_open s)"

lemma arrive_gate_mark:
  assumes "arrive (gate_mark now cls h b) s = Some (os, s')"
    and "br_seen b = run_marks Mark (root_marks now rs) (br_seen (sy_bridge s))"
    and "br_announced b = run_marks Mark (root_marks now rs) (br_announced (sy_bridge s))"
  shows "os = [] \<and> sy_pending s' = sy_pending s \<and> taken_in now cls h rs s s'"
  using assms by (auto simp: arrive_def gate_mark_def taken_in_def Let_def split: if_splits)

lemma arrive_refused:
  "arrive (Declined e, sy_bridge s) s = Some (os, s') \<Longrightarrow> os = [] \<and> s' = s"
  by (auto simp: arrive_def split: if_splits)

lemma subtree_front_cases:
  assumes "frame_headers F"
  shows "(\<exists>e. handleSubtree_front F now obj b = (Declined e, b)) \<and> delivers F (EvSubtree obj) = [] \<or>
    handleSubtree_front F now obj b = gate_mark now ClsSubtree (take 32 obj)
      (store_object now ClsSubtree (take 32 obj) obj (verifyEcho now (take 32 obj) obj b)) \<and>
    delivers F (EvSubtree obj) = [take 32 obj]"
  using assms by (auto simp: handleSubtree_front_def frame_headers_def FromWire_def min_def)

lemma block_front_cases:
  assumes "frame_headers F" and "handleBlock_front F now obj b = (a, b')" and "a \<noteq> Declined HandlerPanic"
  shows "(\<exists>e. a = Declined e) \<and> b' = b \<and> delivers F (EvBlock obj) = [] \<or>
    (a, b') = gate_mark now ClsBlock (DoubleSHA256 (take 80 obj)) (mark_roots now (block_roots F obj)
      (store_object now ClsBlock (DoubleSHA256 (take 80 obj)) obj (verifyEcho now (DoubleSHA256 (take 80 obj)) obj b))) \<and>
    delivers F (EvBlock obj) = block_roots F obj @ [DoubleSHA256 (take 80 obj)]"
  using assms
  by (auto simp: handleBlock_front_def frame_headers_def block_roots_def mark_roots_def Let_def
      split: if_splits sum.splits tnwire_error.splits)

lemma delivery_step:
  assumes "frame_headers F" and "sys_step F now ev s = Some (os, s')" and "ev = EvSubtree obj \<or> ev = EvBlock obj"
  obtains (short) "os = []" "s' = s" "delivers F ev = []"
  | (gate) cls h rs where "os = []" "sy_pending s' = sy_pending s" "taken_in now cls h rs s s'"
      "delivers F ev = rs @ [h]" "weight F ev = Suc (length rs)" "ann_weight F ev = length rs"
proof (cases "ev = EvSubtree obj")
  case True
  note st = assms(2) [unfolded True sys_step_def, simplified]
  let ?b = "store_object now ClsSubtree (take 32 obj) obj (verifyEcho now (take 32 obj) obj (sy_bridge s))"
  from subtree_front_cases [OF assms(1), of now obj "sy_bridge s"] show thesis
  proof
    assume "(\<exists>e. handleSubtree_front F now obj (sy_bridge s) = (Declined e, sy_bridge s)) \<and> delivers F (EvSubtree obj) = []"
    then show thesis using short arrive_refused st True by fastforce
  next
    assume g: "handleSubtree_front F now obj (sy_bridge s) = gate_mark now ClsSubtree (take 32 obj) ?b \<and>
      delivers F (EvSubtree obj) = [take 32 obj]"
    then have "os = [] \<and> sy_pending s' = sy_pending s \<and> taken_in now ClsSubtree (take 32 obj) [] s s'"
      by (intro arrive_gate_mark [where b = ?b]) (use st in \<open>simp_all add: root_marks_def\<close>)
    then show thesis using gate [of ClsSubtree "take 32 obj" "[]"] g True by simp
  qed
next
  case False
  then have ev: "ev = EvBlock obj" using assms(3) by blast
  obtain a b where f: "handleBlock_front F now obj (sy_bridge s) = (a, b)" by (cases "handleBlock_front F now obj (sy_bridge s)")
  have st: "arrive (a, b) s = Some (os, s')" using assms(2) f ev by (simp add: sys_step_def)
  then have "a \<noteq> Declined HandlerPanic" by (auto simp: arrive_def)
  then consider (r) e where "a = Declined e" "b = sy_bridge s" "delivers F (EvBlock obj) = []"
    | (g) "(a, b) = gate_mark now ClsBlock (DoubleSHA256 (take 80 obj)) (mark_roots now (block_roots F obj)
        (store_object now ClsBlock (DoubleSHA256 (take 80 obj)) obj (verifyEcho now (DoubleSHA256 (take 80 obj)) obj (sy_bridge s))))"
        "delivers F (EvBlock obj) = block_roots F obj @ [DoubleSHA256 (take 80 obj)]"
    using block_front_cases [OF assms(1) f] by blast
  then show thesis
  proof cases
    case r
    then show thesis using short arrive_refused st ev by blast
  next
    case g
    have "os = [] \<and> sy_pending s' = sy_pending s \<and> taken_in now ClsBlock (DoubleSHA256 (take 80 obj)) (block_roots F obj) s s'"
      using st unfolding g(1) by (rule arrive_gate_mark) (simp_all add: mark_roots_facts)
    then show thesis using gate [of ClsBlock "DoubleSHA256 (take 80 obj)" "block_roots F obj"] g(2) ev by simp
  qed
qed

lemma produce_facts:
  assumes "gate_produce K now cls h b = (e, rs, b')"
  shows "br_seen b' = br_seen b" "br_announced b' = br_announced b" "br_objects b' = br_objects b" "length rs \<le> 1"
proof -
  have one: "length rs \<le> 1" if "announce_class cls K now k url p = (e, rs, p')" for k url p p'
    using that by (cases cls) (auto simp: announce_Subtree_def announce_Block_def produce_def Let_def split: if_splits)
  show "br_seen b' = br_seen b" "br_announced b' = br_announced b" "br_objects b' = br_objects b" "length rs \<le> 1"
    using assms by (auto simp: gate_produce_def split: option.splits prod.splits dest: one)
qed

text \<open>The steps of a delivery after the first, when an open delivery takes them.\<close>

lemma produce_step:
  assumes "sys_step F now (EvProduce K cls h) s = Some (os, s')" and "(cls, h, Announcing) \<in> set (sy_open s)"
  obtains e :: "announce_error option" and rs where "os = announce_outs cls h e rs" "length rs \<le> 1" "sy_pending s' = sy_pending s"
    "br_seen (sy_bridge s') = br_seen (sy_bridge s)" "br_announced (sy_bridge s') = br_announced (sy_bridge s)"
    "sy_open s' = (if e = None then [(cls, h, Recording)] else []) @ remove1 (cls, h, Announcing) (sy_open s)"
proof -
  obtain e rs b where p: "gate_produce K now cls h (sy_bridge s) = (e, rs, b)" by (cases "gate_produce K now cls h (sy_bridge s)")
  show thesis using that [of e rs] assms p produce_facts [OF p] by (auto simp: sys_step_def)
qed

lemma step_marks:
  assumes "frame_headers F" and "sys_step F now ev s = Some (os, s')"
  shows "marked now (weight F ev) (br_seen (sy_bridge s)) (br_seen (sy_bridge s')) \<and>
    marked now (ann_weight F ev) (br_announced (sy_bridge s)) (br_announced (sy_bridge s'))"
proof -
  have one: "marked now 1 r (snd (Mark now k d r))" for k d r using marked_one [of now 0] by simp
  have del: ?thesis if "ev = EvSubtree obj \<or> ev = EvBlock obj" for obj
    using assms that
  proof (cases rule: delivery_step)
    case (gate cls h rs)
    then show ?thesis
      using marked_trans [OF marked_roots one] marked_roots [of now rs] by (simp add: taken_in_def Let_def)
  qed simp
  show ?thesis
  proof (cases ev)
    case (EvProduce K cls h)
    show ?thesis
    proof (cases "(cls, h, Announcing) \<in> set (sy_open s)")
      case True
      with assms(2) EvProduce show ?thesis by (auto elim: produce_step)
    qed (use assms EvProduce in \<open>simp add: sys_step_def\<close>)
  next
    case (EvRecord cls h)
    then show ?thesis using assms(2) one by (auto simp: sys_step_def split: if_splits)
  next
    case (EvNotify E n)
    then show ?thesis
      using assms(2) by (auto simp: sys_step_def split: option.splits prod.splits dest!: handle_front_frame)
  next
    case (EvPush E)
    have pb: "marked now 1 (br_seen (sy_bridge s)) (rv_seen (publish_back E now (cls, h, frame) (shared_in s)))" for cls h frame
      using publish_back_seen [of E now cls h frame "shared_in s"] one [of "br_seen (sy_bridge s)" h Submitted] by auto
    then show ?thesis using assms(2) EvPush by (auto simp: sys_step_def split: option.splits)
  qed (use assms del in \<open>auto simp: sys_step_def split: if_splits\<close>)
qed

definition pushes_hash :: "hash \<Rightarrow> sys_out \<Rightarrow> bool" where
  "pushes_hash h out = (case out of OutPush cls k frame \<Rightarrow> k = h | _ \<Rightarrow> False)"

definition announces_hash :: "hash \<Rightarrow> sys_out \<Rightarrow> bool" where
  "announces_hash h out = (case out of OutAnnounce cls k acked \<Rightarrow> k = h | _ \<Rightarrow> False)"

definition acked_hash :: "hash \<Rightarrow> sys_out \<Rightarrow> bool" where
  "acked_hash h out = (case out of OutAnnounce cls k acked \<Rightarrow> k = h \<and> acked | _ \<Rightarrow> False)"

definition pending_for :: "hash \<Rightarrow> system \<Rightarrow> bool" where
  "pending_for h s = (case sy_pending s of Some (cls, k, frame) \<Rightarrow> k = h | None \<Rightarrow> False)"

lemma announce_outs_facts:
  "out \<in> set (announce_outs cls h e rs) \<Longrightarrow> \<not> pushes_hash k out"
  "h \<noteq> k \<Longrightarrow> filter (announces_hash k) (announce_outs cls h e rs) = []"
  "h \<noteq> k \<or> e \<noteq> None \<Longrightarrow> filter (acked_hash k) (announce_outs cls h e rs) = []"
  "length (announce_outs cls h e rs) = length rs"
  by (auto simp: announce_outs_def pushes_hash_def announces_hash_def acked_hash_def filter_empty_conv)

text \<open>A step pushes what was pending, and a notification for a known hash makes nothing pending.\<close>

lemma arrive_outs: "arrive ab s = Some (os, s') \<Longrightarrow> os = [] \<and> sy_pending s' = sy_pending s \<and> sy_rev s' = sy_rev s"
  by (auto simp: arrive_def split: prod.splits arrival.splits if_splits)

lemma step_no_push:
  assumes "Lookup h (br_seen (sy_bridge s)) \<noteq> None" and "\<not> pending_for h s" and "sys_step F now ev s = Some (os, s')"
  shows "(\<forall>out \<in> set os. \<not> pushes_hash h out) \<and> \<not> pending_for h s'"
proof (cases ev)
  case (EvNotify E n)
  then show ?thesis
    using assms
    by (auto simp: sys_step_def pending_for_def split: option.splits prod.splits dest!: handle_front_frame)
qed (use assms in \<open>auto simp: sys_step_def pending_for_def pushes_hash_def announce_outs_def
    split: option.splits prod.splits if_splits dest: arrive_outs\<close>)

section \<open>Runs\<close>

definition run_weight :: "objfmt \<Rightarrow> (time \<times> sys_event) list \<Rightarrow> nat" where
  "run_weight F evs = sum_list (map (\<lambda>(now, ev). weight F ev) evs)"

definition ann_run_weight :: "objfmt \<Rightarrow> (time \<times> sys_event) list \<Rightarrow> nat" where
  "ann_run_weight F evs = sum_list (map (\<lambda>(now, ev). ann_weight F ev) evs)"

definition in_window :: "time \<Rightarrow> duration \<Rightarrow> (time \<times> sys_event) list \<Rightarrow> bool" where
  "in_window t0 W evs \<longleftrightarrow> (\<forall>(now, ev) \<in> set evs. t0 \<le> now \<and> now < t0 + W div 2)"

lemma run_split:
  assumes "sys_run F ((now, ev) # evs) s = Some (os, s')"
  obtains o1 s1 o2 where "sys_step F now ev s = Some (o1, s1)" "sys_run F evs s1 = Some (o2, s')" "os = o1 @ o2"
  using assms by (auto split: option.splits)

lemma run_no_push:
  "frame_headers F \<Longrightarrow> kept c t0 W h d n (br_seen (sy_bridge s)) \<Longrightarrow> \<not> pending_for h s \<Longrightarrow> in_window t0 W evs \<Longrightarrow>
   n + run_weight F evs \<le> c \<Longrightarrow> sys_run F evs s = Some (os, s') \<Longrightarrow> \<forall>out \<in> set os. \<not> pushes_hash h out"
proof (induction evs arbitrary: s n os)
  case (Cons x evs)
  obtain now ev where x: "x = (now, ev)" by (cases x)
  obtain o1 s1 o2 where r: "sys_step F now ev s = Some (o1, s1)" "sys_run F evs s1 = Some (o2, s')" "os = o1 @ o2"
    using Cons.prems(6) unfolding x by (rule run_split)
  have w: "t0 \<le> now" "now < t0 + W div 2" "n + weight F ev \<le> c"
    using Cons.prems(4,5) x by (auto simp: in_window_def run_weight_def)
  have np: "(\<forall>out \<in> set o1. \<not> pushes_hash h out) \<and> \<not> pending_for h s1"
    using step_no_push [OF _ Cons.prems(3) r(1)] kept_lookup [OF Cons.prems(2)] by simp
  have "kept c t0 W h d (n + weight F ev) (br_seen (sy_bridge s1))"
    using kept_marked [OF Cons.prems(2) _ w] step_marks [OF Cons.prems(1) r(1)] by blast
  then have "\<forall>out \<in> set o2. \<not> pushes_hash h out"
    using Cons.prems np r(2) x by (intro Cons.IH [of "n + weight F ev" s1 o2]) (auto simp: in_window_def run_weight_def)
  then show ?case using np r(3) by auto
qed simp

text \<open>How the steps move the open deliveries of a hash through their phases.\<close>

lemma remove1_count:
  "length (filter P (remove1 x xs)) = length (filter P xs) - (if x \<in> set xs \<and> P x then 1 else 0)"
  "x \<in> set xs \<Longrightarrow> P x \<Longrightarrow> 0 < length (filter P xs)"
  by (auto simp: filter_remove1 length_remove1 filter_empty_conv)

lemma open_count_phases: "open_count h s = in_phase Looking h s + in_phase Announcing h s + in_phase Recording h s"
proof -
  have "length (filter (\<lambda>(cls, k, q). k = h) xs) = length (filter (\<lambda>(cls, k, q). k = h \<and> q = Looking) xs) +
      length (filter (\<lambda>(cls, k, q). k = h \<and> q = Announcing) xs) + length (filter (\<lambda>(cls, k, q). k = h \<and> q = Recording) xs)"
    for xs :: "(obj_class \<times> hash \<times> phase) list"
    by (induction xs) (auto, metis phase.exhaust)
  then show ?thesis by (simp add: open_count_def in_phase_def)
qed

lemma lookup_moves:
  assumes "sys_step F now (EvLookup cls k) s = Some (os, s')"
  shows "os = []"
    "in_phase Looking h s' + in_phase Announcing h s' \<le> in_phase Looking h s + in_phase Announcing h s"
    "Lookup h (br_announced (sy_bridge s)) \<noteq> None \<Longrightarrow> in_phase Announcing h s' = in_phase Announcing h s"
    "in_phase Recording h s \<le> in_phase Recording h s'"
  using assms remove1_count(2) [of "(cls, k, Looking)" "sy_open s" "\<lambda>(cls, k, q). k = h \<and> q = Looking"]
  by (auto simp: sys_step_def in_phase_def remove1_count(1) gate_look_def split: if_splits)

lemma produce_moves:
  assumes "sys_step F now (EvProduce K cls k) s = Some (os, s')"
  shows "in_phase Looking h s' = in_phase Looking h s"
    "length (filter (announces_hash h) os) + in_phase Announcing h s' \<le> in_phase Announcing h s"
    "length (filter (acked_hash h) os) + in_phase Announcing h s' \<le> in_phase Announcing h s"
    "length (filter (acked_hash h) os) + in_phase Recording h s \<le> in_phase Recording h s'"
proof -
  have "in_phase Looking h s' = in_phase Looking h s \<and>
    length (filter (announces_hash h) os) + in_phase Announcing h s' \<le> in_phase Announcing h s \<and>
    length (filter (acked_hash h) os) + in_phase Announcing h s' \<le> in_phase Announcing h s \<and>
    length (filter (acked_hash h) os) + in_phase Recording h s \<le> in_phase Recording h s'"
  proof (cases "(cls, k, Announcing) \<in> set (sy_open s)")
    case True
    obtain e :: "announce_error option" and rs where p: "os = announce_outs cls k e rs" "length rs \<le> 1"
        "sy_open s' = (if e = None then [(cls, k, Recording)] else []) @ remove1 (cls, k, Announcing) (sy_open s)"
      using assms True by (rule produce_step) blast
    have le: "length (filter (announces_hash h) os) \<le> 1" "length (filter (acked_hash h) os) \<le> 1"
      using p(1,2) length_filter_le [of _ os] announce_outs_facts(4) [of cls k e rs] by (metis le_trans)+
    show ?thesis
      using True le announce_outs_facts(2) [of k h cls e rs] announce_outs_facts(3) [of k h e cls rs] p(1)
        remove1_count(2) [OF True, of "\<lambda>(cls, k, q). k = h \<and> q = Announcing"]
      unfolding in_phase_def p(3) by (cases "e = None"; cases "k = h") (auto simp: remove1_count(1) simp del: length_greater_0_conv)
  qed (use assms in \<open>simp add: sys_step_def\<close>)
  then show "in_phase Looking h s' = in_phase Looking h s"
    "length (filter (announces_hash h) os) + in_phase Announcing h s' \<le> in_phase Announcing h s"
    "length (filter (acked_hash h) os) + in_phase Announcing h s' \<le> in_phase Announcing h s"
    "length (filter (acked_hash h) os) + in_phase Recording h s \<le> in_phase Recording h s'"
    by blast+
qed

lemma record_moves:
  assumes "sys_step F now (EvRecord cls k) s = Some (os, s')"
  shows "os = []" "in_phase Looking h s' = in_phase Looking h s" "in_phase Announcing h s' = in_phase Announcing h s"
    "s' = s \<or> k \<noteq> h \<and> in_phase Recording h s' = in_phase Recording h s \<or>
     k = h \<and> br_announced (sy_bridge s') = snd (Mark now h Delivered (br_announced (sy_bridge s)))"
  using assms by (auto simp: sys_step_def in_phase_def remove1_count(1) split: if_splits)

lemma delivery_moves:
  assumes "frame_headers F" and "sys_step F now ev s = Some (os, s')" and "ev = EvSubtree obj \<or> ev = EvBlock obj"
  shows "os = []" "in_phase Announcing h s' = in_phase Announcing h s" "in_phase Recording h s' = in_phase Recording h s"
proof -
  have "os = [] \<and> in_phase Announcing h s' = in_phase Announcing h s \<and> in_phase Recording h s' = in_phase Recording h s"
    by (rule delivery_step [OF assms]) (simp_all add: taken_in_def in_phase_def Let_def)
  then show "os = []" "in_phase Announcing h s' = in_phase Announcing h s" "in_phase Recording h s' = in_phase Recording h s"
    by blast+
qed

lemma reverse_moves:
  assumes "sys_step F now ev s = Some (os, s')" and "(\<exists>E n. ev = EvNotify E n) \<or> (\<exists>E. ev = EvPush E)"
  shows "filter (announces_hash h) os = []" "filter (acked_hash h) os = []" "in_phase p h s' = in_phase p h s"
  using assms by (auto simp: sys_step_def in_phase_def announces_hash_def acked_hash_def split: option.splits prod.splits)

lemma known_stays_looking:
  assumes "frame_headers F" and "sys_step F now ev s = Some (os, s')" and "ev = EvSubtree obj \<or> ev = EvBlock obj"
    and "kept c t0 W h Submitted n (br_seen (sy_bridge s))" and "t0 \<le> now" and "now < t0 + W div 2" and "n + weight F ev \<le> c"
  shows "in_phase Looking h s' = in_phase Looking h s"
  using assms(1-3)
proof (cases rule: delivery_step)
  case (gate cls k rs)
  let ?r = "run_marks Mark (root_marks now rs) (br_seen (sy_bridge s))"
  have "kept c t0 W h Submitted (n + length rs) ?r"
    using assms(4-7) gate(5) marked_roots [of now rs "br_seen (sy_bridge s)"] by (intro kept_marked) auto
  then have "fst (Mark now h Delivered ?r) = Some Submitted"
    using assms(5-7) gate(5) by (intro kept_known [where n = "n + length rs"]) auto
  then show ?thesis using gate(3) by (auto simp: taken_in_def in_phase_def Let_def)
qed simp

text \<open>Per step: what is announced leaves the deliveries that may still announce.\<close>

lemma step_unannounced:
  assumes "frame_headers F" and "sys_step F now ev s = Some (os, s')"
    and "kept c t0 W h Submitted n (br_seen (sy_bridge s))" and "t0 \<le> now" and "now < t0 + W div 2" and "n + weight F ev \<le> c"
  shows "length (filter (announces_hash h) os) + in_phase Looking h s' + in_phase Announcing h s' \<le>
    in_phase Looking h s + in_phase Announcing h s"
proof (cases ev)
  case (EvSubtree obj)
  then show ?thesis using delivery_moves [OF assms(1,2)] known_stays_looking [OF assms(1,2) _ assms(3-6)] by simp
next
  case (EvBlock obj)
  then show ?thesis using delivery_moves [OF assms(1,2)] known_stays_looking [OF assms(1,2) _ assms(3-6)] by simp
next
  case (EvLookup cls k)
  then show ?thesis using lookup_moves(1) [OF assms(2) [unfolded EvLookup]] lookup_moves(2) [OF assms(2) [unfolded EvLookup], of h] by simp
next
  case (EvProduce K cls k)
  then show ?thesis using produce_moves(1,2) [OF assms(2) [unfolded EvProduce], of h] by simp
next
  case (EvRecord cls k)
  then show ?thesis using record_moves(1) [OF assms(2) [unfolded EvRecord]] record_moves(2,3) [OF assms(2) [unfolded EvRecord], of h] by simp
next
  case (EvNotify E n)
  then show ?thesis using reverse_moves [OF assms(2)] by simp
next
  case (EvPush E)
  then show ?thesis using reverse_moves [OF assms(2)] by simp
qed

lemma step_told:
  assumes "frame_headers F" and "sys_step F now ev s = Some (os, s')" and "Lookup h (br_announced (sy_bridge s)) \<noteq> None"
  shows "length (filter (acked_hash h) os) + in_phase Announcing h s' \<le> in_phase Announcing h s"
proof (cases ev)
  case (EvLookup cls k)
  then show ?thesis using lookup_moves(1) [OF assms(2) [unfolded EvLookup]] lookup_moves(3) [OF assms(2) [unfolded EvLookup], of h] assms(3) by simp
next
  case (EvProduce K cls k)
  then show ?thesis using produce_moves(3) [OF assms(2) [unfolded EvProduce], of h] by simp
next
  case (EvRecord cls k)
  then show ?thesis using record_moves(1) [OF assms(2) [unfolded EvRecord]] record_moves(3) [OF assms(2) [unfolded EvRecord], of h] by simp
next
  case (EvNotify E n)
  then show ?thesis using reverse_moves [OF assms(2)] by simp
next
  case (EvPush E)
  then show ?thesis using reverse_moves [OF assms(2)] by simp
qed (use delivery_moves [OF assms(1,2)] in simp_all)

lemma step_untold:
  assumes "frame_headers F" and "sys_step F now ev s = Some (os, s')"
  shows "length (filter (acked_hash h) os) + in_phase Recording h s \<le> in_phase Recording h s' \<or>
    os = [] \<and> in_phase Announcing h s' = in_phase Announcing h s \<and>
    br_announced (sy_bridge s') = snd (Mark now h Delivered (br_announced (sy_bridge s)))"
proof (cases ev)
  case (EvLookup cls k)
  then show ?thesis using lookup_moves(1) [OF assms(2) [unfolded EvLookup]] lookup_moves(4) [OF assms(2) [unfolded EvLookup], of h] by simp
next
  case (EvProduce K cls k)
  then show ?thesis using produce_moves(4) [OF assms(2) [unfolded EvProduce], of h] by simp
next
  case (EvRecord cls k)
  then show ?thesis using record_moves(1) [OF assms(2) [unfolded EvRecord]] record_moves(3,4) [OF assms(2) [unfolded EvRecord], of h] by auto
next
  case (EvNotify E n)
  then show ?thesis using reverse_moves [OF assms(2)] by simp
next
  case (EvPush E)
  then show ?thesis using reverse_moves [OF assms(2)] by simp
qed (use delivery_moves [OF assms(1,2)] in simp_all)

text \<open>A hash pushed is announced only by deliveries that were past their origin check.\<close>

lemma run_no_announce:
  "frame_headers F \<Longrightarrow> kept c t0 W h Submitted n (br_seen (sy_bridge s)) \<Longrightarrow>
   in_window t0 W evs \<Longrightarrow> n + run_weight F evs \<le> c \<Longrightarrow> sys_run F evs s = Some (os, s') \<Longrightarrow>
   length (filter (announces_hash h) os) \<le> in_phase Looking h s + in_phase Announcing h s"
proof (induction evs arbitrary: s n os)
  case (Cons x evs)
  obtain now ev where x: "x = (now, ev)" by (cases x)
  obtain o1 s1 o2 where r: "sys_step F now ev s = Some (o1, s1)" "sys_run F evs s1 = Some (o2, s')" "os = o1 @ o2"
    using Cons.prems(5) unfolding x by (rule run_split)
  have w: "t0 \<le> now" "now < t0 + W div 2" "n + weight F ev \<le> c"
    using Cons.prems(3,4) x by (auto simp: in_window_def run_weight_def)
  have "kept c t0 W h Submitted (n + weight F ev) (br_seen (sy_bridge s1))"
    using kept_marked [OF Cons.prems(2) _ w] step_marks [OF Cons.prems(1) r(1)] by blast
  then have "length (filter (announces_hash h) o2) \<le> in_phase Looking h s1 + in_phase Announcing h s1"
    using Cons.prems r(2) x by (intro Cons.IH [of "n + weight F ev" s1 o2]) (auto simp: in_window_def run_weight_def)
  then show ?case using step_unannounced [OF Cons.prems(1) r(1) Cons.prems(2) w] r(3) by simp
qed simp

lemma run_told:
  "frame_headers F \<Longrightarrow> kept c t0 W h d n (br_announced (sy_bridge s)) \<Longrightarrow>
   in_window t0 W evs \<Longrightarrow> n + ann_run_weight F evs \<le> c \<Longrightarrow> sys_run F evs s = Some (os, s') \<Longrightarrow>
   length (filter (acked_hash h) os) \<le> in_phase Announcing h s"
proof (induction evs arbitrary: s n os)
  case (Cons x evs)
  obtain now ev where x: "x = (now, ev)" by (cases x)
  obtain o1 s1 o2 where r: "sys_step F now ev s = Some (o1, s1)" "sys_run F evs s1 = Some (o2, s')" "os = o1 @ o2"
    using Cons.prems(5) unfolding x by (rule run_split)
  have w: "t0 \<le> now" "now < t0 + W div 2" "n + ann_weight F ev \<le> c"
    using Cons.prems(3,4) x by (auto simp: in_window_def ann_run_weight_def)
  have "kept c t0 W h d (n + ann_weight F ev) (br_announced (sy_bridge s1))"
    using kept_marked [OF Cons.prems(2) _ w] step_marks [OF Cons.prems(1) r(1)] by blast
  then have "length (filter (acked_hash h) o2) \<le> in_phase Announcing h s1"
    using Cons.prems r(2) x by (intro Cons.IH [of "n + ann_weight F ev" s1 o2]) (auto simp: in_window_def ann_run_weight_def)
  moreover have "Lookup h (br_announced (sy_bridge s)) \<noteq> None" using kept_lookup [OF Cons.prems(2)] by simp
  ultimately show ?case using step_told [OF Cons.prems(1) r(1)] r(3) by fastforce
qed simp

text \<open>Acknowledged announcements, with the deliveries about to be recorded, stay under the peak.\<close>

lemma run_acked_peak:
  "frame_headers F \<Longrightarrow> registry_ok c (br_announced (sy_bridge s)) \<Longrightarrow> reg_ttl (br_announced (sy_bridge s)) = W \<Longrightarrow>
   in_window t0 W evs \<Longrightarrow> ann_run_weight F evs \<le> c \<Longrightarrow> sys_run F evs s = Some (os, s') \<Longrightarrow>
   length (filter (acked_hash h) os) + in_phase Recording h s \<le> peak F h evs s"
proof (induction evs arbitrary: s os)
  case Nil
  then show ?case by (simp add: open_count_phases)
next
  case (Cons x evs)
  obtain now ev where x: "x = (now, ev)" by (cases x)
  obtain o1 s1 o2 where r: "sys_step F now ev s = Some (o1, s1)" "sys_run F evs s1 = Some (o2, s')" "os = o1 @ o2"
    using Cons.prems(6) unfolding x by (rule run_split)
  have w: "in_window t0 W evs" "ann_run_weight F evs \<le> c"
    using Cons.prems(4,5) by (auto simp: in_window_def ann_run_weight_def)
  have "registry_ok c (br_announced (sy_bridge s1)) \<and> reg_ttl (br_announced (sy_bridge s1)) = W"
    using marked_ok [OF Cons.prems(2)] step_marks [OF Cons.prems(1) r(1)] Cons.prems(3) by blast
  then have IH: "length (filter (acked_hash h) o2) + in_phase Recording h s1 \<le> peak F h evs s1"
    using Cons.IH [of s1 o2] Cons.prems(1) w r(2) by blast
  have pk: "peak F h (x # evs) s = max (open_count h s) (peak F h evs s1)" using r(1) x by simp
  from step_untold [OF Cons.prems(1) r(1), of h] show ?case
  proof
    assume "length (filter (acked_hash h) o1) + in_phase Recording h s \<le> in_phase Recording h s1"
    then show ?thesis using IH pk r(3) by simp
  next
    assume rec: "o1 = [] \<and> in_phase Announcing h s1 = in_phase Announcing h s \<and>
      br_announced (sy_bridge s1) = snd (Mark now h Delivered (br_announced (sy_bridge s)))"
    then obtain d where "kept c t0 W h d 0 (br_announced (sy_bridge s1))"
      using kept_after_Mark [OF Cons.prems(2,3), of t0 h now Delivered] by auto
    then have "length (filter (acked_hash h) o2) \<le> in_phase Announcing h s"
      using run_told [OF Cons.prems(1), of c t0 W h d 0 s1 evs o2 s'] w r(2) rec by simp
    then show ?thesis using rec pk r(3) by (simp add: open_count_phases)
  qed
qed

section \<open>What a delivery and a push leave in the registries\<close>

lemma roots_kept:
  assumes "registry_ok c r" and "reg_ttl r = W" and "0 < W div 2" and "h \<in> set rs" and "length rs \<le> c"
  shows "\<exists>d. kept c now W h d (length rs) (run_marks Mark (root_marks now rs) r)"
  using assms
proof (induction rs arbitrary: r)
  case (Cons x rs)
  let ?r = "snd (Mark now x Delivered r)"
  have ok: "registry_ok c ?r" "reg_ttl ?r = W" using Cons.prems registry_ok_Mark by auto
  show ?case
  proof (cases "x = h")
    case True
    obtain d where d: "kept c now W h d 0 ?r" using kept_after_Mark [OF Cons.prems(1,2), of now h now Delivered] True by auto
    have "kept c now W h d (0 + length (root_marks now rs)) (run_marks Mark (root_marks now rs) ?r)"
      using Cons.prems by (intro kept_run_marks [OF d]) (auto simp: root_marks_def)
    then have "kept c now W h d (length (x # rs)) (run_marks Mark (root_marks now rs) ?r)"
      by (rule kept_mono) (simp add: root_marks_def)
    then show ?thesis by (auto simp: root_marks_def)
  next
    case False
    then obtain d where "kept c now W h d (length rs) (run_marks Mark (root_marks now rs) ?r)"
      using Cons.IH [OF ok] Cons.prems by auto
    then have "kept c now W h d (length (x # rs)) (run_marks Mark (root_marks now rs) ?r)" by (rule kept_mono) simp
    then show ?thesis by (auto simp: root_marks_def)
  qed
qed simp

lemma step_delivers:
  assumes "frame_headers F" and "registry_ok c (br_seen (sy_bridge s))" and "reg_ttl (br_seen (sy_bridge s)) = W"
    and "0 < W div 2" and "weight F ev \<le> c" and "sys_step F now ev s = Some (os, s')" and "h \<in> set (delivers F ev)"
  shows "\<exists>d. kept c now W h d (weight F ev) (br_seen (sy_bridge s'))"
proof -
  obtain obj where ev: "ev = EvSubtree obj \<or> ev = EvBlock obj" using assms(7) by (cases ev) auto
  from assms(1,6) ev show ?thesis
  proof (cases rule: delivery_step)
    case (gate cls k rs)
    let ?r = "run_marks Mark (root_marks now rs) (br_seen (sy_bridge s))"
    have seen: "br_seen (sy_bridge s') = snd (Mark now k Delivered ?r)" using gate(3) by (simp add: taken_in_def Let_def)
    have ok: "registry_ok c ?r" "reg_ttl ?r = W" using marked_ok [OF assms(2) marked_roots] assms(3) by auto
    show ?thesis
    proof (cases "h = k")
      case True
      then obtain d where "kept c now W h d 0 (br_seen (sy_bridge s'))"
        using seen kept_after_Mark [OF ok, of now k now Delivered] by auto
      then show ?thesis using kept_mono by blast
    next
      case False
      then have "h \<in> set rs" using gate(4) assms(7) by auto
      then obtain d where "kept c now W h d (length rs) ?r"
        using roots_kept [OF assms(2,3,4), of h rs now] assms(5) gate(5) by auto
      then have "kept c now W h d (Suc (length rs)) (br_seen (sy_bridge s'))"
        unfolding seen using assms(4,5) gate(5) by (intro kept_Mark) auto
      then show ?thesis using gate(5) by auto
    qed
  qed (use assms(7) in simp)
qed

lemma deliver_outs:
  assumes "sys_step F now ev s = Some (os, s')" and "delivers F ev \<noteq> []"
  shows "(\<forall>out \<in> set os. \<not> pushes_hash h out) \<and> sy_pending s' = sy_pending s"
  using assms by (cases ev) (auto simp: sys_step_def dest: arrive_outs)

text \<open>A delivered hash stays out of the pushes.\<close>

lemma delivered_no_push:
  assumes "frame_headers F" and "registry_ok c (br_seen (sy_bridge s))" and "reg_ttl (br_seen (sy_bridge s)) = W"
    and "0 < W div 2" and "sys_step F t0 ev s = Some (os, s1)" and "h \<in> set (delivers F ev)" and "\<not> pending_for h s"
    and "in_window t0 W evs" and "weight F ev + run_weight F evs \<le> c" and "sys_run F evs s1 = Some (os', s2)"
  shows "\<forall>out \<in> set (os @ os'). \<not> pushes_hash h out"
proof -
  obtain d where k: "kept c t0 W h d (weight F ev) (br_seen (sy_bridge s1))"
    using step_delivers [OF assms(1-4) _ assms(5,6)] assms(9) by auto
  have o1: "(\<forall>out \<in> set os. \<not> pushes_hash h out) \<and> sy_pending s1 = sy_pending s"
    using assms(5,6) by (intro deliver_outs) auto
  then have "\<not> pending_for h s1" using assms(7) by (simp add: pending_for_def)
  then show ?thesis using run_no_push [OF assms(1) k _ assms(8,9,10)] o1 by auto
qed

section \<open>Properties\<close>

text \<open>
  C2: What came from the fabric is not sent back.  Once a subtree, a block or a
  subtree root inside a block has been delivered, no push of that hash leaves
  the bridge in the rest of a run that stays within half the registry's
  time-to-live and a shard's rotation capacity, whatever is notified, provided
  no push of it was already in preparation when it arrived.
\<close>

theorem delivered_not_republished:
  assumes "frame_headers F" and "registry_ok c (br_seen (sy_bridge s))" and "reg_ttl (br_seen (sy_bridge s)) = W"
    and "0 < W div 2" and "sys_step F t0 ev s = Some (os, s1)" and "h \<in> set (delivers F ev)" and "\<not> pending_for h s"
    and "in_window t0 W evs" and "weight F ev + run_weight F evs \<le> c" and "sys_run F evs s1 = Some (os', s2)"
  shows "\<forall>out \<in> set (os @ os'). \<not> pushes_hash h out"
  using assms by (rule delivered_no_push)

text \<open>
  C35: A look-up can go stale.  The registry is read when a notification arrives
  and marked when its frame has been fetched, and the mark's answer is not
  looked at: a hash delivered from the fabric in between is pushed up the
  tunnel all the same, although the registry knows it by then.
\<close>

theorem stale_lookup_republishes:
  assumes "frame_headers F" and "registry_ok c (br_seen (sy_bridge s))" and "sy_pending s = Some (cls, h, frame)"
    and "sys_step F now ev s = Some (os, s1)" and "h \<in> set (delivers F ev)" and "weight F ev \<le> c"
    and "0 < reg_ttl (br_seen (sy_bridge s)) div 2"
  shows "Lookup h (br_seen (sy_bridge s1)) \<noteq> None \<and>
    (\<exists>s2. sys_step F now' (EvPush E) s1 = Some ([OutPush cls h frame], s2))"
proof -
  obtain d W where "kept c now W h d (weight F ev) (br_seen (sy_bridge s1))"
    using step_delivers [OF assms(1,2) refl assms(7,6,4,5)] by auto
  then have "Lookup h (br_seen (sy_bridge s1)) \<noteq> None" using kept_lookup by fastforce
  moreover have "sy_pending s1 = sy_pending s" using deliver_outs [OF assms(4)] assms(5) by (cases "delivers F ev") auto
  ultimately show ?thesis using assms(3) by (simp add: sys_step_def)
qed

text \<open>
  C17: What was pushed is not announced back to the cluster.  After a push of a
  hash the registry did not know, its echo on the delivery lanes, and any block
  or subtree of that hash, is never announced in the rest of a run within the
  registry's window: the only announcements of it that can still leave are those
  of deliveries that were already in progress at the push, at most one each.
\<close>

theorem pushed_not_announced:
  assumes "frame_headers F" and "registry_ok c (br_seen (sy_bridge s))" and "reg_ttl (br_seen (sy_bridge s)) = W"
    and "sy_pending s = Some (cls, h, frame)" and "publisher cls (sy_rev s) \<noteq> None" and "Lookup h (br_seen (sy_bridge s)) = None"
    and "sys_step F t0 (EvPush E) s = Some (os, s1)" and "in_window t0 W evs" and "1 + run_weight F evs \<le> c"
    and "sys_run F evs s1 = Some (os', s2)"
  shows "length (filter (announces_hash h) (os @ os')) \<le> open_count h s"
proof -
  have pub: "publisher cls (shared_in s) = publisher cls (sy_rev s)" by (cases cls) (simp_all add: shared_in_def)
  have seen: "br_seen (sy_bridge s1) = snd (Mark t0 h Submitted (br_seen (sy_bridge s)))"
    using assms(4,5,7) pub by (auto simp: sys_step_def publish_back_def push_frame_facts)
  have len: "length (reg_s (br_seen (sy_bridge s))) = shards" using assms(2) by (rule registry_ok_length)
  have "kept c t0 W h Submitted 0 (br_seen (sy_bridge s1))"
    using retained_after_Mark [OF len, where ?t0.0 = t0 and k = h and now = t0 and d = Submitted]
      reg.mark_fresh [OF assms(2,6), of t0 Submitted] registry_ok_Mark [OF assms(2)] assms(3)
    unfolding seen kept_def by simp
  then have "kept c t0 W h Submitted 1 (br_seen (sy_bridge s1))" by (rule kept_mono) simp
  then have "length (filter (announces_hash h) os') \<le> in_phase Looking h s1 + in_phase Announcing h s1"
    using run_no_announce [OF assms(1) _ assms(8,9,10)] by blast
  then show ?thesis
    using reverse_moves [OF assms(7)] by (simp add: open_count_phases)
qed

text \<open>
  The two phases of a notification, with nothing in between, are the
  subscriber's handler: the same frames pushed, the same state.
\<close>

theorem notification_phases:
  "handle F E now n s =
     (case handle_front F E n s of
        None \<Rightarrow> None
      | Some (None, s) \<Rightarrow> Some ([], s)
      | Some (Some p, s) \<Rightarrow> Some ([p], publish_back E now p s))"
  by (rule handle_phases)

text \<open>
  The four phases of a delivery, with nothing in between, are the lane's
  handler: the same announcements, the same state.
\<close>

lemma gate_run:
  assumes "announce_gate K now cls h b = (e, rs, b')" and "sy_open s = []"
  shows "\<exists>s1. arrive (gate_mark now cls h b) s = Some ([], s1) \<and>
    sys_run F [(now, EvLookup cls h), (now, EvProduce K cls h), (now, EvRecord cls h)] s1 =
      Some (announce_outs cls h e rs, s \<lparr> sy_bridge := b' \<rparr>)"
proof (cases "fst (Mark now h Delivered (br_seen b)) = Some Submitted")
  case True
  then have "(e, rs, b') = (None, [], mark_seen now h b)" using assms(1) by (simp add: announce_gate_def Let_def)
  then show ?thesis using True assms(2) by (simp add: arrive_def gate_mark_def sys_step_def announce_outs_def)
next
  case False
  note gate = assms(1) [unfolded announce_gate_phases]
  show ?thesis
  proof (cases "gate_look h (mark_seen now h b) = Recording")
    case True
    then have "(e, rs, b') = (None, [], mark_announced now h (mark_seen now h b))"
      using False gate by (simp add: gate_mark_def)
    then show ?thesis
      using True False assms(2) by (simp add: arrive_def gate_mark_def sys_step_def announce_outs_def)
  next
    case ann: False
    then have look: "gate_look h (mark_seen now h b) = Announcing" by (simp add: gate_look_def split: if_splits)
    obtain e1 rs1 b1 where p: "gate_produce K now cls h (mark_seen now h b) = (e1, rs1, b1)"
      by (cases "gate_produce K now cls h (mark_seen now h b)")
    then have "(e, rs, b') = (map_option AnnounceFailed e1, rs1, if e1 = None then mark_announced now h b1 else b1)"
      using False gate ann by (cases e1) (simp_all add: gate_mark_def)
    then show ?thesis
      using look p False assms(2) by (cases e1) (simp_all add: arrive_def gate_mark_def sys_step_def announce_outs_def)
  qed
qed

theorem subtree_phases:
  assumes "handleSubtree F K now obj (sy_bridge s) = (e, rs, b)" and "e \<noteq> Some HandlerPanic" and "sy_open s = []"
  shows "sys_run F [(now, EvSubtree obj), (now, EvLookup ClsSubtree (take 32 obj)),
      (now, EvProduce K ClsSubtree (take 32 obj)), (now, EvRecord ClsSubtree (take 32 obj))] s =
    Some (announce_outs ClsSubtree (take 32 obj) e rs, s \<lparr> sy_bridge := b \<rparr>)"
proof (cases "length obj < SubtreeHeaderSize F \<or> length obj < 32")
  case True
  then show ?thesis
    using assms by (auto simp: handleSubtree_def handleSubtree_front_def sys_step_def arrive_def announce_outs_def split: if_splits)
next
  case False
  let ?h = "take 32 obj"
  let ?b = "store_object now ClsSubtree ?h obj (verifyEcho now ?h obj (sy_bridge s))"
  have fw: "FromWire ?h = Inr ?h" using False by (auto simp: FromWire_def)
  then have "announce_gate K now ClsSubtree ?h ?b = (e, rs, b)" using assms(1) False by (simp add: handleSubtree_def)
  then obtain s1 where "arrive (gate_mark now ClsSubtree ?h ?b) s = Some ([], s1)"
      "sys_run F [(now, EvLookup ClsSubtree ?h), (now, EvProduce K ClsSubtree ?h), (now, EvRecord ClsSubtree ?h)] s1 =
        Some (announce_outs ClsSubtree ?h e rs, s \<lparr> sy_bridge := b \<rparr>)"
    using gate_run [OF _ assms(3)] by blast
  moreover have "handleSubtree_front F now obj (sy_bridge s) = gate_mark now ClsSubtree ?h ?b"
    using False fw by (simp add: handleSubtree_front_def)
  ultimately show ?thesis by (simp add: sys_step_def)
qed

theorem block_phases:
  assumes "handleBlock F K now obj (sy_bridge s) = (e, rs, b)" and "e \<noteq> Some HandlerPanic" and "sy_open s = []"
  shows "sys_run F [(now, EvBlock obj), (now, EvLookup ClsBlock (DoubleSHA256 (take 80 obj))),
      (now, EvProduce K ClsBlock (DoubleSHA256 (take 80 obj))), (now, EvRecord ClsBlock (DoubleSHA256 (take 80 obj)))] s =
    Some (announce_outs ClsBlock (DoubleSHA256 (take 80 obj)) e rs, s \<lparr> sy_bridge := b \<rparr>)"
proof (cases "length obj < BlockPrefixSize F \<or> length obj < 80")
  case True
  then show ?thesis
    using assms by (auto simp: handleBlock_def handleBlock_front_def sys_step_def arrive_def announce_outs_def split: if_splits)
next
  case False
  let ?h = "DoubleSHA256 (take 80 obj)"
  let ?b = "mark_roots now (block_roots F obj) (store_object now ClsBlock ?h obj (verifyEcho now ?h obj (sy_bridge s)))"
  have "SubtreeRootsOf F obj \<noteq> Inl Panic" using assms(1,2) False by (auto simp: handleBlock_def Let_def)
  then have "announce_gate K now ClsBlock ?h ?b = (e, rs, b) \<and>
      handleBlock_front F now obj (sy_bridge s) = gate_mark now ClsBlock ?h ?b"
    using assms(1) False
    by (auto simp: handleBlock_def handleBlock_front_def block_roots_def mark_roots_def Let_def
        split: sum.splits tnwire_error.splits)
  then show ?thesis using gate_run [OF _ assms(3), of K now ClsBlock ?h ?b e rs b F] by (auto simp: sys_step_def)
qed

text \<open>
  C1: The cluster is told of an object as often as its deliveries overlap.  In any
  run within half the announce registry's time-to-live that makes no more marks in
  it than a shard rotates at, with deliveries interleaved in any order and
  announcements failing at will, the acknowledged announcements of a
  hash are at most the deliveries of it that were in progress at the same time:
  at most one as long as no two connections are delivering it at once.
\<close>

theorem announced_overlap:
  assumes "frame_headers F" and "registry_ok c (br_announced (sy_bridge s))" and "reg_ttl (br_announced (sy_bridge s)) = W"
    and "in_window t0 W evs" and "ann_run_weight F evs \<le> c" and "sys_run F evs s = Some (os, s')"
  shows "length (filter (acked_hash h) os) \<le> peak F h evs s"
  using run_acked_peak [OF assms, of h] by simp

text \<open>
  C32: Two connections delivering one subtree both get it announced.  The look-up
  in \<open>announced\<close> and the record after the announcement are not made under one
  lock: on any announcing bridge that knows the root in neither registry, with
  brokers that acknowledge, when both deliveries look up before either records,
  the cluster acknowledges two announcements of the same root.
\<close>

theorem overlapping_deliveries_announce_twice:
  assumes "frame_headers F" and "40 \<le> length obj" and "registry_ok c (br_seen (sy_bridge s))"
    and "Lookup (take 32 obj) (br_seen (sy_bridge s)) = None" and "Lookup (take 32 obj) (br_announced (sy_bridge s)) = None"
    and "br_producer (sy_bridge s) = Some p" and "SubtreeTopic (ann_cfg p) \<noteq> []" and "\<And>r. bk_acked K r" and "sy_open s = []"
  shows "\<exists>s'. sys_run F [(t1, EvSubtree obj), (t2, EvSubtree obj),
        (t3, EvLookup ClsSubtree (take 32 obj)), (t4, EvLookup ClsSubtree (take 32 obj)),
        (t5, EvProduce K ClsSubtree (take 32 obj)), (t6, EvProduce K ClsSubtree (take 32 obj))] s =
      Some ([OutAnnounce ClsSubtree (take 32 obj) True, OutAnnounce ClsSubtree (take 32 obj) True], s')"
proof -
  let ?h = "take 32 obj"
  let ?arr = "\<lambda>t b. mark_seen t ?h (store_object t ClsSubtree ?h obj (verifyEcho t ?h obj b))"
  let ?r1 = "snd (Mark t1 ?h Delivered (br_seen (sy_bridge s)))"
  let ?b2 = "?arr t2 (?arr t1 (sy_bridge s))"
  have m1: "fst (Mark t1 ?h Delivered (br_seen (sy_bridge s))) = None" "Lookup ?h ?r1 = Some Delivered"
    using reg.mark_fresh [OF assms(3,4)] by simp_all
  have m2: "fst (Mark t2 ?h Delivered ?r1) \<noteq> Some Submitted"
    using reg.mark_known [OF registry_ok_Mark [OF assms(3)], of t2 ?h Delivered t1 ?h Delivered Submitted] m1(2) by auto
  have front: "handleSubtree_front F t obj b = gate_mark t ClsSubtree ?h (store_object t ClsSubtree ?h obj (verifyEcho t ?h obj b))" for t b
    using subtree_front_cases [OF assms(1), of t obj b] assms(1,2) by (auto simp: frame_headers_def)
  have s1: "sys_step F t1 (EvSubtree obj) s = Some ([], s \<lparr> sy_bridge := ?arr t1 (sy_bridge s), sy_open := [(ClsSubtree, ?h, Looking)] \<rparr>)"
    using front m1(1) assms(9) by (simp add: sys_step_def arrive_def gate_mark_def)
  have s2: "sys_step F t2 (EvSubtree obj) (s \<lparr> sy_bridge := ?arr t1 (sy_bridge s), sy_open := [(ClsSubtree, ?h, Looking)] \<rparr>) =
      Some ([], s \<lparr> sy_bridge := ?b2, sy_open := [(ClsSubtree, ?h, Looking), (ClsSubtree, ?h, Looking)] \<rparr>)"
    using front m2 by (simp add: sys_step_def arrive_def gate_mark_def)
  have look: "gate_look ?h ?b2 = Announcing" using assms(5,6) by (simp add: gate_look_def)
  have send: "\<exists>rs q. announce_class ClsSubtree K t (Display ?h) url p' = (None, [rs], q) \<and> ann_cfg q = ann_cfg p'"
    if "SubtreeTopic (ann_cfg p') \<noteq> []" for t url p'
    using that assms(8) by (simp add: announce_Subtree_def produce_def)
  obtain r5 q5 where p5: "announce_class ClsSubtree K t5 (Display ?h) (br_baseURL ?b2) p = (None, [r5], q5)" "ann_cfg q5 = ann_cfg p"
    using send [OF assms(7)] by blast
  obtain r6 q6 where p6: "announce_class ClsSubtree K t6 (Display ?h) (br_baseURL ?b2) q5 = (None, [r6], q6)"
    using send [of q5 t6] assms(7) p5(2) by (metis (no_types))
  show ?thesis
    using look p5 p6 assms(6)
    by (simp add: s1 s2 del: announce_class.simps) (simp add: sys_step_def gate_produce_def announce_outs_def del: announce_class.simps)
qed

section \<open>A concrete run\<close>

definition sample_system :: system where
  "sample_system = \<lparr> sy_bridge = sample_bridge, sy_rev = sample_subscriber, sy_pending = None, sy_open = [] \<rparr>"

definition delivered_note :: Notification where
  "delivered_note = \<lparr> n_Type = 1, n_Hash = replicate 32 7 \<rparr>"

abbreviation sample_delivery_event :: sys_event where
  "sample_delivery_event \<equiv> EvSubtree (replicate 40 7)"

text \<open>A whole delivery of the sample subtree, at one instant.\<close>

abbreviation sample_delivery_steps :: "time \<Rightarrow> (time \<times> sys_event) list" where
  "sample_delivery_steps t \<equiv> [(t, sample_delivery_event), (t, EvLookup ClsSubtree (replicate 32 7)),
     (t, EvProduce sample_broker ClsSubtree (replicate 32 7)), (t, EvRecord ClsSubtree (replicate 32 7))]"

lemma sample_system_ok:
  "registry_ok 7 (br_seen (sy_bridge sample_system))" "registry_ok 7 (br_announced (sy_bridge sample_system))"
  "reg_ttl (br_seen (sy_bridge sample_system)) = 20" "reg_ttl (br_announced (sy_bridge sample_system)) = 20"
  using sample_bridge_ok(2,3) by (simp_all add: sample_system_def sample_bridge_def registry_New_def Let_def)

lemma delivery_steps:
  "\<exists>os s'. sys_step sample_objfmt now sample_delivery_event s = Some (os, s')"
proof -
  have "SubtreeHeaderSize sample_objfmt = 40" using sample_objfmt_ok(2) by (simp add: frame_headers_def)
  then show ?thesis
    by (simp add: sys_step_def handleSubtree_front_def FromWire_def gate_mark_def arrive_def)
qed

lemma later_steps:
  "\<exists>os s'. sys_step F now (EvLookup cls h) s = Some (os, s')"
  "\<exists>os s'. sys_step F now (EvProduce K cls h) s = Some (os, s')"
  "\<exists>os s'. sys_step F now (EvRecord cls h) s = Some (os, s')"
  by (auto simp: sys_step_def split: prod.splits)

lemma run_append:
  "sys_run F (xs @ ys) s = (case sys_run F xs s of None \<Rightarrow> None | Some (os, s) \<Rightarrow>
     (case sys_run F ys s of None \<Rightarrow> None | Some (os', s) \<Rightarrow> Some (os @ os', s)))"
  by (induction xs arbitrary: s) (auto split: option.splits prod.splits)

lemma delivery_runs: "\<exists>os s'. sys_run sample_objfmt (sample_delivery_steps t) s = Some (os, s')"
proof -
  obtain o1 s1 where 1: "sys_step sample_objfmt t sample_delivery_event s = Some (o1, s1)" using delivery_steps by blast
  obtain o2 s2 where 2: "sys_step sample_objfmt t (EvLookup ClsSubtree (replicate 32 7)) s1 = Some (o2, s2)"
    using later_steps(1) by blast
  obtain o3 s3 where 3: "sys_step sample_objfmt t (EvProduce sample_broker ClsSubtree (replicate 32 7)) s2 = Some (o3, s3)"
    using later_steps(2) by blast
  obtain o4 s4 where 4: "sys_step sample_objfmt t (EvRecord ClsSubtree (replicate 32 7)) s3 = Some (o4, s4)"
    using later_steps(3) by blast
  show ?thesis by (simp add: 1 2 3 4)
qed

text \<open>One delivery after the other: never two open at once.\<close>

lemma lone_steps:
  "sy_open s = [] \<Longrightarrow> sys_step F t (EvLookup cls h) s = Some ([], s) \<and> sys_step F t (EvProduce K cls h) s = Some ([], s) \<and>
     sys_step F t (EvRecord cls h) s = Some ([], s)"
  "sy_open s = [(cls, h, Looking)] \<Longrightarrow>
     \<exists>s' p. sys_step F t (EvLookup cls h) s = Some ([], s') \<and> sy_open s' = [(cls, h, p)] \<and> p \<noteq> Looking"
  "sy_open s = [(cls, h, Announcing)] \<Longrightarrow>
     \<exists>os s'. sys_step F t (EvProduce K cls h) s = Some (os, s') \<and> (sy_open s' = [] \<or> sy_open s' = [(cls, h, Recording)])"
  "sy_open s = [(cls, h, Recording)] \<Longrightarrow> sys_step F t (EvProduce K cls h) s = Some ([], s) \<and>
     (\<exists>s'. sys_step F t (EvRecord cls h) s = Some ([], s') \<and> sy_open s' = [])"
  by (auto simp: sys_step_def gate_look_def split: prod.splits)

lemma lone_finish:
  assumes "sys_run F [(t, EvProduce K cls h), (t, EvRecord cls h)] s = Some (os, s')"
    and "sy_open s = [(cls, h, p)]" and "p \<noteq> Looking"
  shows "sy_open s' = [] \<and> peak F k [(t, EvProduce K cls h), (t, EvRecord cls h)] s \<le> 1"
proof -
  have le: "open_count k u \<le> 1" if "length (sy_open u) \<le> 1" for u
    using that le_trans [OF length_filter_le] by (auto simp: open_count_def)
  obtain o1 s1 where 1: "sys_step F t (EvProduce K cls h) s = Some (o1, s1)" "sy_open s1 = [] \<or> sy_open s1 = [(cls, h, Recording)]"
    using assms(2,3) lone_steps(3,4) by (metis (no_types) phase.exhaust)
  obtain s2 where 2: "sys_step F t (EvRecord cls h) s1 = Some ([], s2)" "sy_open s2 = []"
    using 1(2) lone_steps(1,4) by metis
  show ?thesis using assms(1,2) 1 2 le [of s] le [of s1] le [of s2] by auto
qed

lemma delivery_closes:
  assumes "sys_run sample_objfmt (sample_delivery_steps t) s = Some (os, s')" and "sy_open s = []"
  shows "sy_open s' = [] \<and> peak sample_objfmt h (sample_delivery_steps t) s \<le> 1"
proof -
  have "SubtreeHeaderSize sample_objfmt = 40" using sample_objfmt_ok(2) by (simp add: frame_headers_def)
  then obtain s1 where 1: "sys_step sample_objfmt t sample_delivery_event s = Some ([], s1)"
      "sy_open s1 = [] \<or> sy_open s1 = [(ClsSubtree, replicate 32 7, Looking)]"
    using assms(2)
    by (cases "fst (Mark t (replicate 32 7) Delivered (br_seen (sy_bridge s))) = Some Submitted")
       (simp_all add: sys_step_def handleSubtree_front_def FromWire_def gate_mark_def arrive_def)
  show ?thesis
  proof (cases "sy_open s1 = []")
    case True
    then show ?thesis using assms 1(1) by (simp add: lone_steps(1) open_count_def)
  next
    case False
    then obtain s2 p where 2: "sys_step sample_objfmt t (EvLookup ClsSubtree (replicate 32 7)) s1 = Some ([], s2)"
        "sy_open s2 = [(ClsSubtree, replicate 32 7, p)]" "p \<noteq> Looking"
      using 1(2) lone_steps(2) by metis
    obtain os' where "sys_run sample_objfmt [(t, EvProduce sample_broker ClsSubtree (replicate 32 7)),
        (t, EvRecord ClsSubtree (replicate 32 7))] s2 = Some (os', s')"
      using assms(1) 1(1) 2(1) by (auto split: option.splits)
    from lone_finish [OF this 2(2,3), of h] show ?thesis
      using assms(2) 1 2(1) by (auto simp: open_count_def simp del: sys_run.simps)
  qed
qed

lemma notify_steps: "\<exists>os s'. sys_step F now (EvNotify sample_rev_env delivered_note) s = Some (os, s')"
  by (auto simp: sys_step_def handle_front_def publish_front_def delivered_note_def sample_rev_env_def typeSubtree_def
      origin_gate_def split: option.splits prod.splits sum.splits)

lemma push_steps: "\<exists>os s'. sys_step F now (EvPush E) s = Some (os, s')"
  by (auto simp: sys_step_def split: option.splits)

lemma sample_delivers: "delivers sample_objfmt sample_delivery_event = [replicate 32 7]"
  using sample_objfmt_ok(2) by (simp add: frame_headers_def)

theorem delivered_not_republished_witness:
  "\<exists>os s1 os' s2. sys_step sample_objfmt 0 sample_delivery_event sample_system = Some (os, s1) \<and>
     sys_run sample_objfmt [(1, EvNotify sample_rev_env delivered_note), (2, EvPush sample_rev_env)] s1 = Some (os', s2) \<and>
     (\<forall>out \<in> set (os @ os'). \<not> pushes_hash (replicate 32 7) out)"
proof -
  obtain os s1 where step: "sys_step sample_objfmt 0 sample_delivery_event sample_system = Some (os, s1)"
    using delivery_steps by blast
  obtain o2 s2 where n: "sys_step sample_objfmt 1 (EvNotify sample_rev_env delivered_note) s1 = Some (o2, s2)"
    using notify_steps by blast
  obtain o3 s3 where p: "sys_step sample_objfmt 2 (EvPush sample_rev_env) s2 = Some (o3, s3)" using push_steps by blast
  have run: "sys_run sample_objfmt [(1, EvNotify sample_rev_env delivered_note), (2, EvPush sample_rev_env)] s1 = Some (o2 @ o3, s3)"
    using n p by simp
  have "\<forall>out \<in> set (os @ o2 @ o3). \<not> pushes_hash (replicate 32 7) out"
    by (rule delivered_not_republished [OF sample_objfmt_ok(2) sample_system_ok(1,3) _ step _ _ _ _ run])
       (simp_all add: sample_delivers pending_for_def sample_system_def in_window_def run_weight_def del: delivers.simps)
  then show ?thesis using step run by blast
qed

theorem stale_lookup_republishes_witness:
  "\<exists>os s1 s2. sys_step sample_objfmt 1 sample_delivery_event
        (sample_system \<lparr> sy_pending := Some (ClsSubtree, replicate 32 7, [1, 2, 3]) \<rparr>) = Some (os, s1) \<and>
     Lookup (replicate 32 7) (br_seen (sy_bridge s1)) \<noteq> None \<and>
     sys_step sample_objfmt 2 (EvPush sample_rev_env) s1 = Some ([OutPush ClsSubtree (replicate 32 7) [1, 2, 3]], s2)"
proof -
  let ?s = "sample_system \<lparr> sy_pending := Some (ClsSubtree, replicate 32 7, [1, 2, 3]) \<rparr>"
  obtain os s1 where step: "sys_step sample_objfmt 1 sample_delivery_event ?s = Some (os, s1)" using delivery_steps by blast
  have "Lookup (replicate 32 7) (br_seen (sy_bridge s1)) \<noteq> None \<and>
      (\<exists>s2. sys_step sample_objfmt 2 (EvPush sample_rev_env) s1 = Some ([OutPush ClsSubtree (replicate 32 7) [1, 2, 3]], s2))"
    by (rule stale_lookup_republishes [OF sample_objfmt_ok(2) _ _ step, of 7])
       (simp_all add: sample_delivers sample_system_ok del: delivers.simps)
  then show ?thesis using step by blast
qed

theorem pushed_not_announced_witness:
  "\<exists>os s1 os' s2. sys_step sample_objfmt 0 (EvPush sample_rev_env)
        (sample_system \<lparr> sy_pending := Some (ClsSubtree, replicate 32 7, [1, 2, 3]) \<rparr>) = Some (os, s1) \<and>
     sys_run sample_objfmt (sample_delivery_steps 1) s1 = Some (os', s2) \<and>
     filter (announces_hash (replicate 32 7)) (os @ os') = []"
proof -
  let ?s = "sample_system \<lparr> sy_pending := Some (ClsSubtree, replicate 32 7, [1, 2, 3]) \<rparr>"
  obtain os s1 where step: "sys_step sample_objfmt 0 (EvPush sample_rev_env) ?s = Some (os, s1)" using push_steps by blast
  obtain os' s2 where run: "sys_run sample_objfmt (sample_delivery_steps 1) s1 = Some (os', s2)" using delivery_runs by blast
  have "length (filter (announces_hash (replicate 32 7)) (os @ os')) \<le> open_count (replicate 32 7) ?s"
  proof (rule pushed_not_announced [OF sample_objfmt_ok(2) _ _ _ _ _ step _ _ run])
    show "publisher ClsSubtree (sy_rev ?s) \<noteq> None"
      by (simp add: sample_system_def) (simp add: sample_subscriber_def)
    show "registry_ok 7 (br_seen (sy_bridge ?s))" "reg_ttl (br_seen (sy_bridge ?s)) = 20" using sample_system_ok by simp_all
    show "Lookup (replicate 32 7) (br_seen (sy_bridge ?s)) = None" by (simp add: sample_system_def sample_bridge_ok)
  qed (simp_all add: in_window_def run_weight_def)
  then show ?thesis using step run by (auto simp: open_count_def sample_system_def)
qed

lemma peak_append:
  "peak F h (xs @ ys) s = max (peak F h xs s) (case sys_run F xs s of None \<Rightarrow> 0 | Some (os, s') \<Rightarrow> peak F h ys s')"
proof (induction xs arbitrary: s)
  case Nil
  show ?case by (cases ys) auto
next
  case (Cons x xs)
  then show ?case by (cases x) (auto split: option.splits)
qed

lemma two_deliveries:
  assumes "sy_open s = []"
  obtains os s' where "sys_run sample_objfmt (sample_delivery_steps t @ sample_delivery_steps u) s = Some (os, s')"
    "peak sample_objfmt h (sample_delivery_steps t @ sample_delivery_steps u) s \<le> 1"
proof -
  obtain o1 s1 where 1: "sys_run sample_objfmt (sample_delivery_steps t) s = Some (o1, s1)" using delivery_runs by blast
  obtain o2 s2 where 2: "sys_run sample_objfmt (sample_delivery_steps u) s1 = Some (o2, s2)" using delivery_runs by blast
  note c1 = delivery_closes [OF 1 assms, of h]
  have c2: "peak sample_objfmt h (sample_delivery_steps u) s1 \<le> 1" using delivery_closes [OF 2] c1 by blast
  have "sys_run sample_objfmt (sample_delivery_steps t @ sample_delivery_steps u) s = Some (o1 @ o2, s2)"
    by (simp only: run_append 1 2 option.case prod.case)
  moreover have "peak sample_objfmt h (sample_delivery_steps t @ sample_delivery_steps u) s =
      max (peak sample_objfmt h (sample_delivery_steps t) s) (peak sample_objfmt h (sample_delivery_steps u) s1)"
    by (simp only: peak_append 1 option.case prod.case)
  ultimately show thesis using that c1 c2 by (metis max.boundedI)
qed

theorem announced_overlap_witness:
  "\<exists>os s'. sys_run sample_objfmt (sample_delivery_steps 0 @ sample_delivery_steps 3) sample_system = Some (os, s') \<and>
     length (filter (acked_hash (replicate 32 7)) os) \<le> 1"
proof -
  obtain os s' where r: "sys_run sample_objfmt (sample_delivery_steps 0 @ sample_delivery_steps 3) sample_system = Some (os, s')"
      "peak sample_objfmt (replicate 32 7) (sample_delivery_steps 0 @ sample_delivery_steps 3) sample_system \<le> 1"
    by (rule two_deliveries [of sample_system]) (simp_all add: sample_system_def)
  have "length (filter (acked_hash (replicate 32 7)) os) \<le>
      peak sample_objfmt (replicate 32 7) (sample_delivery_steps 0 @ sample_delivery_steps 3) sample_system"
    by (rule announced_overlap [OF sample_objfmt_ok(2) sample_system_ok(2,4) _ _ r(1), of 0])
       (simp_all add: in_window_def ann_run_weight_def)
  then show ?thesis using r by fastforce
qed

theorem overlapping_deliveries_announce_twice_witness:
  "\<exists>s'. sys_run sample_objfmt [(0, sample_delivery_event), (0, sample_delivery_event),
        (1, EvLookup ClsSubtree (replicate 32 7)), (1, EvLookup ClsSubtree (replicate 32 7)),
        (2, EvProduce sample_broker ClsSubtree (replicate 32 7)), (2, EvProduce sample_broker ClsSubtree (replicate 32 7))] sample_system =
      Some ([OutAnnounce ClsSubtree (replicate 32 7) True, OutAnnounce ClsSubtree (replicate 32 7) True], s')"
proof -
  have h: "take 32 (replicate 40 (7 :: byte)) = replicate 32 7" by simp
  show ?thesis
    by (rule overlapping_deliveries_announce_twice [where obj = "replicate 40 7" and p = sample_producer, unfolded h, OF sample_objfmt_ok(2) _ sample_system_ok(1)])
       (simp_all add: sample_system_def sample_bridge_ok, simp_all add: sample_bridge_def sample_producer_def sample_broker_def)
qed

end
