(* ===== verification/Txdeps.thy ===== *)
theory Txdeps
  imports Tnwire
begin

text \<open>
  The structure scan of \<open>internal/txpipe\<close>: reading CompactSize integers at an
  offset, walking the inputs of a raw or extended-format transaction, and the
  dependency test the batch builder makes with it.  The offset arithmetic is
  that of Go's \<open>int\<close>, so a hostile script length can move it backwards.
\<close>

datatype walk_error =
    ShortTx
  | BadInputCount
  | TruncatedInput
  | ShortVarInt
  | TruncatedEFInput
  | InputOverruns
  | WalkPanic

section \<open>CompactSize at an offset\<close>

definition varInt :: "bytes \<Rightarrow> int \<Rightarrow> (walk_error, u64 \<times> nat) res" where
  "varInt b off =
     (if off \<ge> int (length b) then Inl ShortVarInt
      else if off < 0 then Inl WalkPanic
      else let v = b ! nat off; s = drop (nat off + 1) b in
        if v < 0xfd then Inr (ucast v, 1)
        else if v = 0xfd then
          if off + 3 > int (length b) then Inl ShortVarInt else Inr (get_le (take 2 s), 3)
        else if v = 0xfe then
          if off + 5 > int (length b) then Inl ShortVarInt else Inr (get_le (take 4 s), 5)
        else
          if off + 9 > int (length b) then Inl ShortVarInt else Inr (get_le (take 8 s), 9))"

section \<open>Walking the inputs\<close>

definition ef_marker :: "bytes \<Rightarrow> bool" where
  "ef_marker tx \<longleftrightarrow> take 6 (drop 4 tx) = [0, 0, 0, 0, 0, 0xEF]"

text \<open>
  \<open>off += n + int(l) + k\<close>: the offset after a counted script and \<open>k\<close> more
  bytes.
\<close>

definition skip_script :: "int \<Rightarrow> nat \<Rightarrow> u64 \<Rightarrow> int \<Rightarrow> int" where
  "skip_script off n l k = wrap_int (off + int n + int_of_u64 l + k)"

text \<open>
  The loop over the inputs: the prevout hashes the callback was given, in
  order, and the error the walk ended with, if any.
\<close>

fun walk_inputs :: "nat \<Rightarrow> bool \<Rightarrow> bytes \<Rightarrow> int \<Rightarrow> hash list \<times> walk_error option" where
  "walk_inputs 0 ef tx off = ([], None)"
| "walk_inputs (Suc n) ef tx off =
     (if off + 36 > int (length tx) then ([], Some TruncatedInput)
      else case slice tx off (off + 32) of
        None \<Rightarrow> ([], Some WalkPanic)
      | Some h \<Rightarrow>
          (case varInt tx (off + 36) of
             Inl e \<Rightarrow> ([h], Some e)
           | Inr (sLen, k) \<Rightarrow>
               let off1 = skip_script (off + 36) k sLen 4 in
               (if ef then
                  (let off2 = wrap_int (off1 + 8) in
                   if off2 > int (length tx) then ([h], Some TruncatedEFInput)
                   else case varInt tx off2 of
                     Inl e \<Rightarrow> ([h], Some e)
                   | Inr (lLen, k2) \<Rightarrow>
                       let off3 = skip_script off2 k2 lLen 0 in
                       if off3 > int (length tx) then ([h], Some InputOverruns)
                       else (case walk_inputs n ef tx off3 of (hs, e) \<Rightarrow> (h # hs, e)))
                else
                  if off1 > int (length tx) then ([h], Some InputOverruns)
                  else (case walk_inputs n ef tx off1 of (hs, e) \<Rightarrow> (h # hs, e)))))"

definition inputRefs :: "bytes \<Rightarrow> hash list \<times> walk_error option" where
  "inputRefs tx =
     (if length tx < 10 then ([], Some ShortTx)
      else let ef = ef_marker tx; off = (if ef then 10 else 4) in
        case varInt tx off of
          Inl e \<Rightarrow> ([], Some BadInputCount)
        | Inr (inCount, n) \<Rightarrow>
            if inCount = 0 then ([], Some BadInputCount)
            else walk_inputs (unat inCount) ef tx (off + int n))"

text \<open>
  The test reads the references the walk has reported.  A panic of the walk, which
  ends the program, is the outcome \<open>inputRefs\<close> keeps; the test itself is a plain
  truth value and is meant for transactions on which the walk does not panic, which
  \<open>dependsOnBatch_exact\<close> shows of every well-formed one.
\<close>

definition dependsOnBatch :: "bytes \<Rightarrow> hash set \<Rightarrow> bool" where
  "dependsOnBatch tx ids \<longleftrightarrow> list_ex (\<lambda>h. h \<in> ids) (fst (inputRefs tx))"

lemma dependsOnBatch_iff: "dependsOnBatch tx ids \<longleftrightarrow> set (fst (inputRefs tx)) \<inter> ids \<noteq> {}"
  by (auto simp: dependsOnBatch_def list_ex_iff)

lemma dependsOnBatch_empty [simp]: "\<not> dependsOnBatch tx {}"
  by (simp add: dependsOnBatch_iff)

section \<open>The walk on well-formed transactions\<close>

record tx_input =
  prev :: hash
  vout :: bytes
  unlock :: bytes
  seqno :: bytes
  spent :: bytes
  lock :: bytes

definition wf_input :: "tx_input \<Rightarrow> bool" where
  "wf_input i \<longleftrightarrow> length (prev i) = 32 \<and> length (vout i) = 4 \<and> length (seqno i) = 4
     \<and> length (spent i) = 8"

definition enc_input :: "bool \<Rightarrow> tx_input \<Rightarrow> bytes" where
  "enc_input ef i =
     prev i @ vout i @ varint (u64_of_len (unlock i)) @ unlock i @ seqno i
     @ (if ef then spent i @ varint (u64_of_len (lock i)) @ lock i else [])"

definition enc_tx :: "bool \<Rightarrow> bytes \<Rightarrow> tx_input list \<Rightarrow> bytes \<Rightarrow> bytes" where
  "enc_tx ef version ins rest =
     version @ (if ef then [0, 0, 0, 0, 0, 0xEF] else []) @ varint (u64_of_len ins)
     @ concat (map (enc_input ef) ins) @ rest"

lemma ucast_byte_small:
  "unat (ucast (v :: u64) :: byte) = unat v \<Longrightarrow> (ucast (ucast v :: byte) :: u64) = v"
proof -
  assume u: "unat (ucast v :: byte) = unat v"
  have "unat (ucast v :: byte) < 2 ^ 64"
    using unat_byte_less [of "ucast v"] by (rule order_less_trans) simp
  then have "unat (ucast (ucast v :: byte) :: u64) = unat (ucast v :: byte)"
    by (subst unsigned_ucast_eq) (simp add: take_bit_nat_eq_self)
  then show ?thesis using u by (intro unsigned_word_eqI) simp
qed

lemma varInt_at:
  assumes "off = int (length xs)"
  shows "varInt (xs @ varint v @ zs) off = Inr (v, length (varint v))"
proof -
  consider "v < 0xfd" | "\<not> v < 0xfd" "v \<le> 0xffff" | "\<not> v < 0xfd" "\<not> v \<le> 0xffff" "v \<le> 0xffffffff"
    | "\<not> v < 0xfd" "\<not> v \<le> 0xffff" "\<not> v \<le> 0xffffffff" by blast
  then show ?thesis
  proof cases
    case 1
    have u: "unat (ucast v :: byte) = unat v" using small_varint(2) [OF 1] .
    then have "(ucast v :: byte) < 0xfd"
      using 1 by (simp add: word_less_nat_alt)
    moreover have "(ucast (ucast v :: byte) :: u64) = v"
      using u by (rule ucast_byte_small)
    ultimately show ?thesis using 1 assms by (simp add: varInt_def AppendVarInt_def Let_def)
  next
    case 2
    then have "unat v < 256 ^ 2" using word_le_bound [of v "0xffff"] by simp
    then show ?thesis using 2 assms by (simp add: varInt_def AppendVarInt_def Let_def get_put_le)
  next
    case 3
    then have "unat v < 256 ^ 4" using word_le_bound [of v "0xffffffff"] by simp
    then show ?thesis using 3 assms by (simp add: varInt_def AppendVarInt_def Let_def get_put_le)
  next
    case 4
    then show ?thesis using assms unat_u64_less [of v]
      by (simp add: varInt_def AppendVarInt_def Let_def get_put_le)
  qed
qed

lemma skip_script_at:
  "0 \<le> off \<Longrightarrow> off + int n + int (length xs) + k < 2 ^ 63 \<Longrightarrow> 0 \<le> k \<Longrightarrow>
   skip_script off n (u64_of_len xs) k = off + int n + int (length xs) + k"
  by (simp add: skip_script_def int_of_u64_of_len wrap_int_id)

text \<open>One input read at the offset where it starts.\<close>

lemma walk_one:
  assumes "wf_input i" and small: "int (length (pre @ enc_input ef i @ rest)) < 2 ^ 63"
    and off: "off = int (length pre)"
  shows "walk_inputs (Suc n) ef (pre @ enc_input ef i @ rest) off =
    (case walk_inputs n ef (pre @ enc_input ef i @ rest) (off + int (length (enc_input ef i)))
     of (hs, e) \<Rightarrow> (prev i # hs, e))"
proof -
  define v1 where "v1 = varint (u64_of_len (unlock i))"
  define v2 where "v2 = varint (u64_of_len (lock i))"
  define tl where "tl = (if ef then spent i @ v2 @ lock i else []) @ rest"
  define tx where "tx = pre @ enc_input ef i @ rest"
  have w: "length (prev i) = 32" "length (vout i) = 4" "length (seqno i) = 4" "length (spent i) = 8"
    using assms(1) by (simp_all add: wf_input_def)
  have tx: "tx = (pre @ prev i @ vout i) @ v1 @ unlock i @ seqno i @ tl"
    by (simp add: tx_def enc_input_def v1_def v2_def tl_def)
  have len: "int (length tx) = off + 40 + int (length v1) + int (length (unlock i)) + int (length tl)"
    using w off by (simp add: tx)
  have h: "slice tx off (off + 32) = Some (prev i)"
    using slice_middle [of off pre "off + 32" "prev i"] w off by (simp add: tx)
  have s1: "varInt tx (off + 36) = Inr (u64_of_len (unlock i), length v1)"
    unfolding tx v1_def using w off by (intro varInt_at) simp
  have sm: "int (length tx) < 2 ^ 63" using small by (simp add: tx_def)
  define o1 where "o1 = off + 40 + int (length v1) + int (length (unlock i))"
  have o1: "skip_script (off + 36) (length v1) (u64_of_len (unlock i)) 4 = o1"
    using sm len off by (subst skip_script_at) (simp_all add: o1_def)
  have g: "\<not> int (length tx) < off + 36" "\<not> int (length tx) < o1" using len by (simp_all add: o1_def)
  show ?thesis
  proof (cases ef)
    case False
    have "off + int (length (enc_input ef i)) = o1"
      using False w by (simp add: enc_input_def o1_def v1_def)
    then show ?thesis using False h s1 o1 g
      unfolding tx_def [symmetric] by simp
  next
    case True
    have tl: "tl = spent i @ v2 @ lock i @ rest" using True by (simp add: tl_def)
    have e: "off + int (length (enc_input ef i)) = o1 + 8 + int (length v2) + int (length (lock i))"
      using True w by (simp add: enc_input_def o1_def v1_def v2_def)
    have len2: "int (length tx) = o1 + 8 + int (length v2) + int (length (lock i)) + int (length rest)"
      using len w by (simp add: tl o1_def)
    have "tx = (pre @ prev i @ vout i @ v1 @ unlock i @ seqno i @ spent i) @ v2 @ lock i @ rest"
      by (simp add: tx tl)
    then have s2: "varInt tx (o1 + 8) = Inr (u64_of_len (lock i), length v2)"
      using w off by (simp only: v2_def) (intro varInt_at, simp add: o1_def)
    have o: "0 \<le> o1" "wrap_int (o1 + 8) = o1 + 8"
      using sm len2 off by (simp_all add: o1_def wrap_int_id)
    have o2: "skip_script (o1 + 8) (length v2) (u64_of_len (lock i)) 0
        = o1 + 8 + int (length v2) + int (length (lock i))"
      using sm len2 o by (subst skip_script_at) simp_all
    show ?thesis using True h s1 o1 s2 o o2 g len2
      unfolding tx_def [symmetric] e by (simp add: Let_def)
  qed
qed

lemma walk_inputs_ok:
  "\<forall>i \<in> set ins. wf_input i \<Longrightarrow> off = int (length pre) \<Longrightarrow>
   int (length (pre @ concat (map (enc_input ef) ins) @ rest)) < 2 ^ 63 \<Longrightarrow>
   walk_inputs (length ins) ef (pre @ concat (map (enc_input ef) ins) @ rest) off = (map prev ins, None)"
proof (induction ins arbitrary: pre off)
  case (Cons i ins)
  define r where "r = concat (map (enc_input ef) ins) @ rest"
  have "walk_inputs (length ins) ef ((pre @ enc_input ef i) @ concat (map (enc_input ef) ins) @ rest)
      (off + int (length (enc_input ef i))) = (map prev ins, None)"
    using Cons.prems by (intro Cons.IH) auto
  moreover have "walk_inputs (Suc (length ins)) ef (pre @ enc_input ef i @ r) off =
    (case walk_inputs (length ins) ef (pre @ enc_input ef i @ r) (off + int (length (enc_input ef i)))
     of (hs, e) \<Rightarrow> (prev i # hs, e))"
    using Cons.prems by (intro walk_one) (auto simp: r_def)
  ultimately show ?case by (simp add: r_def)
qed simp

section \<open>Properties\<close>

lemma varint_head: "0 < n \<Longrightarrow> n < 2 ^ 64 \<Longrightarrow> hd (varint (of_nat n)) \<noteq> 0"
proof -
  assume n: "0 < n" "n < 2 ^ 64"
  then have u: "unat (of_nat n :: u64) = n" by (simp add: unat_of_nat)
  show ?thesis
  proof (cases "(of_nat n :: u64) < 0xfd")
    case True
    from small_varint(2) [OF True] u have "unat (ucast (of_nat n :: u64) :: byte) = n" by simp
    with n have "(ucast (of_nat n :: u64) :: byte) \<noteq> 0" by (metis unsigned_0 less_irrefl)
    with True show ?thesis by (simp add: AppendVarInt_def)
  next
    case False
    then show ?thesis by (simp add: AppendVarInt_def)
  qed
qed

lemma inputRefs_enc_tx:
  assumes "length version = 4" and "ins \<noteq> []" and "\<forall>i \<in> set ins. wf_input i"
    and small: "length (enc_tx ef version ins rest) < 2 ^ 63"
  shows "inputRefs (enc_tx ef version ins rest) = (map prev ins, None)"
proof -
  define tx where "tx = enc_tx ef version ins rest"
  define m where "m = (if ef then [0, 0, 0, 0, 0, 0xEF] else ([] :: bytes))"
  define v where "v = varint (u64_of_len ins)"
  have tx: "tx = (version @ m) @ v @ concat (map (enc_input ef) ins) @ rest"
    by (simp add: tx_def enc_tx_def m_def v_def)
  have each: "36 \<le> length (enc_input ef i)" if "i \<in> set ins" for i
    using assms(3) that by (auto simp: wf_input_def enc_input_def)
  then have ge: "36 * length ins \<le> length (concat (map (enc_input ef) ins))" using assms(3)
    by (induction ins) (auto, force)
  have n0: "0 < length ins" using assms(2) by simp
  have l: "length ins < 2 ^ 63" using small ge unfolding tx_def [symmetric] tx by simp
  have l2: "36 \<le> length (concat (map (enc_input ef) ins))" using ge n0 by linarith
  have unat: "unat (u64_of_len ins) = length ins" using l by (simp add: u64_of_len_def unat_of_nat)
  then have nz: "u64_of_len ins \<noteq> 0" using n0 by (metis unsigned_0 less_irrefl)
  have mk: "ef_marker tx = ef"
  proof (cases ef)
    case True
    then show ?thesis using assms(1) by (simp add: ef_marker_def tx m_def)
  next
    case False
    have "hd v \<noteq> 0" unfolding v_def u64_of_len_def using n0 l by (intro varint_head) simp_all
    moreover have "v \<noteq> []" by (simp add: v_def)
    ultimately have "hd (take 6 (drop 4 tx)) \<noteq> 0" using False assms(1) by (cases v) (simp_all add: tx m_def)
    then show ?thesis using False by (metis ef_marker_def list.sel(1))
  qed
  have lm: "int (length (version @ m)) = (if ef then 10 else 4)" using assms(1) by (simp add: m_def)
  have c: "varInt tx (if ef then 10 else 4) = Inr (u64_of_len ins, length v)"
    unfolding tx v_def using lm by (intro varInt_at) simp
  have "walk_inputs (length ins) ef (((version @ m) @ v) @ concat (map (enc_input ef) ins) @ rest)
      ((if ef then 10 else 4) + int (length v)) = (map prev ins, None)"
    using lm small by (intro walk_inputs_ok) (use assms(3) tx tx_def in auto)
  then have "walk_inputs (length ins) ef tx ((if ef then 10 else 4) + int (length v)) = (map prev ins, None)"
    by (simp add: tx)
  moreover have "\<not> length tx < 10" using l2 by (simp add: tx)
  ultimately have "inputRefs tx = (map prev ins, None)"
    using mk c nz unat by (simp only: inputRefs_def Let_def if_False sum.case prod.case)
  then show ?thesis by (simp add: tx_def)
qed

text \<open>
  C24: The dependency scan is exact.  On every transaction laid out in the raw
  or the extended format, with any number of inputs and any script lengths, the
  walk over the inputs ends with neither an error nor a panic, and the builder's
  test answers yes precisely when some input spends an output of a transaction
  in the given set.
\<close>

theorem dependsOnBatch_exact:
  assumes "length version = 4" and "ins \<noteq> []" and "\<forall>i \<in> set ins. wf_input i"
    and "length (enc_tx ef version ins rest) < 2 ^ 63"
  shows "snd (inputRefs (enc_tx ef version ins rest)) = None \<and>
    (dependsOnBatch (enc_tx ef version ins rest) ids \<longleftrightarrow> (\<exists>i \<in> set ins. prev i \<in> ids))"
  using inputRefs_enc_tx [OF assms] by (auto simp: dependsOnBatch_iff)

definition sample_input :: "byte \<Rightarrow> tx_input" where
  "sample_input c = \<lparr> prev = replicate 32 c, vout = [0, 0, 0, 0], unlock = [1], seqno = [0, 0, 0, 0],
     spent = [0, 0, 0, 0, 0, 0, 0, 1], lock = [2, 2] \<rparr>"

lemma sample_input_ok: "wf_input (sample_input c)"
  by (simp add: wf_input_def sample_input_def)

theorem dependsOnBatch_exact_witness:
  "dependsOnBatch (enc_tx True [1, 0, 0, 0] [sample_input 5, sample_input 6] [0]) {replicate 32 6} \<and>
   \<not> dependsOnBatch (enc_tx False [1, 0, 0, 0] [sample_input 5] [0]) {replicate 32 6}"
proof -
  have l: "length (enc_input ef (sample_input c)) < 100" for ef c
    by (simp add: enc_input_def sample_input_def AppendVarInt_def)
  have v: "length (varint v) \<le> 9" for v using length_varint [of v] by auto
  have "length (enc_tx ef [1, 0, 0, 0] [sample_input c, sample_input d] [0]) < 2 ^ 63"
    "length (enc_tx ef [1, 0, 0, 0] [sample_input c] [0]) < 2 ^ 63" for ef c d
    using l [of ef c] l [of ef d] v [of "u64_of_len [sample_input c, sample_input d]"]
      v [of "u64_of_len [sample_input c]"]
    by (cases ef; simp add: enc_tx_def)+
  then show ?thesis
    using dependsOnBatch_exact [of "[1, 0, 0, 0]" "[sample_input 5, sample_input 6]" True "[0]" "{replicate 32 6}"]
      dependsOnBatch_exact [of "[1, 0, 0, 0]" "[sample_input 5]" False "[0]" "{replicate 32 6}"]
    by (simp add: sample_input_ok) (simp add: sample_input_def)
qed

text \<open>
  Two inputs are announced and the first one's script length is \<open>2 ^ 64 - 100\<close>,
  which \<open>int\<close> reads as -100.
\<close>

definition hostile_tx :: bytes where
  "hostile_tx = ([1, 0, 0, 0, 2] @ replicate 36 7) @ varint (- 100) @ replicate 40 0"

text \<open>
  A malformed transaction is not always left for the server to reject: a
  script length of \<open>2 ^ 64 - 100\<close> moves the scan's offset below zero, past the
  overrun guard, and the next input's slice panics.
\<close>

theorem inputRefs_hostile_script: "snd (inputRefs hostile_tx) = Some WalkPanic"
proof -
  have v: "length (varint (- 100)) = 9" by (simp add: AppendVarInt_def)
  then have len: "length hostile_tx = 90" by (simp add: hostile_tx_def)
  have five: "take 5 hostile_tx = [1, 0, 0, 0, 2]" by (simp add: hostile_tx_def)
  then have b4: "hostile_tx ! 4 = 2" using nth_take [of 4 5 hostile_tx] by simp
  then have m: "\<not> ef_marker hostile_tx"
    using nth_drop [of 4 hostile_tx 0] len by (cases "drop 4 hostile_tx") (auto simp: ef_marker_def)
  have c: "varInt hostile_tx 4 = Inr (2, 1)" using b4 len by (simp add: varInt_def Let_def)
  have h: "slice hostile_tx 5 37 = Some (replicate 32 7)"
    by (simp add: slice_def len hostile_tx_def)
  have s: "varInt hostile_tx 41 = Inr (- 100, 9)"
    using v varInt_at [of 41 "[1, 0, 0, 0, 2] @ replicate 36 7" "- 100"] by (simp add: hostile_tx_def)
  have k: "skip_script 41 9 (- 100) 4 = - 46"
    by (simp add: skip_script_def int_of_u64_def wrap_int_def)
  have two: "unat (2 :: u64) = Suc (Suc 0)" by simp
  have "walk_inputs (Suc (Suc 0)) False hostile_tx 5 = ([replicate 32 7], Some WalkPanic)"
    using h s k len by (simp add: slice_def)
  then have "walk_inputs (unat (2 :: u64)) False hostile_tx 5 = ([replicate 32 7], Some WalkPanic)"
    by (simp only: two)
  then show ?thesis using m c len by (simp add: inputRefs_def)
qed

end
