(* ===== verification/Txpipe.thy ===== *)
theory Txpipe
  imports Txdeps
begin

text \<open>
  The batch builder of \<open>internal/txpipe\<close>: configuration defaults, the hand-off
  batch a lane session fills, the choice of a builder's queue, and the
  accumulate/seal loop with its shutdown drain.  A builder's state is the open
  batch, its linger timer and the batches it has sealed, in order.
\<close>

section \<open>Configuration\<close>

record pipe_Config =
  Endpoints :: "string list"
  BatchTxs :: int
  BatchBytes :: int
  Linger :: duration
  Inflight :: int
  RetryAttempts :: int
  Timeout :: duration
  Queue :: int
  Builders :: int

definition maxServerBatchTxs :: int where
  "maxServerBatchTxs = 1023"

text \<open>\<open>for c.Builders&(c.Builders-1) != 0 { c.Builders-- }\<close>\<close>

function round_pow2 :: "nat \<Rightarrow> nat" where
  "round_pow2 n = (if n AND (n - 1) \<noteq> 0 then round_pow2 (n - 1) else n)"
  by auto
termination
proof (relation "measure (\<lambda>n. n)")
  fix n :: nat
  assume "n AND (n - 1) \<noteq> 0"
  then have "n \<noteq> 0" by (cases n) auto
  then show "(n - 1, n) \<in> measure (\<lambda>n. n)" by simp
qed simp

declare round_pow2.simps [simp del]

text \<open>\<open>if c.X <= 0 { c.X = d }\<close>\<close>

definition or_default :: "int \<Rightarrow> int \<Rightarrow> int" where
  "or_default d x = (if x \<le> 0 then d else x)"

text \<open>The clamps touch one field each, so they are written field by field.\<close>

definition pipe_defaults :: "pipe_Config \<Rightarrow> pipe_Config" where
  "pipe_defaults c = c \<lparr>
     BatchTxs := (let n = or_default 512 (BatchTxs c) in if n > maxServerBatchTxs then maxServerBatchTxs else n),
     BatchBytes := (let n = or_default (8 * 2 ^ 20) (BatchBytes c) in if n > 30 * 2 ^ 20 then 30 * 2 ^ 20 else n),
     Linger := or_default (2 * millisecond) (Linger c),
     Inflight := or_default 4 (Inflight c),
     Timeout := or_default (30 * second) (Timeout c),
     Queue := or_default 8192 (Queue c),
     Builders := int (round_pow2 (nat (if Builders c < 1 then 4 else if Builders c > 16 then 16 else Builders c))) \<rparr>"

definition BatchCap :: nat where
  "BatchCap = 64"

text \<open>The depth of each builder's queue, in runs.\<close>

definition queue_depth :: "pipe_Config \<Rightarrow> int" where
  "queue_depth c = max 4 (Queue c div (Builders c * int BatchCap))"

lemma queue_depth_pos: "0 < queue_depth c"
  by (simp add: queue_depth_def less_max_iff_disj)

definition pipe_New :: "pipe_Config \<Rightarrow> pipe_Config option" where
  "pipe_New c =
     (if Endpoints c = [] then None
      else let c = pipe_defaults c in
        Some (c \<lparr> Endpoints := map (trim_right (CHR ''/'')) (Endpoints c) \<rparr>))"

section \<open>Jobs, hand-off batches and the choice of a builder\<close>

record job =
  raw :: bytes
  jid :: hash

text \<open>A hand-off \<open>Batch\<close> is the list of its jobs.\<close>

definition Batch_Add :: "bytes \<Rightarrow> hash \<Rightarrow> job list \<Rightarrow> bool \<times> job list" where
  "Batch_Add r h js = (let js' = js @ [\<lparr> raw = r, jid = h \<rparr>] in (length js' \<ge> BatchCap, js'))"

definition builder_of_id :: "pipe_Config \<Rightarrow> hash \<Rightarrow> int" where
  "builder_of_id c h = uint (h ! 1) AND (Builders c - 1)"

definition builder_of_rr :: "pipe_Config \<Rightarrow> u64 \<Rightarrow> int" where
  "builder_of_rr c rr = int_of_u64 rr AND (Builders c - 1)"

text \<open>
  \<open>Flush\<close>: nothing for an empty batch; otherwise the advanced round-robin
  counter, the builder chosen, the run sent and the emptied batch.
\<close>

definition Batch_Flush :: "pipe_Config \<Rightarrow> u64 \<Rightarrow> job list \<Rightarrow> (int \<times> job list) option \<times> u64 \<times> job list" where
  "Batch_Flush c rr js =
     (if js = [] then (None, rr, js)
      else (Some (builder_of_rr c (rr + 1), js), rr + 1, []))"

text \<open>A new batch, its length, and the single-transaction entry points, routed by the second byte of the id.\<close>

definition NewBatch :: "job list" where
  "NewBatch = []"

definition Batch_Len :: "job list \<Rightarrow> nat" where
  "Batch_Len js = length js"

definition EnqueueOwned :: "pipe_Config \<Rightarrow> bytes \<Rightarrow> hash \<Rightarrow> int \<times> job list" where
  "EnqueueOwned c r h = (builder_of_id c h, [\<lparr> raw = r, jid = h \<rparr>])"

definition Enqueue :: "pipe_Config \<Rightarrow> bytes \<Rightarrow> hash \<Rightarrow> int \<times> job list" where
  "Enqueue c r h = EnqueueOwned c (map id r) h"

section \<open>The builder\<close>

record batch =
  body :: bytes
  jobs :: "job list"
  ids :: "hash set"
  born :: time

definition newBatch :: batch where
  "newBatch = \<lparr> body = [], jobs = [], ids = {}, born = 0 \<rparr>"

datatype seal_reason = SealSize | SealBytes | SealLinger | SealDep

record builder =
  cur :: batch
  timer :: "time option"
  sealed :: "(seal_reason \<times> batch) list"

definition builder_init :: builder where
  "builder_init = \<lparr> cur = newBatch, timer = None, sealed = [] \<rparr>"

definition seal :: "seal_reason \<Rightarrow> builder \<Rightarrow> builder" where
  "seal r s =
     (if jobs (cur s) = [] then s
      else s \<lparr> cur := newBatch, timer := None, sealed := sealed s @ [(r, cur s)] \<rparr>)"

text \<open>Appending to the open batch, as \<open>add\<close> does and as the shutdown drain does.\<close>

definition push_job :: "job \<Rightarrow> batch \<Rightarrow> batch" where
  "push_job j b = b \<lparr> body := body b @ raw j, jobs := jobs b @ [j], ids := insert (jid j) (ids b) \<rparr>"

definition drain_job :: "job \<Rightarrow> batch \<Rightarrow> batch" where
  "drain_job j b = b \<lparr> body := body b @ raw j, jobs := jobs b @ [j] \<rparr>"

definition add_job :: "pipe_Config \<Rightarrow> time \<Rightarrow> job \<Rightarrow> builder \<Rightarrow> builder" where
  "add_job c now j s =
     (let s = (if dependsOnBatch (raw j) (ids (cur s)) then seal SealDep s else s);
          s = (if jobs (cur s) = []
               then s \<lparr> cur := (cur s) \<lparr> born := now \<rparr>, timer := Some (now + Linger c) \<rparr> else s);
          s = s \<lparr> cur := push_job j (cur s) \<rparr>
      in if int (length (jobs (cur s))) \<ge> BatchTxs c then seal SealSize s
         else if int (length (body (cur s))) \<ge> BatchBytes c then seal SealBytes s
         else s)"

definition addRun :: "pipe_Config \<Rightarrow> time \<Rightarrow> job list \<Rightarrow> builder \<Rightarrow> builder" where
  "addRun c now js s = fold (add_job c now) js s"

text \<open>
  What wakes the builder's loop.  The linger timer fires only when it is
  armed and due; cancellation drains every queued run and seals once.
\<close>

datatype wake = Runs time "job list list" | LingerFires time

definition builder_step :: "pipe_Config \<Rightarrow> wake \<Rightarrow> builder \<Rightarrow> builder" where
  "builder_step c w s =
     (case w of
        Runs now rs \<Rightarrow> fold (addRun c now) rs s
      | LingerFires now \<Rightarrow>
          (case timer s of
             None \<Rightarrow> s
           | Some t \<Rightarrow> if t \<le> now then seal SealLinger s else s))"

definition builder_shutdown :: "job list list \<Rightarrow> builder \<Rightarrow> builder" where
  "builder_shutdown rs s =
     seal SealLinger (s \<lparr> cur := fold (\<lambda>js b. fold drain_job js b) rs (cur s) \<rparr>)"

definition run_wakes :: "pipe_Config \<Rightarrow> wake list \<Rightarrow> builder \<Rightarrow> builder" where
  "run_wakes c ws s = fold (builder_step c) ws s"

definition bodyHintPerTx :: int where
  "bodyHintPerTx = 512"

text \<open>
  \<open>recycle\<close>: a batch whose body's capacity outgrew the hint is dropped, any
  other is emptied for reuse.
\<close>

definition recycle :: "pipe_Config \<Rightarrow> int \<Rightarrow> batch \<Rightarrow> batch option" where
  "recycle c body_cap b =
     (if body_cap > 4 * BatchTxs c * bodyHintPerTx then None
      else Some (b \<lparr> jobs := [], ids := {}, body := [], born := 0 \<rparr>))"

section \<open>Invariant of the builder\<close>

text \<open>No job spends an output of an earlier job of the list.\<close>

definition dep_free :: "job list \<Rightarrow> bool" where
  "dep_free js = sorted_wrt (\<lambda>p ch. \<not> dependsOnBatch (raw ch) {jid p}) js"

definition batch_linked :: "batch \<Rightarrow> bool" where
  "batch_linked b \<longleftrightarrow>
     body b = concat (map raw (jobs b)) \<and> ids b = set (map jid (jobs b)) \<and> dep_free (jobs b)"

definition open_batch :: "pipe_Config \<Rightarrow> batch \<Rightarrow> bool" where
  "open_batch c b \<longleftrightarrow>
     batch_linked b \<and> int (length (jobs b)) < BatchTxs c \<and> int (length (body b)) < BatchBytes c"

definition sealed_batch :: "pipe_Config \<Rightarrow> batch \<Rightarrow> bool" where
  "sealed_batch c b \<longleftrightarrow>
     batch_linked b \<and> jobs b \<noteq> [] \<and> int (length (jobs b)) \<le> BatchTxs c \<and>
     int (length (body b)) < BatchBytes c + int (length (raw (last (jobs b))))"

definition config_ok :: "pipe_Config \<Rightarrow> bool" where
  "config_ok c \<longleftrightarrow> 0 < BatchTxs c \<and> 0 < BatchBytes c"

definition builder_ok :: "pipe_Config \<Rightarrow> builder \<Rightarrow> bool" where
  "builder_ok c s \<longleftrightarrow>
     open_batch c (cur s) \<and> (\<forall>rb \<in> set (sealed s). sealed_batch c (snd rb)) \<and>
     (timer s = None \<longleftrightarrow> jobs (cur s) = [])"

text \<open>The jobs a builder has taken, in the order it took them.\<close>

definition taken :: "builder \<Rightarrow> job list" where
  "taken s = concat (map (\<lambda>rb. jobs (snd rb)) (sealed s)) @ jobs (cur s)"

lemma newBatch_open: "config_ok c \<Longrightarrow> open_batch c newBatch"
  by (simp add: config_ok_def open_batch_def newBatch_def batch_linked_def dep_free_def)

lemma open_imp_sealed:
  "open_batch c b \<Longrightarrow> jobs b \<noteq> [] \<Longrightarrow> sealed_batch c b"
  by (simp add: open_batch_def sealed_batch_def)

lemma seal_ok:
  "config_ok c \<Longrightarrow> builder_ok c s \<Longrightarrow> builder_ok c (seal r s)"
  using newBatch_open [of c] open_imp_sealed [of c "cur s"]
  by (auto simp: seal_def builder_ok_def) (auto simp: newBatch_def)

lemma taken_seal [simp]: "taken (seal r s) = taken s"
  by (simp add: seal_def taken_def newBatch_def)

lemma seal_cur: "jobs (cur (seal r s)) = []" "jobs (cur s) \<noteq> [] \<Longrightarrow> cur (seal r s) = newBatch"
  by (auto simp: seal_def newBatch_def)

lemma dep_free_snoc:
  "dep_free (js @ [j]) \<longleftrightarrow> dep_free js \<and> \<not> dependsOnBatch (raw j) (set (map jid js))"
  by (auto simp: dep_free_def sorted_wrt_append dependsOnBatch_iff)

lemma push_job_linked:
  "batch_linked b \<Longrightarrow> \<not> dependsOnBatch (raw j) (ids b) \<Longrightarrow> batch_linked (push_job j b)"
  by (simp add: batch_linked_def push_job_def dep_free_snoc)

lemma dep_free_filter: "dep_free js \<Longrightarrow> dep_free (filter P js)"
  by (simp add: dep_free_def sorted_wrt_filter)

lemma add_job_ok:
  assumes c: "config_ok c" and s: "builder_ok c s"
  shows "builder_ok c (add_job c now j s) \<and> taken (add_job c now j s) = taken s @ [j]"
proof -
  define s1 where "s1 = (if dependsOnBatch (raw j) (ids (cur s)) then seal SealDep s else s)"
  have ok1: "builder_ok c s1" using seal_ok [OF c s] s by (simp add: s1_def)
  have t1: "taken s1 = taken s" by (simp add: s1_def)
  have free: "\<not> dependsOnBatch (raw j) (ids (cur s1))"
  proof (cases "dependsOnBatch (raw j) (ids (cur s))")
    case True
    with s have "jobs (cur s) \<noteq> []" by (auto simp: builder_ok_def open_batch_def batch_linked_def)
    with True show ?thesis by (simp add: s1_def seal_cur newBatch_def)
  qed (simp add: s1_def)
  define s2 where "s2 = (if jobs (cur s1) = []
      then s1 \<lparr> cur := (cur s1) \<lparr> born := now \<rparr>, timer := Some (now + Linger c) \<rparr> else s1)"
  have c2: "batch_linked (cur s2)" "\<not> dependsOnBatch (raw j) (ids (cur s2))"
    "jobs (cur s2) = jobs (cur s1)" "body (cur s2) = body (cur s1)" "sealed s2 = sealed s1" "timer s2 \<noteq> None"
    using ok1 free by (auto simp: s2_def builder_ok_def open_batch_def batch_linked_def)
  define s3 where "s3 = s2 \<lparr> cur := push_job j (cur s2) \<rparr>"
  have open1: "int (length (jobs (cur s1))) < BatchTxs c" "int (length (body (cur s1))) < BatchBytes c"
    "\<forall>rb \<in> set (sealed s1). sealed_batch c (snd rb)"
    using ok1 by (simp_all add: builder_ok_def open_batch_def)
  have l3: "batch_linked (cur s3)" using push_job_linked [OF c2(1,2)] by (simp add: s3_def)
  have j3: "jobs (cur s3) = jobs (cur s1) @ [j]" "body (cur s3) = body (cur s1) @ raw j"
    using c2 by (simp_all add: s3_def push_job_def)
  have full: "sealed_batch c (cur s3)" using l3 j3 open1 by (simp add: sealed_batch_def)
  have t3: "taken s3 = taken s @ [j]" using c2 t1 j3 by (simp add: taken_def s3_def)
  have s3: "sealed s3 = sealed s1" "timer s3 \<noteq> None" using c2 by (simp_all add: s3_def)
  have sl: "builder_ok c (seal r s3)" for r
    using full open1 s3 newBatch_open [OF c] by (auto simp: seal_def builder_ok_def j3) (auto simp: newBatch_def)
  have add: "add_job c now j s = (if int (length (jobs (cur s3))) \<ge> BatchTxs c then seal SealSize s3
      else if int (length (body (cur s3))) \<ge> BatchBytes c then seal SealBytes s3 else s3)"
    by (simp only: add_job_def s1_def [symmetric] s2_def [symmetric] s3_def [symmetric] Let_def)
  show ?thesis using sl t3 l3 s3 open1 by (auto simp: add builder_ok_def open_batch_def j3)
qed

lemma addRun_ok:
  "config_ok c \<Longrightarrow> builder_ok c s \<Longrightarrow>
   builder_ok c (addRun c now js s) \<and> taken (addRun c now js s) = taken s @ js"
  unfolding addRun_def
  by (induction js arbitrary: s) (simp_all add: add_job_ok)

lemma fold_addRun_ok:
  "config_ok c \<Longrightarrow> builder_ok c s \<Longrightarrow>
   builder_ok c (fold (addRun c now) rs s) \<and> taken (fold (addRun c now) rs s) = taken s @ concat rs"
  by (induction rs arbitrary: s) (simp_all add: addRun_ok)

fun wake_jobs :: "wake \<Rightarrow> job list" where
  "wake_jobs (Runs now rs) = concat rs"
| "wake_jobs (LingerFires now) = []"

lemma builder_step_ok:
  "config_ok c \<Longrightarrow> builder_ok c s \<Longrightarrow>
   builder_ok c (builder_step c w s) \<and> taken (builder_step c w s) = taken s @ wake_jobs w"
  by (cases w) (auto simp: builder_step_def fold_addRun_ok seal_ok split: option.splits)

lemma run_wakes_ok:
  "config_ok c \<Longrightarrow> builder_ok c s \<Longrightarrow>
   builder_ok c (run_wakes c ws s) \<and> taken (run_wakes c ws s) = taken s @ concat (map wake_jobs ws)"
  unfolding run_wakes_def
  by (induction ws arbitrary: s) (simp_all add: builder_step_ok)

lemma builder_init_ok: "config_ok c \<Longrightarrow> builder_ok c builder_init"
  using newBatch_open [of c] by (simp add: builder_ok_def builder_init_def) (simp add: newBatch_def)

lemma fold_drain_job: "jobs (fold drain_job js b) = jobs b @ js"
    "body (fold drain_job js b) = body b @ concat (map raw js)"
  by (induction js arbitrary: b) (simp_all add: drain_job_def)

lemma fold_drain_runs: "jobs (fold (\<lambda>js b. fold drain_job js b) rs b) = jobs b @ concat rs"
    "body (fold (\<lambda>js b. fold drain_job js b) rs b) = body b @ concat (map raw (concat rs))"
  by (induction rs arbitrary: b) (simp_all add: fold_drain_job)

lemma builder_shutdown_taken: "taken (builder_shutdown rs s) = taken s @ concat rs"
  by (simp add: builder_shutdown_def) (simp add: taken_def fold_drain_runs)

section \<open>Bounds of the configuration\<close>

lemma round_pow2_values:
  assumes "1 \<le> n" and "n \<le> 16"
  shows "round_pow2 n \<in> {1, 2, 4, 8, 16}"
proof -
  have "list_all (\<lambda>n. round_pow2 n \<in> {1, 2, 4, 8, 16}) [1..<17]" by code_simp
  with assms show ?thesis by (simp add: list_all_iff)
qed

lemma pipe_defaults_fields:
  "1 \<le> BatchTxs (pipe_defaults c) \<and> BatchTxs (pipe_defaults c) \<le> maxServerBatchTxs"
  "1 \<le> BatchBytes (pipe_defaults c) \<and> BatchBytes (pipe_defaults c) \<le> 30 * 2 ^ 20"
  "0 < Linger (pipe_defaults c)" "0 < Inflight (pipe_defaults c)"
  "0 < Timeout (pipe_defaults c)" "0 < Queue (pipe_defaults c)"
  by (auto simp: pipe_defaults_def Let_def maxServerBatchTxs_def or_default_def)

lemma pipe_defaults_builders: "Builders (pipe_defaults c) \<in> {1, 2, 4, 8, 16}"
proof -
  define b where "b = (if Builders c < 1 then 4 else if Builders c > 16 then 16 else Builders c)"
  have "1 \<le> nat b" "nat b \<le> 16" by (auto simp: b_def)
  then have "int (round_pow2 (nat b)) \<in> {1, 2, 4, 8, 16}" using round_pow2_values [of "nat b"] by auto
  moreover have "Builders (pipe_defaults c) = int (round_pow2 (nat b))"
    by (simp add: pipe_defaults_def Let_def b_def)
  ultimately show ?thesis by simp
qed

lemma config_ok_defaults: "config_ok (pipe_defaults c)"
  using pipe_defaults_fields [of c] by (simp add: config_ok_def)

lemma mask_bound: "b \<in> {1, 2, 4, 8, 16 :: int} \<Longrightarrow> 0 \<le> x AND (b - 1) \<and> x AND (b - 1) < b"
proof -
  assume b: "b \<in> {1, 2, 4, 8, 16 :: int}"
  then have "0 \<le> b - 1" by auto
  then have "0 \<le> x AND (b - 1)" "x AND (b - 1) \<le> b - 1" by (simp_all add: AND_upper2)
  then show ?thesis by simp
qed

section \<open>Properties\<close>

definition sample_config :: pipe_Config where
  "sample_config = \<lparr> Endpoints = [''http://p:1/''], BatchTxs = 0, BatchBytes = 0, Linger = 0, Inflight = 0,
     RetryAttempts = 3, Timeout = 0, Queue = 0, Builders = 6 \<rparr>"

text \<open>A parent and a child spending its output.\<close>

definition sample_parent :: job where
  "sample_parent = \<lparr> raw = [], jid = replicate 32 6 \<rparr>"

definition sample_child :: job where
  "sample_child = \<lparr> raw = enc_tx False [1, 0, 0, 0] [sample_input 6] [0], jid = replicate 32 8 \<rparr>"

lemma sample_child_refs: "fst (inputRefs (raw sample_child)) = [replicate 32 6]"
proof -
  have v: "length (varint v) \<le> 9" for v using length_varint [of v] by auto
  have "length (enc_tx False [1, 0, 0, 0] [sample_input 6] [0]) < 2 ^ 63"
    using v [of "u64_of_len [sample_input 6]"] v [of "u64_of_len [1 :: byte]"]
    by (simp add: enc_tx_def enc_input_def) (simp add: sample_input_def)
  then show ?thesis
    using inputRefs_enc_tx [of "[1, 0, 0, 0]" "[sample_input 6]" False "[0]"] sample_input_ok
    by (simp add: sample_child_def) (simp add: sample_input_def)
qed

lemma sample_child_depends: "dependsOnBatch (raw sample_child) {jid sample_parent}"
  by (simp add: dependsOnBatch_iff sample_child_refs sample_parent_def)

text \<open>
  C4: What a builder seals.  Whatever runs arrive and whenever the linger
  timer fires, every sealed batch holds between one and 1023 transactions, its
  body is their concatenation, no member spends an output of an earlier
  member, and the sealed batches followed by the open one are exactly the
  transactions taken, in order, none lost, repeated or moved.
\<close>

theorem builder_batches:
  "let c = pipe_defaults c0; s = run_wakes c ws builder_init in
   (\<forall>(r, b) \<in> set (sealed s).
      jobs b \<noteq> [] \<and> int (length (jobs b)) \<le> BatchTxs c \<and> BatchTxs c \<le> 1023 \<and>
      body b = concat (map raw (jobs b)) \<and> dep_free (jobs b)) \<and>
   concat (map (\<lambda>(r, b). jobs b) (sealed s)) @ jobs (cur s) = concat (map wake_jobs ws)"
proof -
  define c where "c = pipe_defaults c0"
  define s where "s = run_wakes c ws builder_init"
  have c: "config_ok c" by (simp add: c_def config_ok_defaults)
  have ok: "builder_ok c s" and t: "taken s = concat (map wake_jobs ws)"
    using run_wakes_ok [OF c builder_init_ok [OF c]]
    by (simp_all add: s_def taken_def builder_init_def newBatch_def)
  have "BatchTxs c \<le> 1023" using pipe_defaults_fields(1) [of c0] by (simp add: c_def maxServerBatchTxs_def)
  with ok t show ?thesis
    unfolding c_def [symmetric] Let_def s_def [symmetric]
    by (auto simp: builder_ok_def sealed_batch_def batch_linked_def taken_def split_def)
qed

theorem builder_batches_witness:
  "let c = pipe_defaults sample_config; s = run_wakes c [Runs 0 [[sample_parent, sample_child]]] builder_init in
   (\<forall>(r, b) \<in> set (sealed s).
      jobs b \<noteq> [] \<and> int (length (jobs b)) \<le> BatchTxs c \<and> BatchTxs c \<le> 1023 \<and>
      body b = concat (map raw (jobs b)) \<and> dep_free (jobs b)) \<and>
   concat (map (\<lambda>(r, b). jobs b) (sealed s)) @ jobs (cur s) = [sample_parent, sample_child]"
  using builder_batches [of sample_config "[Runs 0 [[sample_parent, sample_child]]]"]
  by (simp add: Let_def)

text \<open>
  C39: The shutdown drain bypasses the seal rules: every queued transaction
  joins the open batch, which is sealed once, so the final request holds as
  many transactions as were queued and may hold a parent with its child.
\<close>

theorem shutdown_drain_unchecked:
  assumes "jobs (cur s) @ concat rs \<noteq> []"
  shows "\<exists>b. sealed (builder_shutdown rs s) = sealed s @ [(SealLinger, b)] \<and>
             jobs b = jobs (cur s) @ concat rs"
  using assms by (simp add: builder_shutdown_def seal_def fold_drain_runs)

theorem shutdown_drain_unchecked_witness:
  "(\<exists>b. sealed (builder_shutdown (replicate 600 [sample_parent, sample_child]) builder_init)
          = [(SealLinger, b)] \<and>
        jobs b = concat (replicate 600 [sample_parent, sample_child])) \<and>
   length (concat (replicate 600 [sample_parent, sample_child])) = 1200 \<and>
   \<not> dep_free [sample_parent, sample_child]"
proof -
  have "concat (replicate 600 [sample_parent, sample_child]) \<noteq> []" by simp
  then have "\<exists>b. sealed (builder_shutdown (replicate 600 [sample_parent, sample_child]) builder_init)
          = [(SealLinger, b)] \<and> jobs b = concat (replicate 600 [sample_parent, sample_child])"
    using shutdown_drain_unchecked [of builder_init "replicate 600 [sample_parent, sample_child]"]
    by (simp add: builder_init_def newBatch_def)
  moreover have "length (concat (replicate 600 [sample_parent, sample_child])) = 1200"
    by (simp add: length_concat sum_list_replicate)
  ultimately show ?thesis using sample_child_depends by (simp add: dep_free_def)
qed

text \<open>
  The configuration the pipe runs with is within the server's limits for
  every configuration it is given: 1 to 1023 transactions and at most 30 MiB
  per batch, a positive in-flight bound, at least four runs of queue, and a
  power-of-two number of builders that both routings index within range.
\<close>

theorem pipe_config_bounds:
  "let c = pipe_defaults c0 in
   1 \<le> BatchTxs c \<and> BatchTxs c \<le> 1023 \<and> 1 \<le> BatchBytes c \<and> BatchBytes c \<le> 30 * 2 ^ 20 \<and>
   0 < Inflight c \<and> 4 \<le> queue_depth c \<and> Builders c \<in> {1, 2, 4, 8, 16} \<and>
   0 \<le> builder_of_id c h \<and> builder_of_id c h < Builders c \<and>
   0 \<le> builder_of_rr c rr \<and> builder_of_rr c rr < Builders c"
  using pipe_defaults_fields [of c0] pipe_defaults_builders [of c0]
    mask_bound [OF pipe_defaults_builders [of c0]]
  by (simp add: Let_def queue_depth_def builder_of_id_def builder_of_rr_def maxServerBatchTxs_def)

end
