(* ===== verification/Admission.thy ===== *)
theory Admission
  imports Txpipe Generational Lanes
begin

text \<open>
  \<open>cmd/teranode-bridge\<close>, the transaction lane: \<open>admitTx\<close>, \<open>handleTx\<close> and the
  per-connection session of \<open>txSession\<close>.  Every connection has a hand-off batch
  of its own and all share the transaction cache, the pipe and its round-robin
  counter.  The context a lane gives its handlers is never cancelled
  (\<open>context.WithoutCancel\<close> in \<open>serveConn\<close>), so a send returns once the builder's
  queue has taken the run.  The clock is a function of the number of readings
  made, one for each call of the cache's \<open>Admit\<close>.
\<close>

section \<open>State\<close>

record tx_plane =
  tp_txs :: "Generational option"
  tp_reads :: nat
  tp_rr :: u64
  tp_runs :: "nat \<Rightarrow> job list"
  tp_sent :: "(nat \<times> int \<times> job list) list"

definition plane_init :: "Generational option \<Rightarrow> tx_plane" where
  "plane_init txs = \<lparr> tp_txs = txs, tp_reads = 0, tp_rr = 0, tp_runs = (\<lambda>i. []), tp_sent = [] \<rparr>"

datatype tx_error = NotEF nat | NoTxID

section \<open>Operations\<close>

definition admitTx :: "objfmt \<Rightarrow> time \<Rightarrow> bytes \<Rightarrow> Generational option \<Rightarrow> (tx_error + hash \<times> bool) \<times> Generational option" where
  "admitTx F now obj txs =
     (if \<not> IsEF F obj then (Inl (NotEF (length obj)), txs)
      else case TxID F obj of
        None \<Rightarrow> (Inl NoTxID, txs)
      | Some h \<Rightarrow> (case Admit now h obj txs of (fresh, txs) \<Rightarrow> (Inr (h, fresh), txs)))"

text \<open>One send into the pipe, by connection \<open>i\<close> to builder \<open>b\<close>.\<close>

definition send_run :: "nat \<Rightarrow> int \<Rightarrow> job list \<Rightarrow> tx_plane \<Rightarrow> tx_plane" where
  "send_run i b js s = s \<lparr> tp_sent := tp_sent s @ [(i, b, js)] \<rparr>"

definition admit_step :: "objfmt \<Rightarrow> (nat \<Rightarrow> time) \<Rightarrow> bytes \<Rightarrow> tx_plane \<Rightarrow> (tx_error + hash \<times> bool) \<times> tx_plane" where
  "admit_step F clk obj s =
     (case admitTx F (clk (tp_reads s)) obj (tp_txs s) of
        (Inl e, txs) \<Rightarrow> (Inl e, s \<lparr> tp_txs := txs \<rparr>)
      | (Inr r, txs) \<Rightarrow> (Inr r, s \<lparr> tp_txs := txs, tp_reads := tp_reads s + 1 \<rparr>))"

definition handleTx :: "objfmt \<Rightarrow> (nat \<Rightarrow> time) \<Rightarrow> pipe_Config option \<Rightarrow> nat \<Rightarrow> bytes \<Rightarrow> tx_plane \<Rightarrow> tx_error option \<times> tx_plane" where
  "handleTx F clk pipe i obj s =
     (case admit_step F clk obj s of
        (Inl e, s) \<Rightarrow> (Some e, s)
      | (Inr (h, fresh), s) \<Rightarrow>
          if \<not> fresh then (None, s)
          else case pipe of
            None \<Rightarrow> (None, s)
          | Some c \<Rightarrow> (None, send_run i (builder_of_id c h) [\<lparr> raw = obj, jid = h \<rparr>] s))"

definition session_flush :: "pipe_Config \<Rightarrow> nat \<Rightarrow> tx_plane \<Rightarrow> tx_plane" where
  "session_flush c i s =
     (case Batch_Flush c (tp_rr s) (tp_runs s i) of
        (None, rr, js) \<Rightarrow> s
      | (Some (b, run), rr, js) \<Rightarrow> send_run i b run (s \<lparr> tp_rr := rr, tp_runs := (tp_runs s)(i := js) \<rparr>))"

definition session_handle :: "objfmt \<Rightarrow> (nat \<Rightarrow> time) \<Rightarrow> pipe_Config \<Rightarrow> nat \<Rightarrow> bytes \<Rightarrow> tx_plane \<Rightarrow> tx_error option \<times> tx_plane" where
  "session_handle F clk c i obj s =
     (case admit_step F clk obj s of
        (Inl e, s) \<Rightarrow> (Some e, s)
      | (Inr (h, fresh), s) \<Rightarrow>
          if \<not> fresh then (None, s)
          else case Batch_Add obj h (tp_runs s i) of (full, js) \<Rightarrow>
            let s = s \<lparr> tp_runs := (tp_runs s)(i := js) \<rparr>
            in if full then (None, session_flush c i s) else (None, s))"

text \<open>What the lane sees of a handler's error: a policy refusal or a fault.\<close>

definition tx_result :: "tx_error option \<Rightarrow> handled" where
  "tx_result e = (case e of None \<Rightarrow> HandledOk | Some (NotEF n) \<Rightarrow> HandledReject | Some NoTxID \<Rightarrow> HandledError)"

text \<open>The session of one connection; without a pipe it has no \<open>Flush\<close>.\<close>

definition txSession :: "objfmt \<Rightarrow> (nat \<Rightarrow> time) \<Rightarrow> pipe_Config option \<Rightarrow> nat \<Rightarrow>
    (bytes \<Rightarrow> tx_plane \<Rightarrow> handled \<times> tx_plane) \<times> (tx_plane \<Rightarrow> bool \<times> tx_plane) option" where
  "txSession F clk pipe i =
     (case pipe of
        None \<Rightarrow> (\<lambda>obj s. map_prod tx_result id (handleTx F clk None i obj s), None)
      | Some c \<Rightarrow> (\<lambda>obj s. map_prod tx_result id (session_handle F clk c i obj s), Some (\<lambda>s. (True, session_flush c i s))))"

section \<open>Interleaved connections\<close>

datatype tx_event = TxObj nat bytes | TxFlush nat

fun session_step :: "objfmt \<Rightarrow> (nat \<Rightarrow> time) \<Rightarrow> pipe_Config \<Rightarrow> tx_event \<Rightarrow> tx_plane \<Rightarrow> tx_plane" where
  "session_step F clk c (TxObj i obj) s = snd (session_handle F clk c i obj s)"
| "session_step F clk c (TxFlush i) s = session_flush c i s"

text \<open>The reference: every transaction is handed on by itself, as \<open>handleTx\<close> does.\<close>

fun single_step :: "objfmt \<Rightarrow> (nat \<Rightarrow> time) \<Rightarrow> pipe_Config \<Rightarrow> tx_event \<Rightarrow> tx_plane \<Rightarrow> tx_plane" where
  "single_step F clk c (TxObj i obj) s = snd (handleTx F clk (Some c) i obj s)"
| "single_step F clk c (TxFlush i) s = s"

text \<open>What connection \<open>i\<close> has sent, and everything it has taken on.\<close>

definition sent_by :: "nat \<Rightarrow> (nat \<times> int \<times> job list) list \<Rightarrow> job list" where
  "sent_by i ss = concat (map (\<lambda>(j, b, js). if j = i then js else []) ss)"

definition trace_of :: "nat \<Rightarrow> tx_plane \<Rightarrow> job list" where
  "trace_of i s = sent_by i (tp_sent s) @ tp_runs s i"

definition sent_jobs :: "tx_plane \<Rightarrow> job list" where
  "sent_jobs s = concat (map (\<lambda>(j, b, js). js) (tp_sent s))"

fun event_bytes :: "tx_event \<Rightarrow> nat" where
  "event_bytes (TxObj i obj) = length obj"
| "event_bytes (TxFlush i) = 0"

lemma sent_by_snoc [simp]: "sent_by i (ss @ [(j, b, js)]) = sent_by i ss @ (if j = i then js else [])"
  by (simp add: sent_by_def)

lemma sent_by_Nil [simp]: "sent_by i [] = []"
  by (simp add: sent_by_def)

lemma sent_by_Cons [simp]: "sent_by i ((j, b, js) # ss) = (if j = i then js else []) @ sent_by i ss"
  by (simp add: sent_by_def)

lemma session_flush_facts:
  "trace_of j (session_flush c i s) = trace_of j s"
  "tp_txs (session_flush c i s) = tp_txs s" "tp_reads (session_flush c i s) = tp_reads s"
  "tp_runs (session_flush c i s) = (tp_runs s)(i := [])"
  "tp_sent (session_flush c i s) = (if tp_runs s i = [] then tp_sent s
     else tp_sent s @ [(i, builder_of_rr c (tp_rr s + 1), tp_runs s i)])"
  by (auto simp: session_flush_def Batch_Flush_def send_run_def trace_of_def fun_eq_iff)

lemma admit_step_facts:
  "admit_step F clk obj s = (r, s') \<Longrightarrow>
     tp_runs s' = tp_runs s \<and> tp_sent s' = tp_sent s \<and> tp_rr s' = tp_rr s"
  by (auto simp: admit_step_def split: prod.splits sum.splits)

text \<open>One step of a session: what it takes on, with the cache as the reference leaves it.\<close>

lemma session_handle_trace:
  assumes "admit_step F clk obj s = (r, s1)"
  shows "trace_of j (snd (session_handle F clk c i obj s)) =
      trace_of j s @ (case r of Inr (h, True) \<Rightarrow> if j = i then [\<lparr> raw = obj, jid = h \<rparr>] else [] | _ \<Rightarrow> [])"
    and "tp_txs (snd (session_handle F clk c i obj s)) = tp_txs s1"
    and "tp_reads (snd (session_handle F clk c i obj s)) = tp_reads s1"
  using admit_step_facts [OF assms] assms
  by (auto simp: session_handle_def Batch_Add_def Let_def session_flush_facts trace_of_def
      split: sum.splits bool.splits)

lemma handleTx_trace:
  assumes "admit_step F clk obj s = (r, s1)"
  shows "trace_of j (snd (handleTx F clk (Some c) i obj s)) = sent_by j (tp_sent s) @
      (case r of Inr (h, True) \<Rightarrow> if j = i then [\<lparr> raw = obj, jid = h \<rparr>] else [] | _ \<Rightarrow> []) @ tp_runs s j"
    and "tp_txs (snd (handleTx F clk (Some c) i obj s)) = tp_txs s1"
    and "tp_reads (snd (handleTx F clk (Some c) i obj s)) = tp_reads s1"
    and "tp_runs (snd (handleTx F clk (Some c) i obj s)) = tp_runs s"
  using admit_step_facts [OF assms] assms
  by (auto simp: handleTx_def send_run_def trace_of_def split: sum.splits bool.splits)

section \<open>The session refines the handler\<close>

definition tx_sim :: "tx_plane \<Rightarrow> tx_plane \<Rightarrow> bool" where
  "tx_sim s r \<longleftrightarrow> tp_txs s = tp_txs r \<and> tp_reads s = tp_reads r \<and> tp_runs r = (\<lambda>i. []) \<and>
     (\<forall>i. trace_of i s = trace_of i r)"

definition runs_ok :: "tx_plane \<Rightarrow> bool" where
  "runs_ok s \<longleftrightarrow> (\<forall>i. length (tp_runs s i) < BatchCap) \<and>
     (\<forall>(i, b, js) \<in> set (tp_sent s). js \<noteq> [] \<and> length js \<le> BatchCap)"

lemma admit_step_cong:
  assumes "tp_txs s = tp_txs r" and "tp_reads s = tp_reads r"
  shows "fst (admit_step F clk obj s) = fst (admit_step F clk obj r) \<and>
    tp_txs (snd (admit_step F clk obj s)) = tp_txs (snd (admit_step F clk obj r)) \<and>
    tp_reads (snd (admit_step F clk obj s)) = tp_reads (snd (admit_step F clk obj r))"
  using assms by (auto simp: admit_step_def split: prod.splits sum.splits)

lemma tx_sim_step: "tx_sim s r \<Longrightarrow> tx_sim (session_step F clk c ev s) (single_step F clk c ev r)"
proof (cases ev)
  case (TxObj i obj)
  assume sim: "tx_sim s r"
  obtain x s1 where s1: "admit_step F clk obj s = (x, s1)" by fastforce
  obtain y r1 where r1: "admit_step F clk obj r = (y, r1)" by fastforce
  have "x = y" "tp_txs s1 = tp_txs r1" "tp_reads s1 = tp_reads r1"
    using admit_step_cong [of s r F clk obj] sim s1 r1 by (simp_all add: tx_sim_def)
  then show ?thesis
    using sim unfolding TxObj session_step.simps single_step.simps tx_sim_def
      session_handle_trace [OF s1] handleTx_trace [OF r1]
    by (auto simp: trace_of_def)
qed (simp add: tx_sim_def session_flush_facts)

lemma tx_sim_run: "tx_sim s r \<Longrightarrow> tx_sim (fold (session_step F clk c) evs s) (fold (single_step F clk c) evs r)"
  by (induction evs arbitrary: s r) (simp_all add: tx_sim_step)

lemma runs_ok_flush:
  "length (tp_runs s i) \<le> BatchCap \<Longrightarrow> \<forall>j. j \<noteq> i \<longrightarrow> length (tp_runs s j) < BatchCap \<Longrightarrow>
   \<forall>(i, b, js) \<in> set (tp_sent s). js \<noteq> [] \<and> length js \<le> BatchCap \<Longrightarrow> runs_ok (session_flush c i s)"
  by (auto simp: runs_ok_def session_flush_facts BatchCap_def)

lemma runs_ok_step: "runs_ok s \<Longrightarrow> runs_ok (session_step F clk c ev s)"
proof (cases ev)
  case (TxFlush i)
  assume "runs_ok s"
  then have "runs_ok (session_flush c i s)" by (intro runs_ok_flush) (simp_all add: runs_ok_def less_imp_le)
  then show ?thesis using TxFlush by simp
next
  case (TxObj i obj)
  assume ok: "runs_ok s"
  obtain x s1 where s1: "admit_step F clk obj s = (x, s1)" by fastforce
  have ok1: "runs_ok s1" using ok admit_step_facts [OF s1] by (simp add: runs_ok_def)
  show ?thesis
  proof (cases "\<exists>h. x = Inr (h, True)")
    case True
    then obtain h where x: "x = Inr (h, True)" by blast
    let ?s = "s1 \<lparr> tp_runs := (tp_runs s1)(i := tp_runs s1 i @ [\<lparr> raw = obj, jid = h \<rparr>]) \<rparr>"
    have len: "length (tp_runs s1 i) < BatchCap" using ok1 by (simp add: runs_ok_def)
    have "runs_ok (session_flush c i ?s)"
      using ok1 len by (intro runs_ok_flush) (simp_all add: runs_ok_def Suc_leI)
    moreover have "runs_ok ?s" if "Suc (length (tp_runs s1 i)) < BatchCap"
      using ok1 that by (simp add: runs_ok_def)
    ultimately show ?thesis using TxObj s1 x by (simp add: session_handle_def Batch_Add_def Let_def)
  next
    case False
    then show ?thesis using TxObj s1 ok1 by (auto simp: session_handle_def split: sum.splits)
  qed
qed

lemma runs_ok_run: "runs_ok s \<Longrightarrow> runs_ok (fold (session_step F clk c) evs s)"
  by (induction evs arbitrary: s) (simp_all add: runs_ok_step)

section \<open>At most one hand-off\<close>

definition once :: "time \<Rightarrow> int \<Rightarrow> duration \<Rightarrow> int \<Rightarrow> tx_plane \<Rightarrow> bool" where
  "once t0 mb ttl n s \<longleftrightarrow>
     (\<exists>g. tp_txs s = Some g \<and> gen_ok mb ttl (Some g) \<and>
        (\<forall>i. \<forall>k \<in> jid ` set (trace_of i s). gretained t0 k n (shardOf g k))) \<and>
     (\<forall>i. distinct (map jid (trace_of i s))) \<and>
     (\<forall>i j. i \<noteq> j \<longrightarrow> jid ` set (trace_of i s) \<inter> jid ` set (trace_of j s) = {})"

lemma Admit_retained:
  assumes "gen_ok mb ttl (Some g)" and "gretained t0 k n (shardOf g k)"
    and "t0 \<le> now" and "now < t0 + ttl div 2" and "n < mb" and "0 \<le> n"
  shows "\<not> fst (Admit now k b (Some g))"
proof -
  have ok: "gshard_ok mb ttl (shardOf g k)" using assms(1) by (simp add: gen_ok_def all_shards_shardOf)
  then have "gretained t0 k n (g_maybeRotate now (shardOf g k))"
    using assms by (simp add: gretained_rotate gshard_ok_def)
  then show ?thesis
    using gshard_ok_rotate [OF ok, of now] by (auto simp: Admit_def Let_def admit_shard_fresh_iff gshard_ok_def gretained_def)
qed

lemma Admit_fresh_retained:
  assumes "gen_ok mb ttl (Some g)" and "Admit now k b (Some g) = (True, Some g')"
  shows "gretained t0 k 0 (shardOf g' k)"
  using assms gen_ok_length [OF assms(1)] admit_shard_True_cur [of k b "g_maybeRotate now (shardOf g k)"]
  by (auto simp: Admit_def Let_def gretained_def)

lemma sent_by_subset: "set (sent_by i ss) \<subseteq> set (concat (map (\<lambda>(j, b, js). js) ss))"
  by (auto simp: sent_by_def split: if_splits)

lemma in_some_sent_by: "x \<in> set (concat (map (\<lambda>(j, b, js). js) ss)) \<Longrightarrow> \<exists>i. x \<in> set (sent_by i ss)"
  by (fastforce simp: sent_by_def)

lemma distinct_sent:
  "\<forall>i. distinct (map jid (sent_by i ss)) \<Longrightarrow>
   \<forall>i j. i \<noteq> j \<longrightarrow> jid ` set (sent_by i ss) \<inter> jid ` set (sent_by j ss) = {} \<Longrightarrow>
   distinct (map jid (concat (map (\<lambda>(j, b, js). js) ss)))"
proof (induction ss)
  case (Cons a ss)
  obtain i b js where a: "a = (i, b, js)" by (cases a)
  have d: "distinct (map jid js)" "jid ` set js \<inter> jid ` set (sent_by i ss) = {}"
    using Cons.prems(1) a by (auto dest!: spec [of _ i])
  have "jid ` set js \<inter> jid ` set (sent_by j ss) = {}" for j
  proof (cases "j = i")
    case False
    then show ?thesis using Cons.prems(2) [rule_format, of i j] a by (simp add: image_Un Int_Un_distrib2)
  qed (simp add: d(2))
  then have dis: "jid ` set js \<inter> jid ` set (concat (map (\<lambda>(j, b, js). js) ss)) = {}"
    using in_some_sent_by [of _ ss] by blast
  have "\<forall>i. distinct (map jid (sent_by i ss))"
    using Cons.prems(1) a by (metis distinct_append map_append sent_by_Cons)
  moreover have "jid ` set (sent_by m ss) \<inter> jid ` set (sent_by n ss) = {}" if "m \<noteq> n" for m n
    using Cons.prems(2) [rule_format, OF that] a by (auto simp: image_Un Int_Un_distrib Int_Un_distrib2 split: if_splits)
  ultimately have "distinct (map jid (concat (map (\<lambda>(j, b, js). js) ss)))" using Cons.IH by blast
  then show ?case using d(1) dis a by (simp add: image_Un)
qed simp

lemma once_step:
  assumes once: "once t0 mb ttl n s" and n: "0 \<le> n" "n < mb"
    and now: "t0 \<le> clk (tp_reads s)" "clk (tp_reads s) < t0 + ttl div 2"
  shows "once t0 mb ttl (n + int (event_bytes ev)) (session_step F clk c ev s)"
proof (cases ev)
  case (TxFlush i)
  then show ?thesis using once by (simp add: once_def session_flush_facts)
next
  case (TxObj i obj)
  obtain g where g: "tp_txs s = Some g" "gen_ok mb ttl (Some g)"
    and held: "\<forall>i. \<forall>k \<in> jid ` set (trace_of i s). gretained t0 k n (shardOf g k)"
    using once unfolding once_def by (elim exE conjE)
  have ret: "gretained t0 k n (shardOf g k)" if "k \<in> jid ` set (trace_of j s)" for j k
    using held that by blast
  obtain r s1 where s1: "admit_step F clk obj s = (r, s1)" by fastforce
  note facts = session_handle_trace [OF s1, where c = c and i = i]
  show ?thesis
  proof (cases r)
    case (Inl e)
    then have "tp_txs s1 = Some g" using s1 g(1) by (auto simp: admit_step_def admitTx_def split: if_splits option.splits prod.splits)
    then show ?thesis
      using once g ret Inl facts TxObj gretained_mono [of t0 _ n _ "n + int (length obj)"]
      by (auto simp: once_def)
  next
    case (Inr p)
    obtain h fresh where p: "p = (h, fresh)" by fastforce
    obtain g' where g': "Admit (clk (tp_reads s)) h obj (Some g) = (fresh, Some g')" "tp_txs s1 = Some g'"
      using s1 Inr p g(1) by (auto simp: admit_step_def admitTx_def Admit_def Let_def split: if_splits option.splits)
    have ok': "gen_ok mb ttl (Some g')" using gen_ok_Admit [OF g(2), of "clk (tp_reads s)" h obj] g'(1) by simp
    have ret': "gretained t0 k (n + int (length obj)) (shardOf g' k)" if "k \<in> jid ` set (trace_of j s)" for j k
      using gretained_Admit [OF g(2) ret [OF that] now n(2,1), of h obj] g'(1) by simp
    show ?thesis
    proof (cases fresh)
      case False
      then show ?thesis using once ok' ret' g' facts TxObj Inr p by (auto simp: once_def)
    next
      case True
      have new: "h \<notin> jid ` set (trace_of j s)" for j
        using Admit_retained [OF g(2) ret now n(2,1)] g'(1) True by (metis fst_conv)
      have "gretained t0 h (n + int (length obj)) (shardOf g' h)"
        using Admit_fresh_retained [OF g(2)] g'(1) True n gretained_mono [of t0 h 0] by auto
      moreover have K: "jid ` set (trace_of j (session_step F clk c ev s)) = jid ` set (trace_of j s) \<union> (if j = i then {h} else {})" for j
        using facts(1) [of j] TxObj Inr p True by simp
      moreover have "jid ` set (trace_of a (session_step F clk c ev s)) \<inter> jid ` set (trace_of b (session_step F clk c ev s)) = {}"
        if "a \<noteq> b" for a b
      proof -
        have "jid ` set (trace_of a s) \<inter> jid ` set (trace_of b s) = {}" using once that by (simp add: once_def)
        then show ?thesis unfolding K using new [of a] new [of b] that by (cases "a = i"; cases "b = i") simp_all
      qed
      moreover have "distinct (map jid (trace_of j (session_step F clk c ev s)))" for j
        using once new [of j] facts(1) [of j] TxObj Inr p True by (cases "j = i") (simp_all add: once_def)
      moreover have "tp_txs (session_step F clk c ev s) = Some g'" using facts(2) g'(2) TxObj by simp
      ultimately show ?thesis using ok' ret' TxObj unfolding once_def by (simp split: if_splits)
    qed
  qed
qed

lemma session_step_reads: "tp_reads (session_step F clk c ev s) \<le> tp_reads s + 1 \<and> tp_reads s \<le> tp_reads (session_step F clk c ev s)"
proof (cases ev)
  case (TxObj i obj)
  obtain r s1 where s1: "admit_step F clk obj s = (r, s1)" by fastforce
  have "tp_reads s1 \<le> tp_reads s + 1" "tp_reads s \<le> tp_reads s1"
    using s1 by (auto simp: admit_step_def split: prod.splits sum.splits)
  then show ?thesis using TxObj session_handle_trace(3) [OF s1, of c i] by simp
qed (simp add: session_flush_facts)

lemma once_run:
  "once t0 mb ttl n s \<Longrightarrow> 0 \<le> n \<Longrightarrow> n + int (sum_list (map event_bytes evs)) < mb \<Longrightarrow>
   \<forall>k. tp_reads s \<le> k \<and> k < tp_reads s + length evs \<longrightarrow> t0 \<le> clk k \<and> clk k < t0 + ttl div 2 \<Longrightarrow>
   once t0 mb ttl (n + int (sum_list (map event_bytes evs))) (fold (session_step F clk c) evs s)"
proof (induction evs arbitrary: s n)
  case (Cons ev evs)
  let ?s = "session_step F clk c ev s"
  have r: "tp_reads ?s \<le> tp_reads s + 1" "tp_reads s \<le> tp_reads ?s" using session_step_reads by blast+
  have o: "once t0 mb ttl (n + int (event_bytes ev)) ?s"
    using Cons.prems by (intro once_step) auto
  have "\<forall>k. tp_reads ?s \<le> k \<and> k < tp_reads ?s + length evs \<longrightarrow> t0 \<le> clk k \<and> clk k < t0 + ttl div 2"
    using Cons.prems(4) r by auto
  then show ?case using Cons.IH [OF o] Cons.prems(2,3) by (simp add: algebra_simps)
qed simp

lemma once_distinct: "once t0 mb ttl n s \<Longrightarrow> distinct (map jid (sent_jobs s))"
  unfolding sent_jobs_def
proof (rule distinct_sent)
  assume o: "once t0 mb ttl n s"
  show "\<forall>i. distinct (map jid (sent_by i (tp_sent s)))" using o by (simp add: once_def trace_of_def)
  show "\<forall>i j. i \<noteq> j \<longrightarrow> jid ` set (sent_by i (tp_sent s)) \<inter> jid ` set (sent_by j (tp_sent s)) = {}"
    using o by (simp add: once_def trace_of_def image_Un) blast
qed

section \<open>The session keeps the lane's contract\<close>

interpretation tx_lane: batching_session
  "fst (txSession F clk (Some c) i)" "the (snd (txSession F clk (Some c) i))"
  "\<lambda>s. sent_by i (tp_sent s)" "\<lambda>s. tp_runs s i" "\<lambda>s. True"
proof unfold_locales
  fix b s
  obtain r s1 where "admit_step F clk b s = (r, s1)" by fastforce
  from session_handle_trace(1) [OF this, of i c i]
  show "\<exists>js. sent_by i (tp_sent (snd (fst (txSession F clk (Some c) i) b s))) @ tp_runs (snd (fst (txSession F clk (Some c) i) b s)) i =
      sent_by i (tp_sent s) @ tp_runs s i @ js"
    by (intro exI) (simp add: txSession_def trace_of_def)
qed (simp_all add: txSession_def session_flush_facts)

text \<open>The transactions a connection by itself admits as new, in order.\<close>

fun admitted :: "objfmt \<Rightarrow> (nat \<Rightarrow> time) \<Rightarrow> bytes list \<Rightarrow> tx_plane \<Rightarrow> job list" where
  "admitted F clk [] s = []"
| "admitted F clk (obj # objs) s =
     (case admit_step F clk obj s of
        (Inr (h, True), s) \<Rightarrow> \<lparr> raw = obj, jid = h \<rparr> # admitted F clk objs s
      | (_, s) \<Rightarrow> admitted F clk objs s)"

lemma admitted_cong:
  "tp_txs s = tp_txs r \<Longrightarrow> tp_reads s = tp_reads r \<Longrightarrow> admitted F clk objs s = admitted F clk objs r"
proof (induction objs arbitrary: s r)
  case (Cons obj objs)
  obtain x s1 y r1 where s1: "admit_step F clk obj s = (x, s1)" and r1: "admit_step F clk obj r = (y, r1)" by fastforce
  have "x = y" "tp_txs s1 = tp_txs r1" "tp_reads s1 = tp_reads r1"
    using admit_step_cong [OF Cons.prems, of F clk obj] s1 r1 by simp_all
  then show ?case using Cons.IH [of s1 r1] s1 r1 by (simp split: sum.splits bool.splits)
qed simp

lemma calls_trace:
  "trace_of i (fold (apply_call (fst (txSession F clk (Some c) i)) (the (snd (txSession F clk (Some c) i)))) cs s) =
     trace_of i s @ admitted F clk (handled_objs cs) s"
proof (induction cs arbitrary: s)
  case Nil
  then show ?case by (simp add: handled_objs_def)
next
  case (Cons x cs)
  show ?case
  proof (cases x)
    case (CHandle obj)
    obtain r s1 where s1: "admit_step F clk obj s = (r, s1)" by fastforce
    note f = session_handle_trace [OF s1, where c = c and i = i]
    have "admitted F clk objs (snd (session_handle F clk c i obj s)) = admitted F clk objs s1" for objs
      using f(2,3) by (intro admitted_cong) simp_all
    then show ?thesis
      using Cons.IH s1 f(1) [of i] CHandle
      by (auto simp: handled_objs_def txSession_def split: sum.splits bool.splits)
  next
    case CFlush
    have "admitted F clk objs (session_flush c i s) = admitted F clk objs s" for objs
      by (rule admitted_cong) (simp_all add: session_flush_facts)
    then show ?thesis using Cons.IH CFlush by (simp add: handled_objs_def txSession_def session_flush_facts)
  qed (simp add: Cons.IH handled_objs_def)
qed

section \<open>Properties\<close>

text \<open>
  C8: The batched hand-off does what the plain one does.  Over any interleaving of
  connections, with objects refused, duplicated or fresh and flushes wherever
  they fall, the sessions leave the transaction cache as \<open>handleTx\<close> on each
  object would, and every connection has taken on the same transactions in the
  same order, sent or still in its run; every run sent holds between 1 and 64 of
  them, and a flush leaves its connection nothing unsent.
\<close>

theorem session_refines_handleTx:
  "let s = fold (session_step F clk c) evs (plane_init txs); r = fold (single_step F clk c) evs (plane_init txs) in
     tp_txs s = tp_txs r \<and>
     (\<forall>i. sent_by i (tp_sent s) @ tp_runs s i = sent_by i (tp_sent r) \<and> length (tp_runs s i) < BatchCap \<and>
          sent_by i (tp_sent (session_flush c i s)) = sent_by i (tp_sent r)) \<and>
     {length js | i b js. (i, b, js) \<in> set (tp_sent s)} \<subseteq> {1..BatchCap}"
proof -
  let ?s = "fold (session_step F clk c) evs (plane_init txs)"
  let ?r = "fold (single_step F clk c) evs (plane_init txs)"
  have sim: "tx_sim ?s ?r" by (rule tx_sim_run) (simp add: tx_sim_def plane_init_def)
  have ok: "runs_ok ?s" by (rule runs_ok_run) (simp add: runs_ok_def plane_init_def BatchCap_def)
  have tr: "sent_by i (tp_sent ?s) @ tp_runs ?s i = sent_by i (tp_sent ?r)" for i
    using sim by (simp add: tx_sim_def trace_of_def)
  have "sent_by i (tp_sent (session_flush c i ?s)) = sent_by i (tp_sent ?r)" for i
    using tr [of i] by (auto simp: session_flush_facts)
  moreover have "{length js | i b js. (i, b, js) \<in> set (tp_sent ?s)} \<subseteq> {1..BatchCap}"
    using ok by (fastforce simp: runs_ok_def Suc_le_eq)
  ultimately show ?thesis using sim ok tr by (simp add: Let_def tx_sim_def runs_ok_def)
qed

text \<open>
  C7: A transaction is handed to the pipe once.  In any interleaving of connections
  (an edge's failover and its resend included) that stays within half the cache's
  time-to-live and under one generation's byte budget, no two transactions sent
  to the builders have the same identifier.
\<close>

theorem tx_handed_once:
  assumes "gen_ok mb ttl (Some g)" and "int (sum_list (map event_bytes evs)) < mb"
    and "\<forall>k < length evs. t0 \<le> clk k \<and> clk k < t0 + ttl div 2"
  shows "distinct (map jid (sent_jobs (fold (session_step F clk c) evs (plane_init (Some g)))))"
proof (rule once_distinct)
  have "once t0 mb ttl 0 (plane_init (Some g))" using assms(1) by (simp add: once_def plane_init_def trace_of_def)
  from once_run [OF this, of evs clk F c] assms(2,3)
  show "once t0 mb ttl (0 + int (sum_list (map event_bytes evs))) (fold (session_step F clk c) evs (plane_init (Some g)))"
    by (simp add: plane_init_def)
qed

definition tiny_objfmt :: objfmt where
  "tiny_objfmt = sample_objfmt \<lparr> IsEF := (\<lambda>b. b \<noteq> []), TxID := (\<lambda>b. Some (replicate 32 (hd b))) \<rparr>"

definition failover_events :: "tx_event list" where
  "failover_events = [TxObj 0 [5], TxFlush 0, TxObj 1 [5], TxObj 1 [6], TxFlush 1]"

theorem tx_handed_once_witness:
  "distinct (map jid (sent_jobs (fold (session_step tiny_objfmt int sample_config) failover_events
     (plane_init (Some (NewGenerational \<lparr> MaxBytes = 1280, TTL = 20 \<rparr> 0))))))"
proof -
  have "gen_ok 10 20 (Some (NewGenerational \<lparr> MaxBytes = 1280, TTL = 20 \<rparr> 0))"
    using gen_ok_New [of "\<lparr> MaxBytes = 1280, TTL = 20 \<rparr>" 0] by simp
  from tx_handed_once [OF this, of failover_events 0 int tiny_objfmt sample_config]
  show ?thesis by (simp add: failover_events_def)
qed

text \<open>
  C22: No transaction waits for the next one to arrive.  On a lane running the
  transaction session, at every read of the network and when a connection has
  ended, the connection's run is empty, and what the connection has sent to the
  builders since it opened is what its run held then and, in order, every
  transaction it has admitted as new among the objects handled so far.
\<close>

theorem tx_lane_holds_nothing:
  assumes "ln_hasFlush L"
    and "serveConn L (fst (txSession F clk (Some c) i)) (the (snd (txSession F clk (Some c) i))) True evs (conn_open s) = (ended, cn)"
    and "ended \<or> (cn_calls cn \<noteq> [] \<and> last (cn_calls cn) = CRead)"
  shows "tp_runs (cn_session cn) i = [] \<and>
    sent_by i (tp_sent (cn_session cn)) =
      sent_by i (tp_sent s) @ tp_runs s i @ admitted F clk (handled_objs (cn_calls cn)) s"
proof -
  have empty: "tp_runs (cn_session cn) i = []" using tx_lane.connection_flushes [OF _ assms(1,2)] assms(3) by simp
  have "cn_session cn = fold (apply_call (fst (txSession F clk (Some c) i)) (the (snd (txSession F clk (Some c) i)))) (cn_calls cn) s"
    using serveConn_traced [OF conn_open_ok assms(2)] by (auto simp: traced_def conn_open_def)
  then have "trace_of i (cn_session cn) = trace_of i s @ admitted F clk (handled_objs (cn_calls cn)) s" by (simp add: calls_trace)
  then show ?thesis using empty by (simp add: trace_of_def)
qed

definition tiny_lane :: Lane where
  "tiny_lane = \<lparr> ln_Owned = False, ln_MaxObject = 0, ln_DrainTimeout = 1, ln_hasFlush = True \<rparr>"

lemma tiny_lane_ends:
  "serveConn tiny_lane h fl True [(RObj [5], False), (RObj [6], False), (REnd ReadEOF, False)] c =
     (True, snd (serveConn tiny_lane h fl True [(RObj [5], False), (RObj [6], False), (REnd ReadEOF, False)] c))"
  by (simp add: tiny_lane_def)

theorem tx_lane_holds_nothing_witness:
  "let cn = snd (serveConn tiny_lane (fst (txSession tiny_objfmt int (Some sample_config) 3))
       (the (snd (txSession tiny_objfmt int (Some sample_config) 3))) True
       [(RObj [5], False), (RObj [6], False), (REnd ReadEOF, False)] (conn_open (plane_init None))) in
   tp_runs (cn_session cn) 3 = [] \<and>
   sent_by 3 (tp_sent (cn_session cn)) = [\<lparr> raw = [5], jid = replicate 32 5 \<rparr>, \<lparr> raw = [6], jid = replicate 32 6 \<rparr>]"
proof -
  let ?h = "fst (txSession tiny_objfmt int (Some sample_config) 3)" and ?fl = "the (snd (txSession tiny_objfmt int (Some sample_config) 3))"
  define cn where "cn = snd (serveConn tiny_lane ?h ?fl True [(RObj [5], False), (RObj [6], False), (REnd ReadEOF, False)] (conn_open (plane_init None)))"
  have run: "serveConn tiny_lane ?h ?fl True [(RObj [5], False), (RObj [6], False), (REnd ReadEOF, False)] (conn_open (plane_init None)) = (True, cn)"
    unfolding cn_def by (rule tiny_lane_ends)
  have fl: "fst (?fl s)" for s by (simp add: txSession_def)
  have "\<exists>c'. serveConn tiny_lane ?h ?fl True ([(RObj [5], False), (RObj [6], False)] @ [(REnd ReadEOF, False)]) (conn_open (plane_init None)) = (True, c') \<and>
      handled_objs (cn_calls c') = handled_objs (cn_calls (conn_open (plane_init None))) @ event_objs [(RObj [5], False), (RObj [6], False)]"
    by (rule serveConn_hands_on_all [OF fl]) (simp_all add: tiny_lane_def within_ceiling_def is_end_def conn_open_ok)
  then have "handled_objs (cn_calls cn) = [[5], [6]]"
    using run by (simp add: conn_open_def handled_objs_def del: serveConn.simps)
  then have "tp_runs (cn_session cn) 3 = [] \<and> sent_by 3 (tp_sent (cn_session cn)) =
      sent_by 3 (tp_sent (plane_init None)) @ tp_runs (plane_init None) 3 @ admitted tiny_objfmt int [[5], [6]] (plane_init None)"
    using tx_lane_holds_nothing [OF _ run] by (simp add: tiny_lane_def)
  then show ?thesis
    unfolding Let_def cn_def [symmetric] by (simp add: plane_init_def admit_step_def admitTx_def tiny_objfmt_def Admit_def)
qed

end
