(* ===== verification/Health.thy ===== *)
theory Health
  imports Prelude
begin

text \<open>
  \<open>internal/health\<close>: the dependency-aggregating health surface.  A check is a
  function of the liveness flag giving a status, a message and an error; what
  it probes is in the closure, so a probe's answer is an argument of the
  constructor that wraps it.  The response body is the \<open>Report\<close> itself: its
  JSON text is the encoder's.
\<close>

section \<open>Decimal text\<close>

fun digits :: "nat \<Rightarrow> string" where
  "digits n = (if n < 10 then [char_of (48 + n)] else digits (n div 10) @ [char_of (48 + n mod 10)])"

declare digits.simps [simp del]

definition Itoa :: "int \<Rightarrow> string" where
  "Itoa i = (if i < 0 then ''-'' @ digits (nat (- i)) else digits (nat i))"

section \<open>Checks and their aggregate\<close>

type_synonym check_result = "int \<times> string \<times> string option"

type_synonym CheckFunc = "bool \<Rightarrow> check_result"

record Check =
  ck_Name :: string
  ck_Check :: CheckFunc
  ck_Gating :: bool

record Result =
  r_Resource :: string
  r_Status :: string
  r_Message :: string
  r_Error :: string
  r_Gating :: bool

record Report =
  rep_Status :: string
  rep_Dependencies :: "Result list"

definition check_failed :: "check_result \<Rightarrow> bool" where
  "check_failed r = (case r of (status, message, err) \<Rightarrow> err \<noteq> None \<or> status \<noteq> 200)"

definition check_entry :: "Check \<Rightarrow> check_result \<Rightarrow> Result" where
  "check_entry c r =
     (case r of (status, message, err) \<Rightarrow>
        \<lparr> r_Resource = ck_Name c, r_Status = Itoa status, r_Message = message,
          r_Error = (case err of None \<Rightarrow> [] | Some e \<Rightarrow> e), r_Gating = ck_Gating c \<rparr>)"

fun check_loop :: "bool \<Rightarrow> bool \<Rightarrow> int \<Rightarrow> Result list \<Rightarrow> Check list \<Rightarrow> int \<times> Result list" where
  "check_loop liveness strict overall results [] = (overall, results)"
| "check_loop liveness strict overall results (c # cs) =
     (let r = ck_Check c liveness;
          overall = (if check_failed r \<and> (strict \<or> ck_Gating c) then 503 else overall)
      in check_loop liveness strict overall (results @ [check_entry c r]) cs)"

definition CheckAll :: "bool \<Rightarrow> bool \<Rightarrow> Check list \<Rightarrow> int \<times> Report" where
  "CheckAll liveness strict checks =
     (case check_loop liveness strict 200 [] checks of
        (overall, results) \<Rightarrow> (overall, \<lparr> rep_Status = Itoa overall, rep_Dependencies = results \<rparr>))"

definition DefaultTimeout :: duration where
  "DefaultTimeout = 5 * second"

text \<open>
  \<open>Handler\<close>: the deadline and the answer.  \<open>parse\<close> stands for
  \<open>time.ParseDuration\<close> on the query's \<open>timeout\<close>, empty when absent.
\<close>

definition Handler :: "(string \<Rightarrow> duration option) \<Rightarrow> bool \<Rightarrow> bool \<Rightarrow> Check list \<Rightarrow> string \<Rightarrow> duration \<times> int \<times> Report" where
  "Handler parse liveness strict checks query =
     (let timeout =
        (if query = [] then DefaultTimeout
         else case parse query of
           Some d \<Rightarrow> if d > 0 then d else DefaultTimeout
         | None \<Rightarrow> DefaultTimeout)
      in (timeout, CheckAll liveness strict checks))"

section \<open>Building checks\<close>

definition Alive :: CheckFunc where
  "Alive = (\<lambda>liveness. (200, ''process is running'', None))"

definition Skip :: "CheckFunc \<Rightarrow> CheckFunc" where
  "Skip f = (\<lambda>liveness. if liveness then (200, ''liveness (dependency probe skipped)'', None) else f liveness)"

definition Bool :: "bool \<Rightarrow> string \<Rightarrow> string \<Rightarrow> CheckFunc" where
  "Bool ok whenOK whenNot = (\<lambda>liveness. if ok then (200, whenOK, None) else (503, whenNot, None))"

definition Ping :: "string \<Rightarrow> string option \<Rightarrow> CheckFunc" where
  "Ping name ping = Skip (\<lambda>liveness.
     case ping of
       Some e \<Rightarrow> (503, name @ '' unreachable'', Some e)
     | None \<Rightarrow> (200, name @ '' reachable'', None))"

function trimRight :: "string \<Rightarrow> string" where
  "trimRight s = (if s \<noteq> [] \<and> last s = CHR ''/'' then trimRight (butlast s) else s)"
  by auto
termination
  by (relation "measure length") auto

declare trimRight.simps [simp del]

text \<open>What a \<open>GET\<close> of a URL gives: an error, before or during the exchange, or a status.\<close>

datatype probe = ProbeError string | ProbeStatus int

fun probe_loop :: "(string \<Rightarrow> probe) \<Rightarrow> string \<Rightarrow> nat \<Rightarrow> string option \<Rightarrow> string list \<Rightarrow> nat \<times> string option" where
  "probe_loop get path reached lastErr [] = (reached, lastErr)"
| "probe_loop get path reached lastErr (base # bases) =
     (let url = trimRight base @ path in
      case get url of
        ProbeError e \<Rightarrow> probe_loop get path reached (Some e) bases
      | ProbeStatus s \<Rightarrow>
          if 200 \<le> s \<and> s < 300 then probe_loop get path (reached + 1) lastErr bases
          else probe_loop get path reached (Some (url @ '': http '' @ Itoa s)) bases)"

definition HTTPGet :: "(string \<Rightarrow> probe) \<Rightarrow> string list \<Rightarrow> string \<Rightarrow> CheckFunc" where
  "HTTPGet get bases path = Skip (\<lambda>liveness.
     if bases = [] then (200, ''not configured - skipping'', None)
     else case probe_loop get path 0 None bases of
       (reached, lastErr) \<Rightarrow>
         if reached = length bases then (200, ''all '' @ digits reached @ '' endpoints answering'', None)
         else if reached > 0 then
           (200, digits reached @ '' of '' @ digits (length bases) @ '' endpoints answering ('' @
              (case lastErr of None \<Rightarrow> ''<nil>'' | Some e \<Rightarrow> e) @ '')'', None)
         else (503, ''no endpoint answering'', lastErr))"

section \<open>Lemmas\<close>

lemma check_loop_eq:
  "check_loop l strict overall results cs =
     (if list_ex (\<lambda>c. check_failed (ck_Check c l) \<and> (strict \<or> ck_Gating c)) cs then 503 else overall,
      results @ map (\<lambda>c. check_entry c (ck_Check c l)) cs)"
  by (induction l strict overall results cs rule: check_loop.induct) (auto simp: Let_def)

lemma trimRight_eq: "trimRight s = trim_right (CHR ''/'') s"
proof (induction s rule: trimRight.induct)
  case (1 s)
  show ?case
  proof (cases "s \<noteq> [] \<and> last s = CHR ''/''")
    case True
    then have "trim_right (CHR ''/'') s = trim_right (CHR ''/'') (butlast s)"
      by (cases s rule: rev_cases) (auto simp: trim_right_def)
    then show ?thesis using True 1 by (simp add: trimRight.simps [of s])
  next
    case False
    then have "trim_right (CHR ''/'') s = s"
      by (cases s rule: rev_cases) (auto simp: trim_right_def)
    then show ?thesis using False by (auto simp: trimRight.simps [of s])
  qed
qed

definition answers :: "(string \<Rightarrow> probe) \<Rightarrow> string \<Rightarrow> string \<Rightarrow> bool" where
  "answers get path base \<longleftrightarrow>
     (\<exists>s. get (trim_right (CHR ''/'') base @ path) = ProbeStatus s \<and> 200 \<le> s \<and> s < 300)"

lemma probe_loop_reached:
  "fst (probe_loop get path reached lastErr bases) = reached + length (filter (answers get path) bases)"
  by (induction get path reached lastErr bases rule: probe_loop.induct)
     (auto simp: Let_def answers_def trimRight_eq split: probe.splits)

lemma probe_loop_err:
  "lastErr \<noteq> None \<or> list_ex (\<lambda>b. \<not> answers get path b) bases \<longleftrightarrow> snd (probe_loop get path reached lastErr bases) \<noteq> None"
  by (induction get path reached lastErr bases rule: probe_loop.induct)
     (auto simp: Let_def answers_def trimRight_eq split: probe.splits)

lemma length_filter_pos: "0 < length (filter P xs) \<longleftrightarrow> (\<exists>x \<in> set xs. P x)"
  by (simp add: filter_empty_conv)

section \<open>Properties\<close>

text \<open>
  The aggregate is driven by the checks that count and hides none.  The
  status is 503 exactly when some check failed that gates, or any failed under
  the strict setting, and 200 otherwise; the body lists every check once, in
  order, each with its own status.
\<close>

theorem health_aggregate:
  "CheckAll l strict checks =
     (if \<exists>c \<in> set checks. check_failed (ck_Check c l) \<and> (strict \<or> ck_Gating c) then 503 else 200,
      \<lparr> rep_Status = (if \<exists>c \<in> set checks. check_failed (ck_Check c l) \<and> (strict \<or> ck_Gating c) then ''503'' else ''200''),
        rep_Dependencies = map (\<lambda>c. check_entry c (ck_Check c l)) checks \<rparr>)"
proof -
  have "Itoa 503 = ''503''" "Itoa 200 = ''200''" by code_simp+
  then show ?thesis by (simp add: CheckAll_def check_loop_eq list_ex_iff)
qed

text \<open>
  An endpoint group is up while one endpoint is.  The probe of a non-empty
  list reports 200 with no error exactly when some base URL, its trailing
  slashes dropped, answers 2xx at the path; otherwise it reports 503 with the
  last error.  Under liveness nothing is probed.
\<close>

theorem http_group_up:
  assumes "bases \<noteq> []"
  shows "check_failed (HTTPGet get bases path False) \<longleftrightarrow> \<not> (\<exists>b \<in> set bases. answers get path b)"
    and "\<not> (\<exists>b \<in> set bases. answers get path b) \<Longrightarrow>
      \<exists>e. HTTPGet get bases path False = (503, ''no endpoint answering'', Some e)"
    and "\<not> check_failed (HTTPGet get bases path True)"
proof -
  obtain n e where p: "probe_loop get path 0 None bases = (n, e)" by fastforce
  have n: "n = length (filter (answers get path) bases)"
    using probe_loop_reached [of get path 0 None bases] by (simp add: p)
  have e: "list_ex (\<lambda>b. \<not> answers get path b) bases \<longleftrightarrow> e \<noteq> None"
    using probe_loop_err [of None get path bases 0] by (simp add: p)
  have up: "0 < n \<longleftrightarrow> (\<exists>b \<in> set bases. answers get path b)" by (simp only: n length_filter_pos)
  have none: "HTTPGet get bases path False = (503, ''no endpoint answering'', e)" if "n = 0"
    using assms that by (simp add: HTTPGet_def Skip_def p)
  show "check_failed (HTTPGet get bases path False) \<longleftrightarrow> \<not> (\<exists>b \<in> set bases. answers get path b)"
  proof (cases "n = 0")
    case True
    then show ?thesis using none up by (simp add: check_failed_def)
  next
    case False
    then show ?thesis using assms up by (simp add: HTTPGet_def Skip_def p check_failed_def)
  qed
  show "\<exists>e. HTTPGet get bases path False = (503, ''no endpoint answering'', Some e)"
    if "\<not> (\<exists>b \<in> set bases. answers get path b)"
  proof -
    have "n = 0" using that up by simp
    moreover have "e \<noteq> None" using that assms e by (cases bases) (auto simp: list_ex_iff)
    ultimately show ?thesis using none by auto
  qed
  show "\<not> check_failed (HTTPGet get bases path True)" by (simp add: HTTPGet_def Skip_def check_failed_def)
qed

definition sample_get :: "string \<Rightarrow> probe" where
  "sample_get url = (if url = ''b/health'' then ProbeStatus 204 else ProbeError ''refused'')"

theorem http_group_up_witness:
  "\<not> check_failed (HTTPGet sample_get [''a'', ''b//''] ''/health'' False)"
proof -
  have "answers sample_get ''/health'' ''b//''" by (simp add: answers_def sample_get_def trim_right_def)
  then show ?thesis using http_group_up(1) [of "[''a'', ''b//'']" sample_get "''/health''"] by auto
qed

end
