(* ===== verification/Activation.thy ===== *)
theory Activation
  imports Health
begin

text \<open>
  \<open>internal/activation\<close>: adopting the listening sockets systemd passes.  The
  environment is a function from names to values, empty when unset; what a
  descriptor turns into is an argument, \<open>None\<close> when \<open>net.FileListener\<close> refuses it.
\<close>

section \<open>Decimal input\<close>

definition is_digit :: "char \<Rightarrow> bool" where
  "is_digit ch \<longleftrightarrow> 48 \<le> (of_char ch :: nat) \<and> (of_char ch :: nat) \<le> 57"

definition digits_val :: "string \<Rightarrow> nat" where
  "digits_val s = fold (\<lambda>ch n. 10 * n + (of_char ch - 48)) s 0"

text \<open>\<open>strconv.Atoi\<close>: an optional sign, then one or more digits, within \<open>int\<close>.\<close>

definition Atoi :: "string \<Rightarrow> int option" where
  "Atoi s =
     (let neg = (s \<noteq> [] \<and> hd s = CHR ''-'');
          ds = (if s \<noteq> [] \<and> (hd s = CHR ''-'' \<or> hd s = CHR ''+'') then tl s else s);
          v = (if neg then - int (digits_val ds) else int (digits_val ds))
      in if ds = [] \<or> \<not> list_all is_digit ds then None
         else if v < - (2 ^ 63) \<or> v \<ge> 2 ^ 63 then None
         else Some v)"

section \<open>The sockets\<close>

definition listenFdsStart :: int where
  "listenFdsStart = 3"

datatype activation_error = BadListenFds string | BadSocket string int

definition socket_name :: "string list \<Rightarrow> int \<Rightarrow> nat \<Rightarrow> string" where
  "socket_name names start i =
     (if i < length names \<and> names ! i \<noteq> [] then names ! i else ''fd'' @ Itoa (start + int i))"

text \<open>\<open>LISTEN_FDNAMES\<close>, split at its colons.\<close>

definition passed_names :: "string \<Rightarrow> string list" where
  "passed_names v = (if v = [] then [] else split_on (CHR '':'') v)"

text \<open>The loop over the passed descriptors, from index \<open>i\<close> with \<open>k\<close> left.\<close>

fun adopt :: "(int \<Rightarrow> 'l option) \<Rightarrow> string list \<Rightarrow> int \<Rightarrow> nat \<Rightarrow> nat \<Rightarrow> (string, 'l) gomap \<Rightarrow>
    activation_error option \<times> (string, 'l) gomap" where
  "adopt sock names start i 0 out = (None, out)"
| "adopt sock names start i (Suc k) out =
     (let fd = start + int i; name = socket_name names start i in
      case sock fd of
        None \<Rightarrow> (Some (BadSocket name fd), out)
      | Some l \<Rightarrow> adopt sock names start (i + 1) k (AList.update name l out))"

definition fromEnv :: "(int \<Rightarrow> 'l option) \<Rightarrow> (string \<Rightarrow> string) \<Rightarrow> int \<Rightarrow> int \<Rightarrow>
    activation_error option \<times> (string, 'l) gomap" where
  "fromEnv sock getenv pid start =
     (if getenv ''LISTEN_PID'' = [] then (None, [])
      else if Atoi (getenv ''LISTEN_PID'') \<noteq> Some pid then (None, [])
      else case Atoi (getenv ''LISTEN_FDS'') of
        None \<Rightarrow> (Some (BadListenFds (getenv ''LISTEN_FDS'')), [])
      | Some n \<Rightarrow>
          if n < 0 then (Some (BadListenFds (getenv ''LISTEN_FDS'')), [])
          else adopt sock (passed_names (getenv ''LISTEN_FDNAMES'')) start 0 (nat n) [])"

text \<open>\<open>Listeners\<close>: the result, and the environment a child process would see.\<close>

definition Listeners :: "(int \<Rightarrow> 'l option) \<Rightarrow> int \<Rightarrow> (string \<Rightarrow> string) \<Rightarrow>
    (activation_error option \<times> (string, 'l) gomap) \<times> (string \<Rightarrow> string)" where
  "Listeners sock pid env =
     (fromEnv sock env pid listenFdsStart,
      env(''LISTEN_PID'' := [], ''LISTEN_FDS'' := [], ''LISTEN_FDNAMES'' := []))"

section \<open>What is adopted\<close>

lemma adopt_ok:
  assumes "\<And>j. j < k \<Longrightarrow> sock (start + int (i + j)) \<noteq> None"
  shows "\<exists>out'. adopt sock names start i k out = (None, out') \<and>
    (\<forall>nm. map_of out' nm =
       (case filter (\<lambda>j. socket_name names start j = nm) [i..<i + k] of
          [] \<Rightarrow> map_of out nm
        | js \<Rightarrow> sock (start + int (last js))))"
  using assms
proof (induction k arbitrary: i out)
  case (Suc k)
  obtain l where l: "sock (start + int i) = Some l" using Suc.prems [of 0] by auto
  define out1 where "out1 = AList.update (socket_name names start i) l out"
  have "\<And>j. j < k \<Longrightarrow> sock (start + int (i + 1 + j)) \<noteq> None" using Suc.prems [of "Suc _"] by simp
  then obtain out' where out': "adopt sock names start (i + 1) k out1 = (None, out')"
      "\<And>nm. map_of out' nm = (case filter (\<lambda>j. socket_name names start j = nm) [i + 1..<i + 1 + k] of
          [] \<Rightarrow> map_of out1 nm | js \<Rightarrow> sock (start + int (last js)))"
    using Suc.IH [of "i + 1" out1] by blast
  have run: "adopt sock names start i (Suc k) out = (None, out')" using l out'(1) by (simp add: Let_def out1_def)
  have range: "[i..<i + Suc k] = i # [i + 1..<i + 1 + k]" by (simp add: upt_rec)
  have "map_of out' nm = (case filter (\<lambda>j. socket_name names start j = nm) [i..<i + Suc k] of
      [] \<Rightarrow> map_of out nm | js \<Rightarrow> sock (start + int (last js)))" for nm
    unfolding range out'(2) using l by (auto simp: out1_def gomap_simps split: list.splits)
  then show ?case using run by blast
qed simp

lemma adopt_refused:
  "adopt sock names start i k out = (Some e, out') \<Longrightarrow>
     \<exists>j < k. sock (start + int (i + j)) = None \<and> e = BadSocket (socket_name names start (i + j)) (start + int (i + j))"
proof (induction k arbitrary: i out)
  case (Suc k)
  show ?case
  proof (cases "sock (start + int i)")
    case None
    then show ?thesis using Suc.prems by (auto simp: Let_def intro!: exI [of _ 0])
  next
    case (Some l)
    then have "\<exists>j < k. sock (start + int (i + 1 + j)) = None \<and>
        e = BadSocket (socket_name names start (i + 1 + j)) (start + int (i + 1 + j))"
      using Suc.prems Suc.IH [of "i + 1"] by (simp add: Let_def)
    then obtain j where "j < k" "sock (start + int (i + 1 + j)) = None"
        "e = BadSocket (socket_name names start (i + 1 + j)) (start + int (i + 1 + j))" by blast
    then show ?thesis by (auto simp: ac_simps intro!: exI [of _ "Suc j"])
  qed
qed simp

text \<open>
  Socket activation hands each lane its own socket.  When the variables name
  this process and every descriptor is a listener, the call succeeds, and a name
  maps to the last passed descriptor that carries it: the given name where there
  is one, \<open>fd<N>\<close> otherwise.  Other names map to nothing.
\<close>

theorem activation_by_name:
  assumes "Atoi (getenv ''LISTEN_PID'') = Some pid" and "Atoi (getenv ''LISTEN_FDS'') = Some (int n)"
    and "getenv ''LISTEN_FDNAMES'' = v" and "\<And>j. j < n \<Longrightarrow> sock (start + int j) \<noteq> None"
  shows "\<exists>out. fromEnv sock getenv pid start = (None, out) \<and>
    (\<forall>nm. map_of out nm =
       (case filter (\<lambda>j. socket_name (passed_names v) start j = nm) [0..<n] of
          [] \<Rightarrow> None
        | js \<Rightarrow> sock (start + int (last js))))"
proof -
  have "getenv ''LISTEN_PID'' \<noteq> []" using assms(1) by (auto simp: Atoi_def)
  then have run: "fromEnv sock getenv pid start = adopt sock (passed_names v) start 0 n []"
    using assms(1,2,3) by (simp add: fromEnv_def)
  have all: "\<And>j. j < n \<Longrightarrow> sock (start + int (0 + j)) \<noteq> None" using assms(4) by simp
  show ?thesis
    unfolding run using adopt_ok [where k = n and sock = sock and start = start and i = 0 and names = "passed_names v" and out = "[]", OF all] unfolding map_of.simps add_0 .
qed

definition sample_getenv :: "string \<Rightarrow> string" where
  "sample_getenv k =
     (if k = ''LISTEN_PID'' then ''77'' else if k = ''LISTEN_FDS'' then ''2''
      else if k = ''LISTEN_FDNAMES'' then ''tx:block'' else [])"

theorem activation_by_name_witness:
  "\<exists>out. fromEnv Some sample_getenv 77 3 = (None, out) \<and> map_of out ''block'' = Some 4"
proof -
  have a: "Atoi (sample_getenv ''LISTEN_PID'') = Some 77" "Atoi (sample_getenv ''LISTEN_FDS'') = Some (int 2)"
    by code_simp+
  have b: "filter (\<lambda>j. socket_name (passed_names ''tx:block'') 3 j = ''block'') [0..<2] = [1]"
    by code_simp
  have v: "sample_getenv ''LISTEN_FDNAMES'' = ''tx:block''" by (simp add: sample_getenv_def)
  obtain out where out: "fromEnv Some sample_getenv 77 3 = (None, out)"
      "\<And>nm. map_of out nm = (case filter (\<lambda>j. socket_name (passed_names ''tx:block'') 3 j = nm) [0..<2] of
         [] \<Rightarrow> None | js \<Rightarrow> Some (3 + int (last js)))"
    using activation_by_name [OF a v, of Some 3] by auto
  have "map_of out ''block'' = Some 4" unfolding out(2) b by simp
  then show ?thesis using out(1) by blast
qed

end
