(* ===== verification/Startup.thy ===== *)
theory Startup
  imports System Admission Activation
begin

text \<open>
  \<open>cmd/teranode-bridge\<close>, the rest of \<open>main.go\<close>: the flags and their
  validation, what a mode builds, the lane set, the reverse path and its
  readiness gate, and the health checks.  What the outside answers while the
  process starts is the record \<open>world\<close>; the text of a refusal is its
  constructor.  \<open>strings.TrimSpace\<close> is modelled on ASCII text.
\<close>

section \<open>Flags\<close>

definition is_space :: "char \<Rightarrow> bool" where
  "is_space c \<longleftrightarrow> c \<in> {CHR 0x09, CHR 0x0A, CHR 0x0B, CHR 0x0C, CHR 0x0D, CHR '' ''}"

definition TrimSpace :: "string \<Rightarrow> string" where
  "TrimSpace s = rev (dropWhile is_space (rev (dropWhile is_space s)))"

definition split_list :: "string \<Rightarrow> string list" where
  "split_list v = filter (\<lambda>p. p \<noteq> []) (map TrimSpace (split_on (CHR '','') v))"

definition stringList_Set :: "string \<Rightarrow> string list \<Rightarrow> string list" where
  "stringList_Set v xs = xs @ split_list v"

definition JoinHostPort :: "string \<Rightarrow> string \<Rightarrow> string" where
  "JoinHostPort host port =
     (if CHR '':'' \<in> set host then ''['' @ host @ '']:'' @ port else host @ '':'' @ port)"

definition ingressAddrs :: "string \<Rightarrow> int \<Rightarrow> string list" where
  "ingressAddrs hosts port = map (\<lambda>h. JoinHostPort h (Itoa port)) (split_list hosts)"

datatype flag_error =
    TxNeedsPropagation
  | TxHasNoReverse
  | AnnounceFlagsMissing
  | PeerIDMissing
  | UnknownMode string

definition announceFlagsErr :: "nat \<Rightarrow> nat \<Rightarrow> string \<Rightarrow> string \<Rightarrow> flag_error option" where
  "announceFlagsErr propagationN brokersN advertise peerID =
     (if propagationN = 0 \<or> brokersN = 0 \<or> advertise = [] then Some AnnounceFlagsMissing
      else if peerID = [] then Some PeerIDMissing
      else None)"

definition modeFlagsErr :: "string \<Rightarrow> nat \<Rightarrow> nat \<Rightarrow> string \<Rightarrow> string \<Rightarrow> string \<Rightarrow> flag_error option" where
  "modeFlagsErr mode propagationN brokersN advertise peerID blockchain =
     (if mode = ''sink'' then None
      else if mode = ''tx'' then
        (if propagationN = 0 then Some TxNeedsPropagation
         else if blockchain \<noteq> [] then Some TxHasNoReverse
         else None)
      else if mode = ''all'' then announceFlagsErr propagationN brokersN advertise peerID
      else Some (UnknownMode mode))"

record flags =
  f_mode :: string
  f_propagation :: "string list"
  f_brokers :: "string list"
  f_advertise :: string
  f_apiPrefix :: string
  f_subtreeTopic :: string
  f_blockTopic :: string
  f_peerID :: string
  f_blockchain :: string
  f_localAsset :: string
  f_edgeIngress :: string
  f_subtreePort :: int
  f_blockPort :: int
  f_submitter :: bool
  f_tls :: TLSConfig
  f_mineTag :: bytes
  f_cacheBytes :: int
  f_cacheTTL :: duration
  f_txCache :: int
  f_maxObject :: int
  f_drainFor :: duration
  f_pipe :: pipe_Config

section \<open>What is built\<close>

record 'l world =
  w_start :: time
  w_kafka :: bool
  w_sock :: "int \<Rightarrow> 'l option"
  w_pid :: int
  w_env :: "string \<Rightarrow> string"
  w_files :: tls_files
  w_grpc :: bool

record 'l lane_conf =
  lf_Name :: string
  lf_Lane :: Lane
  lf_Listener :: "'l option"

record 'l parts =
  pt_objects :: Cache
  pt_txs :: "Generational option"
  pt_seen :: Registry
  pt_announced :: Registry
  pt_pipe :: "pipe_Config option"
  pt_producer :: "Producer option"
  pt_retrieval :: "string option"
  pt_baseURL :: string
  pt_lanes :: "'l lane_conf list"
  pt_rev :: "Subscriber option"

datatype refusal =
    BadFlags flag_error
  | PipeRefused
  | KafkaRefused announce_error
  | SocketsRefused activation_error
  | ReverseFlagsMissing
  | ReverseRefused rev_error

fun exit_code :: "refusal \<Rightarrow> int" where
  "exit_code (BadFlags e) = 2"
| "exit_code ReverseFlagsMissing = 2"
| "exit_code _ = 1"

definition tx_cache :: "bool \<Rightarrow> time \<Rightarrow> flags \<Rightarrow> Generational option" where
  "tx_cache txOnly start f =
     (if f_txCache f < 0 \<and> \<not> txOnly then Some (NewGenerational \<lparr> MaxBytes = f_cacheBytes f, TTL = f_cacheTTL f \<rparr> start)
      else if f_txCache f > 0 then Some (NewGenerational \<lparr> MaxBytes = f_txCache f, TTL = f_cacheTTL f \<rparr> start)
      else None)"

definition build_pipe :: "bool \<Rightarrow> flags \<Rightarrow> (refusal, pipe_Config option) res" where
  "build_pipe sink f =
     (if sink then Inr None
      else case pipe_New ((f_pipe f) \<lparr> Endpoints := f_propagation f \<rparr>) of
        None \<Rightarrow> Inl PipeRefused
      | Some c \<Rightarrow> Inr (Some c))"

text \<open>The zero \<open>time.Time\<close>, the first instant of the year 1, counted from the Unix epoch.\<close>

definition zero_time :: time where
  "zero_time = - 62135596800 * second"

definition build_producer :: "bool \<Rightarrow> 'l world \<Rightarrow> flags \<Rightarrow> (refusal, Producer option) res" where
  "build_producer announcing w f =
     (if \<not> announcing then Inr None
      else case announce_New (w_kafka w) \<lparr> Brokers = f_brokers f, SubtreeTopic = f_subtreeTopic f, BlockTopic = f_blockTopic f,
          PeerID = f_peerID f, ann_Timeout = 0 \<rparr> of
        Inl e \<Rightarrow> Inl (KafkaRefused e)
      | Inr p \<Rightarrow> Inr (Some (SetFirstPull (Some (NewFirstPull (2 ^ 16) (f_cacheTTL f) zero_time)) p)))"

text \<open>The lane set, with the sockets held for it by name.\<close>

definition lane_set :: "bool \<Rightarrow> bool \<Rightarrow> flags \<Rightarrow> (string, 'l) gomap \<Rightarrow> 'l lane_conf list" where
  "lane_set txOnly piped f held =
     (let ln = (\<lambda>owned flush. \<lparr> ln_Owned = owned, ln_MaxObject = f_maxObject f, ln_DrainTimeout = f_drainFor f, ln_hasFlush = flush \<rparr>);
          all = [(''tx'', ln True piped), (''subtree'', ln False False), (''block'', ln False False)];
          used = (if txOnly then take 1 all else all)
      in map (\<lambda>(name, l). \<lparr> lf_Name = name, lf_Lane = l, lf_Listener = map_of held name \<rparr>) used)"

definition held_sockets :: "'l world \<Rightarrow> (refusal, (string, 'l) gomap) res" where
  "held_sockets w =
     (case fst (Listeners (w_sock w) (w_pid w) (w_env w)) of
        (Some e, out) \<Rightarrow> Inl (SocketsRefused e)
      | (None, out) \<Rightarrow> Inr out)"

definition nilIfNil :: "UpTunnel option \<Rightarrow> UpTunnel option" where
  "nilIfNil u = (case u of None \<Rightarrow> None | Some u \<Rightarrow> Some u)"

definition build_reverse :: "bool \<Rightarrow> 'l world \<Rightarrow> flags \<Rightarrow> Cache \<Rightarrow> Registry \<Rightarrow> (refusal, Subscriber option) res" where
  "build_reverse sink w f objects seen =
     (if sink \<or> f_blockchain f = [] then Inr None
      else if f_localAsset f = [] \<or> f_edgeIngress f = [] then Inl ReverseFlagsMissing
      else
        let upSubtree = UpTunnel_new (ingressAddrs (f_edgeIngress f) (f_subtreePort f)) ''subtree'';
            upBlock = UpTunnel_new (ingressAddrs (f_edgeIngress f) (f_blockPort f)) ''block''
        in case reverse_New (w_files w) (w_grpc w) (f_blockchain f) (f_tls f) (f_mineTag f) (nilIfNil (Some upSubtree))
            (nilIfNil (Some upBlock)) (Some objects) seen of
             Inl e \<Rightarrow> Inl (ReverseRefused e)
           | Inr r \<Rightarrow> Inr (Some (SetActive (f_submitter f) r)))"

definition startup :: "'l world \<Rightarrow> flags \<Rightarrow> (refusal, 'l parts) res" where
  "startup w f =
     (case modeFlagsErr (f_mode f) (length (f_propagation f)) (length (f_brokers f)) (f_advertise f) (f_peerID f) (f_blockchain f) of
        Some e \<Rightarrow> Inl (BadFlags e)
      | None \<Rightarrow>
          let sink = (f_mode f = ''sink''); txOnly = (f_mode f = ''tx'');
              objects = cache_New \<lparr> MaxBytes = f_cacheBytes f, TTL = f_cacheTTL f \<rparr>;
              seen = registry_New (30 * minute) (2 ^ 20) (w_start w);
              announced = registry_New (30 * minute) (2 ^ 20) (w_start w)
          in res_bind (build_pipe sink f) (\<lambda>pipe.
             res_bind (build_producer (\<not> sink \<and> \<not> txOnly) w f) (\<lambda>producer.
             res_bind (held_sockets w) (\<lambda>held.
             res_bind (build_reverse sink w f objects seen) (\<lambda>rev.
               Inr \<lparr> pt_objects = objects, pt_txs = tx_cache txOnly (w_start w) f, pt_seen = seen, pt_announced = announced,
                 pt_pipe = pipe, pt_producer = producer,
                 pt_retrieval = (if sink \<or> txOnly then None else Some (retrieval_APIPrefix (f_apiPrefix f))),
                 pt_baseURL = (if sink \<or> txOnly then [] else BaseURL (f_apiPrefix f) (f_advertise f)),
                 pt_lanes = lane_set txOnly (pipe \<noteq> None) f held, pt_rev = rev \<rparr>)))))"

text \<open>The state the handlers and the reverse path then run on.\<close>

definition bridge_of :: "'l parts \<Rightarrow> bridge" where
  "bridge_of p = \<lparr> br_objects = pt_objects p, br_txs = pt_txs p, br_seen = pt_seen p, br_announced = pt_announced p,
     br_producer = pt_producer p, br_baseURL = pt_baseURL p, br_echoOK = 0, br_echoBad = 0 \<rparr>"

definition system_of :: "'l parts \<Rightarrow> system option" where
  "system_of p = map_option (\<lambda>r. \<lparr> sy_bridge = bridge_of p, sy_rev = r, sy_pending = None, sy_open = [] \<rparr>) (pt_rev p)"

section \<open>Waiting for the lanes and probing the cluster\<close>

text \<open>Each poll: which lanes are bound, and whether the wait after it ended by cancellation.\<close>

fun waitLanesBound :: "(bool list \<times> bool) list \<Rightarrow> bool option" where
  "waitLanesBound [] = None"
| "waitLanesBound ((bound, cancelled) # polls) =
     (if length (filter id bound) = length bound then Some True
      else if cancelled then Some False
      else waitLanesBound polls)"

fun probeHealth :: "(string \<Rightarrow> probe) \<Rightarrow> string option \<Rightarrow> string list \<Rightarrow> string option" where
  "probeHealth get lastErr [] = lastErr"
| "probeHealth get lastErr (ep # eps) =
     (case get (trim_right (CHR ''/'') ep @ ''/health'') of
        ProbeError e \<Rightarrow> probeHealth get (Some e) eps
      | ProbeStatus st \<Rightarrow>
          if st = 200 then None
          else probeHealth get (Some (ep @ ''/health: http '' @ Itoa st)) eps)"

section \<open>The reverse path's readiness gate\<close>

text \<open>Each lane's name and its count of open connections.\<close>

definition submitterReady :: "(string \<times> int) list \<Rightarrow> time \<Rightarrow> duration \<Rightarrow> bool \<Rightarrow> time \<Rightarrow> bool" where
  "submitterReady lanes started grace allowBlind now =
     (if now - started < grace then False
      else if allowBlind then True
      else \<not> list_ex (\<lambda>(name, active). (name = ''subtree'' \<or> name = ''block'') \<and> active = 0) lanes)"

section \<open>The health checks\<close>

text \<open>What the checks probe; \<open>None\<close> for a part that was not built.\<close>

record probes =
  pb_ready :: bool
  pb_lanes :: nat
  pb_listening :: "bool option"
  pb_kafka :: "string option option"
  pb_get :: "string \<Rightarrow> probe"
  pb_rev :: "(string \<times> nat \<times> bool) option"

definition fsm_check :: "string \<Rightarrow> nat \<Rightarrow> CheckFunc" where
  "fsm_check state height = Skip (\<lambda>liveness.
     if state = [] then (503, ''cluster state not yet read'', None)
     else if state \<in> {''RUNNING'', ''IDLE'', ''CATCHINGBLOCKS''} then
       (200, ''cluster FSM '' @ state @ '' at height '' @ digits height, None)
     else (503, ''cluster FSM '' @ state, None))"

definition role_check :: "bool \<Rightarrow> CheckFunc" where
  "role_check active = (\<lambda>liveness.
     if active then (200, ''holds the submitter role'', None) else (200, ''standby (not publishing)'', None))"

definition buildChecks :: "probes \<Rightarrow> string list \<Rightarrow> string \<Rightarrow> bool \<Rightarrow> bool \<Rightarrow> Check list" where
  "buildChecks pb propagation assetBase sink clusterPolled =
     (let checks =
        [\<lparr> ck_Name = ''process'', ck_Check = Alive, ck_Gating = False \<rparr>,
         \<lparr> ck_Name = ''DeliveryLanes'',
           ck_Check = Bool (pb_ready pb) (''all '' @ digits (pb_lanes pb) @ '' delivery lanes bound'') ''not every delivery lane is bound'',
           ck_Gating = True \<rparr>]
      in if sink then checks
      else
        checks
        @ (case pb_listening pb of
             None \<Rightarrow> []
           | Some ok \<Rightarrow> [\<lparr> ck_Name = ''RetrievalPlane'',
               ck_Check = Bool ok ''retrieval plane listening'' ''retrieval plane not listening; announced objects would 404'',
               ck_Gating = True \<rparr>])
        @ (case pb_kafka pb of
             None \<Rightarrow> []
           | Some ping \<Rightarrow> [\<lparr> ck_Name = ''Kafka'', ck_Check = Ping ''kafka'' ping, ck_Gating = False \<rparr>])
        @ (if propagation = [] then []
           else [\<lparr> ck_Name = ''Propagation'', ck_Check = HTTPGet (pb_get pb) propagation ''/health'', ck_Gating = False \<rparr>])
        @ (if assetBase = [] then []
           else [\<lparr> ck_Name = ''AssetService'', ck_Check = HTTPGet (pb_get pb) [assetBase] ''/health'', ck_Gating = False \<rparr>])
        @ (case pb_rev pb of
             None \<Rightarrow> []
           | Some (state, height, active) \<Rightarrow>
               (if clusterPolled
                then [\<lparr> ck_Name = ''BlockchainFSM'', ck_Check = fsm_check state height, ck_Gating = False \<rparr>] else [])
               @ [\<lparr> ck_Name = ''SubmitterRole'', ck_Check = role_check active, ck_Gating = False \<rparr>]))"

section \<open>Lemmas\<close>

lemma CheckAll_status:
  "fst (CheckAll l strict cs) = (if list_ex (\<lambda>c. check_failed (ck_Check c l) \<and> (strict \<or> ck_Gating c)) cs then 503 else 200)"
  by (simp add: CheckAll_def check_loop_eq split: prod.splits)

lemma check_failed_builders [simp]:
  "check_failed (Alive l) = False" "check_failed (Bool ok a b l) = (\<not> ok)"
  "check_failed (role_check act l) = False" "check_failed (Skip f True) = False"
  by (simp_all add: check_failed_def Alive_def Bool_def role_check_def Skip_def)

text \<open>A live asset service that answers 404 on the probed path counts as failed.\<close>

lemma asset_404_fails:
  "get (trim_right (CHR ''/'') base @ ''/health'') = ProbeStatus 404 \<Longrightarrow> check_failed (HTTPGet get [base] ''/health'' False)"
  by (simp add: HTTPGet_def Skip_def check_failed_def Let_def trimRight_eq)

lemma all_bound_iff: "length (filter id bound) = length bound \<longleftrightarrow> False \<notin> set bound"
  by (induction bound) (auto simp: le_less_trans [OF length_filter_le] less_imp_neq)

lemma waitLanesBound_first:
  "\<forall>(bound, cancelled) \<in> set pre. False \<in> set bound \<and> \<not> cancelled \<Longrightarrow>
   waitLanesBound (pre @ (bound, cancelled) # post) =
     (if False \<notin> set bound then Some True else if cancelled then Some False else waitLanesBound post)"
  by (induction pre) (auto simp: all_bound_iff)

lemma waitLanesBound_sound:
  "waitLanesBound polls = Some True \<Longrightarrow> \<exists>(bound, cancelled) \<in> set polls. False \<notin> set bound"
  by (induction polls rule: waitLanesBound.induct) (auto simp: all_bound_iff split: if_splits)

lemma no_failed_probe:
  "probeHealth get lastErr eps = None \<longleftrightarrow>
     (\<exists>ep \<in> set eps. get (trim_right (CHR ''/'') ep @ ''/health'') = ProbeStatus 200) \<or> (eps = [] \<and> lastErr = None)"
  by (induction get lastErr eps rule: probeHealth.induct) (auto split: probe.splits)

lemma startup_Inr:
  assumes "startup w f = Inr p"
  obtains pipe producer held rev where
    "modeFlagsErr (f_mode f) (length (f_propagation f)) (length (f_brokers f)) (f_advertise f) (f_peerID f) (f_blockchain f) = None"
    "build_pipe (f_mode f = ''sink'') f = Inr pipe"
    "build_producer (f_mode f \<noteq> ''sink'' \<and> f_mode f \<noteq> ''tx'') w f = Inr producer"
    "held_sockets w = Inr held"
    "build_reverse (f_mode f = ''sink'') w f (pt_objects p) (pt_seen p) = Inr rev"
    "pt_pipe p = pipe" "pt_producer p = producer" "pt_rev p = rev"
    "pt_objects p = cache_New \<lparr> MaxBytes = f_cacheBytes f, TTL = f_cacheTTL f \<rparr>"
    "pt_seen p = registry_New (30 * minute) (2 ^ 20) (w_start w)"
    "pt_announced p = registry_New (30 * minute) (2 ^ 20) (w_start w)"
    "pt_txs p = tx_cache (f_mode f = ''tx'') (w_start w) f"
    "pt_retrieval p = (if f_mode f = ''sink'' \<or> f_mode f = ''tx'' then None else Some (retrieval_APIPrefix (f_apiPrefix f)))"
    "pt_baseURL p = (if f_mode f = ''sink'' \<or> f_mode f = ''tx'' then [] else BaseURL (f_apiPrefix f) (f_advertise f))"
    "pt_lanes p = lane_set (f_mode f = ''tx'') (pipe \<noteq> None) f held"
  using assms unfolding startup_def Let_def by (auto simp: res_bind_Inr_iff split: option.splits)

lemma build_pipe_Inr: "build_pipe sink f = Inr pipe \<Longrightarrow> (pipe \<noteq> None) = (\<not> sink)"
  by (auto simp: build_pipe_def split: if_splits option.splits dest: sym)

lemma build_producer_Inr:
  "build_producer announcing w f = Inr producer \<Longrightarrow>
     (announcing \<longrightarrow> (\<exists>q. producer = Some q \<and> PeerID (ann_cfg q) = f_peerID f)) \<and> (\<not> announcing \<longrightarrow> producer = None)"
  by (auto simp: build_producer_def announce_New_def SetFirstPull_def Let_def split: if_splits sum.splits)

lemma build_reverse_Inr:
  "build_reverse sink w f objects seen = Inr (Some r) \<Longrightarrow>
     \<not> sink \<and> f_blockchain f \<noteq> [] \<and> rv_seen r = seen \<and> rv_Published r = Some objects \<and> rv_active r = f_submitter f \<and>
     rv_Subtrees r \<noteq> None \<and> rv_Blocks r \<noteq> None"
  by (auto simp: build_reverse_def reverse_New_def SetActive_def nilIfNil_def Let_def split: if_splits sum.splits)

lemma lane_set_names: "map lf_Name (lane_set txOnly piped f held) = (if txOnly then [''tx''] else [''tx'', ''subtree'', ''block''])"
  by (simp add: lane_set_def Let_def)

lemma modeFlags_ok:
  "modeFlagsErr mode n m adv peer bc = None \<Longrightarrow>
     mode = ''sink'' \<or> (mode = ''tx'' \<and> 0 < n \<and> bc = []) \<or> (mode = ''all'' \<and> 0 < n \<and> 0 < m \<and> adv \<noteq> [] \<and> peer \<noteq> [])"
  by (auto simp: modeFlagsErr_def announceFlagsErr_def split: if_splits)

text \<open>The registries' shape lasts as long as the system runs.\<close>

lemma run_registries:
  assumes "frame_headers F"
  shows "registry_ok c (br_seen (sy_bridge s)) \<Longrightarrow> registry_ok c (br_announced (sy_bridge s)) \<Longrightarrow>
    sys_run F evs s = Some (os, s') \<Longrightarrow>
    registry_ok c (br_seen (sy_bridge s')) \<and> reg_ttl (br_seen (sy_bridge s')) = reg_ttl (br_seen (sy_bridge s)) \<and>
    registry_ok c (br_announced (sy_bridge s')) \<and> reg_ttl (br_announced (sy_bridge s')) = reg_ttl (br_announced (sy_bridge s))"
proof (induction evs arbitrary: s os)
  case (Cons e evs)
  obtain now ev where e: "e = (now, ev)" by (cases e)
  obtain o1 s1 o2 where st: "sys_step F now ev s = Some (o1, s1)" "sys_run F evs s1 = Some (o2, s')"
    by (rule run_split [OF Cons.prems(3) [unfolded e]])
  have "registry_ok c (br_seen (sy_bridge s1)) \<and> reg_ttl (br_seen (sy_bridge s1)) = reg_ttl (br_seen (sy_bridge s))"
    "registry_ok c (br_announced (sy_bridge s1)) \<and> reg_ttl (br_announced (sy_bridge s1)) = reg_ttl (br_announced (sy_bridge s))"
    by (rule marked_ok [OF Cons.prems(1) step_marks [OF assms st(1), THEN conjunct1]])
      (rule marked_ok [OF Cons.prems(2) step_marks [OF assms st(1), THEN conjunct2]])
  then show ?case using Cons.IH [OF _ _ st(2)] by simp
qed simp

lemma startup_registry: "registry_ok 8192 (registry_New (30 * minute) (2 ^ 20) start) \<and> reg_ttl (registry_New (30 * minute) (2 ^ 20) start) = 30 * minute"
proof -
  have "nat (max 1 ((2 ^ 20 :: int) div 128)) = 8192" by simp
  then show ?thesis using registry_ok_New [of "2 ^ 20" "30 * minute" start]
    by (simp add: registry_New_def Let_def)
qed

section \<open>Properties\<close>

text \<open>
  C30: What a mode builds.  Whenever startup succeeds: only a sink has no pipe; the
  producer and the retrieval plane exist together and exactly in the full mode,
  where the producer carries the configured, non-empty peer identity; a reverse
  path exists only in the full mode and starts with the role the flag gives,
  both publishers in place and the handlers' registry and cache as its own; a
  transaction-only bridge has the transaction lane alone, every other one the
  three lanes.
\<close>

theorem startup_modes:
  assumes "startup w f = Inr p"
  shows "(pt_pipe p \<noteq> None \<longleftrightarrow> f_mode f \<noteq> ''sink'') \<and> (pt_producer p \<noteq> None \<longleftrightarrow> f_mode f = ''all'') \<and>
    (pt_retrieval p \<noteq> None \<longleftrightarrow> f_mode f = ''all'') \<and>
    (\<forall>q. pt_producer p = Some q \<longrightarrow> PeerID (ann_cfg q) = f_peerID f \<and> f_peerID f \<noteq> []) \<and>
    (\<forall>r. pt_rev p = Some r \<longrightarrow> f_mode f = ''all'' \<and> rv_active r = f_submitter f \<and> rv_Subtrees r \<noteq> None \<and> rv_Blocks r \<noteq> None \<and>
       rv_seen r = pt_seen p \<and> rv_Published r = Some (pt_objects p)) \<and>
    map lf_Name (pt_lanes p) = (if f_mode f = ''tx'' then [''tx''] else [''tx'', ''subtree'', ''block''])"
  using assms
proof (rule startup_Inr)
  fix pipe producer held rev
  assume flags: "modeFlagsErr (f_mode f) (length (f_propagation f)) (length (f_brokers f)) (f_advertise f) (f_peerID f) (f_blockchain f) = None"
    and pipe: "build_pipe (f_mode f = ''sink'') f = Inr pipe" "pt_pipe p = pipe"
    and prod: "build_producer (f_mode f \<noteq> ''sink'' \<and> f_mode f \<noteq> ''tx'') w f = Inr producer" "pt_producer p = producer"
    and rev: "build_reverse (f_mode f = ''sink'') w f (pt_objects p) (pt_seen p) = Inr rev" "pt_rev p = rev"
    and ret: "pt_retrieval p = (if f_mode f = ''sink'' \<or> f_mode f = ''tx'' then None else Some (retrieval_APIPrefix (f_apiPrefix f)))"
    and lanes: "pt_lanes p = lane_set (f_mode f = ''tx'') (pipe \<noteq> None) f held"
  note mode = modeFlags_ok [OF flags]
  have A: "pt_pipe p \<noteq> None \<longleftrightarrow> f_mode f \<noteq> ''sink''" using build_pipe_Inr [OF pipe(1)] pipe(2) by simp
  have B: "pt_producer p \<noteq> None \<longleftrightarrow> f_mode f = ''all''"
    and D: "\<forall>q. pt_producer p = Some q \<longrightarrow> PeerID (ann_cfg q) = f_peerID f \<and> f_peerID f \<noteq> []"
    using build_producer_Inr [OF prod(1)] prod(2) mode by auto
  have C: "pt_retrieval p \<noteq> None \<longleftrightarrow> f_mode f = ''all''" using ret mode by auto
  have E: "\<forall>r. pt_rev p = Some r \<longrightarrow> f_mode f = ''all'' \<and> rv_active r = f_submitter f \<and> rv_Subtrees r \<noteq> None \<and> rv_Blocks r \<noteq> None \<and>
      rv_seen r = pt_seen p \<and> rv_Published r = Some (pt_objects p)"
  proof (intro allI impI)
    fix r assume "pt_rev p = Some r"
    with rev have "build_reverse (f_mode f = ''sink'') w f (pt_objects p) (pt_seen p) = Inr (Some r)" by simp
    from build_reverse_Inr [OF this] mode show "f_mode f = ''all'' \<and> rv_active r = f_submitter f \<and> rv_Subtrees r \<noteq> None \<and>
      rv_Blocks r \<noteq> None \<and> rv_seen r = pt_seen p \<and> rv_Published r = Some (pt_objects p)" by auto
  qed
  show ?thesis by (intro conjI A B C D E) (simp only: lanes lane_set_names)
qed

definition sample_flags :: flags where
  "sample_flags = \<lparr> f_mode = ''all'', f_propagation = [''http://p''], f_brokers = [''k''], f_advertise = ''http://b'', f_apiPrefix = [],
     f_subtreeTopic = ''s'', f_blockTopic = ''b'', f_peerID = ''12D3'', f_blockchain = ''bc'', f_localAsset = ''http://a'',
     f_edgeIngress = ''e1, e2'', f_subtreePort = 8726, f_blockPort = 8727, f_submitter = True,
     f_tls = \<lparr> SecurityLevel = 0, CertFile = [], KeyFile = [], CACertFile = [] \<rparr>, f_mineTag = [], f_cacheBytes = 1280,
     f_cacheTTL = 20, f_txCache = -1, f_maxObject = 0, f_drainFor = 5000000000, f_pipe = sample_config \<rparr>"

definition sample_world :: "nat world" where
  "sample_world = \<lparr> w_start = 0, w_kafka = True, w_sock = (\<lambda>fd. None), w_pid = 7, w_env = (\<lambda>v. []),
     w_files = \<lparr> ca_readable = False, ca_has_cert = False, pair_loads = False \<rparr>, w_grpc = True \<rparr>"

lemma sample_startup: "\<exists>p. startup sample_world sample_flags = Inr p \<and> pt_rev p \<noteq> None"
  by (simp add: startup_def sample_flags_def sample_world_def modeFlagsErr_def announceFlagsErr_def build_pipe_def pipe_New_def
      build_producer_def announce_New_def held_sockets_def Listeners_def fromEnv_def build_reverse_def reverse_New_def
      TLSConfig_credentials_def res_bind_def Let_def)

theorem startup_modes_witness:
  "\<exists>p. startup sample_world sample_flags = Inr p \<and> pt_pipe p \<noteq> None \<and> pt_producer p \<noteq> None \<and>
     map lf_Name (pt_lanes p) = [''tx'', ''subtree'', ''block'']"
proof -
  obtain p where p: "startup sample_world sample_flags = Inr p" using sample_startup by blast
  from startup_modes [OF p] show ?thesis using p by (auto simp: sample_flags_def)
qed

text \<open>
  C16: From the command line to the wire: on every bridge that starts with a reverse
  path, after any history, any fifteen minutes in which each registry takes at
  most 8192 marks see no more acknowledged announcements of a hash than there
  are deliveries of it in progress at once, hence at most one while no two
  connections deliver it together; and no push of a hash delivered at their
  beginning unless its push was already under way.
\<close>

theorem startup_to_wire:
  assumes "startup w f = Inr p" and "system_of p = Some s" and "frame_headers F"
    and "sys_run F before s = Some (os0, s1)" and "in_window t0 (30 * minute) ((t0, ev) # evs)"
    and "run_weight F ((t0, ev) # evs) \<le> 8192" and "ann_run_weight F ((t0, ev) # evs) \<le> 8192"
    and "sys_run F ((t0, ev) # evs) s1 = Some (os, s2)"
  shows "length (filter (acked_hash h) os) \<le> peak F h ((t0, ev) # evs) s1 \<and>
    (h \<in> set (delivers F ev) \<longrightarrow> \<not> pending_for h s1 \<longrightarrow> (\<forall>out \<in> set os. \<not> pushes_hash h out))"
proof -
  have regs: "pt_seen p = registry_New (30 * minute) (2 ^ 20) (w_start w)" "pt_announced p = registry_New (30 * minute) (2 ^ 20) (w_start w)"
    by (rule startup_Inr [OF assms(1)], assumption)+
  have "sy_bridge s = bridge_of p" using assms(2) by (auto simp: system_of_def)
  then have "registry_ok 8192 (br_seen (sy_bridge s)) \<and> reg_ttl (br_seen (sy_bridge s)) = 30 * minute"
    "registry_ok 8192 (br_announced (sy_bridge s)) \<and> reg_ttl (br_announced (sy_bridge s)) = 30 * minute"
    using startup_registry [of "w_start w"] regs by (simp_all add: bridge_of_def)
  then have r: "registry_ok 8192 (br_seen (sy_bridge s1))" "reg_ttl (br_seen (sy_bridge s1)) = 30 * minute"
    "registry_ok 8192 (br_announced (sy_bridge s1))" "reg_ttl (br_announced (sy_bridge s1)) = 30 * minute"
    using run_registries [OF assms(3) _ _ assms(4), where c = 8192] by simp_all
  have told: "length (filter (acked_hash h) os) \<le> peak F h ((t0, ev) # evs) s1"
    using run_acked_peak [OF assms(3) r(3,4) assms(5,7,8), of h] by (simp only: add_leD1)
  obtain o1 s' o2 where st: "sys_step F t0 ev s1 = Some (o1, s')" "sys_run F evs s' = Some (o2, s2)" "os = o1 @ o2"
    by (rule run_split [OF assms(8)])
  have win: "in_window t0 (30 * minute) evs" and wt: "weight F ev + run_weight F evs \<le> 8192"
    using assms(5,6) by (simp_all add: in_window_def run_weight_def)
  have "\<forall>out \<in> set os. \<not> pushes_hash h out" if "h \<in> set (delivers F ev)" "\<not> pending_for h s1"
    unfolding st(3) by (rule delivered_no_push [OF assms(3) r(1,2) _ st(1) that win wt st(2)]) simp
  then show ?thesis using told by blast
qed

theorem startup_to_wire_witness:
  "\<exists>p s os s2. startup sample_world sample_flags = Inr p \<and> system_of p = Some s \<and>
     sys_run sample_objfmt (sample_delivery_steps 0 @ sample_delivery_steps 3) s = Some (os, s2) \<and>
     length (filter (acked_hash (replicate 32 7)) os) \<le> 1 \<and> (\<forall>out \<in> set os. \<not> pushes_hash (replicate 32 7) out)"
proof -
  let ?evs = "tl (sample_delivery_steps 0) @ sample_delivery_steps 3"
  obtain p r where p: "startup sample_world sample_flags = Inr p" "pt_rev p = Some r" using sample_startup by auto
  obtain s where s: "system_of p = Some s" "sy_open s = []" "sy_pending s = None" using p(2) by (simp add: system_of_def)
  obtain os s2 where run: "sys_run sample_objfmt ((0, sample_delivery_event) # ?evs) s = Some (os, s2)"
      "peak sample_objfmt (replicate 32 7) ((0, sample_delivery_event) # ?evs) s \<le> 1"
    using two_deliveries [OF s(2), of 0 3 "replicate 32 7"] by (simp only: list.sel append_Cons append_Nil) blast
  have "length (filter (acked_hash (replicate 32 7)) os) \<le> peak sample_objfmt (replicate 32 7) ((0, sample_delivery_event) # ?evs) s \<and>
      (replicate 32 7 \<in> set (delivers sample_objfmt sample_delivery_event) \<longrightarrow> \<not> pending_for (replicate 32 7) s \<longrightarrow>
        (\<forall>out \<in> set os. \<not> pushes_hash (replicate 32 7) out))"
    by (rule startup_to_wire [OF p(1) s(1) sample_objfmt_ok(2) _ _ _ _ run(1), of "[]" "[]"])
       (simp_all add: in_window_def run_weight_def ann_run_weight_def)
  moreover have "\<not> pending_for (replicate 32 7) s" using s(3) by (simp add: pending_for_def)
  moreover have "replicate 32 7 \<in> set (delivers sample_objfmt sample_delivery_event)" unfolding sample_delivers by simp
  ultimately have "length (filter (acked_hash (replicate 32 7)) os) \<le> 1 \<and> (\<forall>out \<in> set os. \<not> pushes_hash (replicate 32 7) out)"
    using run(2) by (meson le_trans)
  then show ?thesis using p(1) s(1) run(1) by (simp only: list.sel append_Cons append_Nil) blast
qed

text \<open>
  C28: The reverse path publishes only with a trustworthy view.  With the gate that
  \<open>main\<close> installs, a frame is pushed for a notification only once the startup
  grace has passed and, unless blind publishing was asked for, while both class
  lanes have a connection open; being connected on one of them is not enough.
\<close>

theorem push_needs_view:
  assumes "re_ready E = Some (submitterReady lanes started grace allowBlind now)"
    and "handle F E now n s = Some (ps, s')" and "ps \<noteq> []"
  shows "grace \<le> now - started \<and>
    (allowBlind \<or> (\<forall>(name, active) \<in> set lanes. name \<in> {''subtree'', ''block''} \<longrightarrow> active \<noteq> 0))"
  using assms(2)
proof (cases rule: handle_cases)
  case (push cls h frame u)
  then have "submitterReady lanes started grace allowBlind now" using assms(1) by simp
  then show ?thesis by (auto simp: submitterReady_def list_ex_iff split: if_splits)
qed (simp add: assms(3))

theorem push_needs_view_witness:
  "\<exists>s'. handle sample_objfmt (sample_rev_env \<lparr> re_ready := Some (submitterReady [(''tx'', 0), (''subtree'', 1), (''block'', 2)] 0 45 False 50) \<rparr>)
       50 sample_note sample_subscriber = Some ([(ClsSubtree, replicate 32 4, [1, 2, 3])], s') \<and> 45 \<le> (50 :: int) - 0"
proof -
  let ?E = "sample_rev_env \<lparr> re_ready := Some (submitterReady [(''tx'', 0), (''subtree'', 1), (''block'', 2)] 0 45 False 50) \<rparr>"
  have lk: "Lookup (replicate 32 4) (rv_seen sample_subscriber) = None" by code_simp
  have "submitterReady [(''tx'', 0), (''subtree'', 1), (''block'', 2)] 0 45 False 50" by code_simp
  then obtain s' where s': "handle sample_objfmt ?E 50 sample_note sample_subscriber = Some ([(ClsSubtree, replicate 32 4, [1, 2, 3])], s')"
    using lk by (simp add: handle_def publish_def sample_note_def FromWire_def typeSubtree_def sample_rev_env_def)
      (simp add: sample_subscriber_def origin_gate_def)
  from push_needs_view [OF _ s'] show ?thesis using s' by simp
qed

text \<open>
  What takes the bridge out of rotation.  Without the strict setting the health
  status depends on this process alone: it is 503 exactly when not every lane is
  bound or, outside sink mode, a retrieval plane was built and is not listening;
  no answer of Kafka, propagation, the asset service or the cluster's state
  machine changes it.  The liveness route answers the same, so it too fails
  while a lane or the retrieval plane is down.
\<close>

theorem health_gating:
  "fst (CheckAll liveness False (buildChecks pb propagation assetBase sink clusterPolled)) =
     (if \<not> pb_ready pb then 503 else if \<not> sink \<and> pb_listening pb = Some False then 503 else 200)"
  unfolding CheckAll_status by (auto simp: buildChecks_def Let_def split: option.splits prod.splits)

end
