(* ===== verification/Metrics.thy ===== *)
theory Metrics
  imports Health Lanes Retrieval Announce Reverse
begin

text \<open>
  \<open>internal/metrics\<close>: the recorder, its routes and the collector that turns the
  subsystems' snapshots into Prometheus series.  A metric's value is the integer
  the source converts to \<open>float64\<close>; a descriptor is its full name.  A scrape takes
  one snapshot of each subsystem (the source asks the transaction cache twice).
\<close>

section \<open>Series\<close>

text \<open>The declared series, in the order of \<open>allPairs\<close>.\<close>

datatype series =
    LaneConns | LaneActive | LaneObjects | LaneBytes | LaneErrors
  | LaneDropped | LaneRejected | CacheEntries | CacheBytes | CacheStored
  | CacheHits | CacheMisses | CacheEvicted | CacheExpired | RegistryEntries
  | RegistryDups | SubmitTotal | AnnounceTotal | AnnounceFailures | AnnounceBuffered
  | AnnounceAwaitingPull | PipeEnqueued | PipeBatches | PipeSeals | PipeRetried
  | PipeRetryOK | PipeUnattributed | PipeRateLimited | PipeQueue | RetrievalServed
  | RetrievalMisses | RetrievalErrors | RetrievalUnserved | ReversePublished | ReverseSkipped
  | ReverseFailures | ReverseReconnects | SubmitterActive | UpObjects | UpBytes
  | UpFailures | UpRedials | EchoVerifiedTotal | EchoMismatchTotal | BuildInfo
  | HostInfoDesc

fun series_name :: "series \<Rightarrow> string" where
  "series_name LaneConns = ''lane_connections_total''"
| "series_name LaneActive = ''lane_connections_active''"
| "series_name LaneObjects = ''lane_objects_total''"
| "series_name LaneBytes = ''lane_bytes_total''"
| "series_name LaneErrors = ''lane_handler_errors_total''"
| "series_name LaneDropped = ''lane_connections_dropped_total''"
| "series_name LaneRejected = ''lane_objects_rejected_total''"
| "series_name CacheEntries = ''cache_entries''"
| "series_name CacheBytes = ''cache_bytes''"
| "series_name CacheStored = ''cache_stored_total''"
| "series_name CacheHits = ''cache_hits_total''"
| "series_name CacheMisses = ''cache_misses_total''"
| "series_name CacheEvicted = ''cache_evicted_total''"
| "series_name CacheExpired = ''cache_expired_total''"
| "series_name RegistryEntries = ''registry_entries''"
| "series_name RegistryDups = ''registry_duplicates_total''"
| "series_name SubmitTotal = ''submit_total''"
| "series_name AnnounceTotal = ''announce_total''"
| "series_name AnnounceFailures = ''announce_failures_total''"
| "series_name AnnounceBuffered = ''kafka_producer_buffered_records''"
| "series_name AnnounceAwaitingPull = ''announce_awaiting_pull''"
| "series_name PipeEnqueued = ''txpipe_enqueued_total''"
| "series_name PipeBatches = ''txpipe_batches_total''"
| "series_name PipeSeals = ''txpipe_batch_seals_total''"
| "series_name PipeRetried = ''txpipe_retried_total''"
| "series_name PipeRetryOK = ''txpipe_retry_accepted_total''"
| "series_name PipeUnattributed = ''txpipe_unattributed_total''"
| "series_name PipeRateLimited = ''txpipe_rate_limited_total''"
| "series_name PipeQueue = ''txpipe_queue_depth''"
| "series_name RetrievalServed = ''retrieval_served_total''"
| "series_name RetrievalMisses = ''retrieval_misses_total''"
| "series_name RetrievalErrors = ''retrieval_errors_total''"
| "series_name RetrievalUnserved = ''retrieval_unserved_route_total''"
| "series_name ReversePublished = ''reverse_published_total''"
| "series_name ReverseSkipped = ''reverse_skipped_total''"
| "series_name ReverseFailures = ''reverse_failures_total''"
| "series_name ReverseReconnects = ''reverse_reconnects_total''"
| "series_name SubmitterActive = ''submitter_active''"
| "series_name UpObjects = ''uptunnel_objects_total''"
| "series_name UpBytes = ''uptunnel_bytes_total''"
| "series_name UpFailures = ''uptunnel_failures_total''"
| "series_name UpRedials = ''uptunnel_redials_total''"
| "series_name EchoVerifiedTotal = ''echo_verified_total''"
| "series_name EchoMismatchTotal = ''echo_mismatch_total''"
| "series_name BuildInfo = ''build_info''"
| "series_name HostInfoDesc = ''host_info''"

text \<open>Whether the series existed under the old prefix: \<open>newPair\<close> or \<open>newModern\<close>.\<close>

definition has_legacy :: "series \<Rightarrow> bool" where
  "has_legacy s \<longleftrightarrow> s \<notin> {LaneActive, AnnounceBuffered, AnnounceAwaitingPull, PipeEnqueued}"

definition allPairs :: "series list" where
  "allPairs =
     [LaneConns, LaneActive, LaneObjects, LaneBytes, LaneErrors, LaneDropped,
      LaneRejected, CacheEntries, CacheBytes, CacheStored, CacheHits, CacheMisses,
      CacheEvicted, CacheExpired, RegistryEntries, RegistryDups, SubmitTotal, AnnounceTotal,
      AnnounceFailures, AnnounceBuffered, AnnounceAwaitingPull, PipeEnqueued, PipeBatches, PipeSeals,
      PipeRetried, PipeRetryOK, PipeUnattributed, PipeRateLimited, PipeQueue, RetrievalServed,
      RetrievalMisses, RetrievalErrors, RetrievalUnserved, ReversePublished, ReverseSkipped, ReverseFailures,
      ReverseReconnects, SubmitterActive, UpObjects, UpBytes, UpFailures, UpRedials,
      EchoVerifiedTotal, EchoMismatchTotal, BuildInfo, HostInfoDesc]"

definition modernPrefix :: string where
  "modernPrefix = ''teranode_bridge_''"

definition legacyPrefix :: string where
  "legacyPrefix = ''btb_''"

definition descs :: "bool \<Rightarrow> series \<Rightarrow> string list" where
  "descs legacyOn s =
     (if has_legacy s \<and> legacyOn then [modernPrefix @ series_name s, legacyPrefix @ series_name s]
      else [modernPrefix @ series_name s])"

definition Describe :: "bool \<Rightarrow> string list" where
  "Describe legacyOn = concat (map (descs legacyOn) allPairs)"

datatype value_type = CounterValue | GaugeValue

record sample =
  sm_desc :: string
  sm_type :: value_type
  sm_value :: int
  sm_labels :: "string list"

type_synonym item = "value_type \<times> series \<times> int \<times> string list"

definition emit :: "bool \<Rightarrow> item \<Rightarrow> sample list" where
  "emit dual it = (case it of (t, s, v, labels) \<Rightarrow>
     \<lparr> sm_desc = modernPrefix @ series_name s, sm_type = t, sm_value = v, sm_labels = labels \<rparr> #
     (if dual \<and> has_legacy s
      then [\<lparr> sm_desc = legacyPrefix @ series_name s, sm_type = t, sm_value = v, sm_labels = labels \<rparr>] else []))"

abbreviation counter :: "series \<Rightarrow> nat \<Rightarrow> string list \<Rightarrow> item" where
  "counter s v labels \<equiv> (CounterValue, s, int v, labels)"

abbreviation gauge :: "series \<Rightarrow> int \<Rightarrow> string list \<Rightarrow> item" where
  "gauge s v labels \<equiv> (GaugeValue, s, v, labels)"

section \<open>Sources\<close>

record pipe_Stats =
  ps_Enqueued :: nat
  ps_Accepted :: nat
  ps_Rejected :: nat
  ps_Failed :: nat
  ps_Retried :: nat
  ps_RetryAccepted :: nat
  ps_Unattributed :: nat
  ps_Batches :: nat
  ps_RateLimited :: nat
  ps_SealSize :: nat
  ps_SealBytes :: nat
  ps_SealLinger :: nat
  ps_SealDep :: nat
  ps_Queue :: int

record Sources =
  src_Lanes :: "(string \<times> lane_Stats) list"
  src_Objects :: "cache_Stats option"
  src_Txs :: "cache_Stats option"
  src_Seen :: "registry_Stats option"
  src_Tx :: "pipe_Stats option"
  src_Announce :: "announce_Stats option"
  src_Retrieval :: "retrieval_Stats option"
  src_Reverse :: "reverse_Stats option"
  src_UpTunnels :: "UpStats option list"

record Recorder =
  rec_src :: "Sources option"
  rec_version :: string
  rec_instance :: string
  rec_host :: "string list option"
  rec_ready :: bool
  rec_echoOK :: nat
  rec_echoBad :: nat
  rec_strict :: bool
  rec_checks :: "Check list"
  rec_legacy :: bool
  rec_levelVar :: bool

definition Sources_empty :: Sources where
  "Sources_empty = \<lparr> src_Lanes = [], src_Objects = None, src_Txs = None, src_Seen = None, src_Tx = None, src_Announce = None,
     src_Retrieval = None, src_Reverse = None, src_UpTunnels = [] \<rparr>"

definition metrics_New :: "string \<Rightarrow> string \<Rightarrow> bool \<Rightarrow> bool \<Rightarrow> Recorder" where
  "metrics_New version inst legacy strict =
     \<lparr> rec_src = Some Sources_empty, rec_version = version, rec_instance = inst, rec_host = None, rec_ready = False,
       rec_echoOK = 0, rec_echoBad = 0, rec_strict = strict, rec_checks = [], rec_legacy = legacy,
       rec_levelVar = False \<rparr>"

definition SetSources :: "Sources \<Rightarrow> Recorder \<Rightarrow> Recorder" where
  "SetSources src r = r \<lparr> rec_src := Some src \<rparr>"

definition SetChecks :: "Check list \<Rightarrow> Recorder \<Rightarrow> Recorder" where
  "SetChecks checks r = r \<lparr> rec_checks := checks \<rparr>"

definition EchoVerified :: "Recorder \<Rightarrow> Recorder" where
  "EchoVerified r = r \<lparr> rec_echoOK := rec_echoOK r + 1 \<rparr>"

definition EchoMismatch :: "Recorder \<Rightarrow> Recorder" where
  "EchoMismatch r = r \<lparr> rec_echoBad := rec_echoBad r + 1 \<rparr>"

text \<open>The variable itself belongs to the logging library; the recorder only has it or not.\<close>

definition SetLevelVar :: "Recorder \<Rightarrow> Recorder" where
  "SetLevelVar r = r \<lparr> rec_levelVar := True \<rparr>"

definition SetReady :: "bool \<Rightarrow> Recorder \<Rightarrow> Recorder" where
  "SetReady v r = r \<lparr> rec_ready := v \<rparr>"

section \<open>Collecting\<close>

text \<open>The groups of series one scrape emits, in the collector's order.\<close>

definition identity_items :: "Recorder \<Rightarrow> item list" where
  "identity_items r =
     [gauge BuildInfo 1 [rec_version r, rec_instance r]]
     @ (case rec_host r of None \<Rightarrow> [] | Some labels \<Rightarrow> [gauge HostInfoDesc 1 labels])
     @ [counter EchoVerifiedTotal (rec_echoOK r) [], counter EchoMismatchTotal (rec_echoBad r) []]"

definition lane_items :: "string \<times> lane_Stats \<Rightarrow> item list" where
  "lane_items x = (case x of (name, s) \<Rightarrow>
     [counter LaneConns (lst_Conns s) [name], gauge LaneActive (lst_Active s) [name], counter LaneObjects (lst_Objects s) [name],
      counter LaneBytes (lst_Bytes s) [name], counter LaneErrors (lst_Errors s) [name], counter LaneDropped (lst_Dropped s) [name],
      counter LaneRejected (lst_Rejected s) [name]])"

definition emitCache :: "string \<Rightarrow> cache_Stats \<Rightarrow> item list" where
  "emitCache kind s =
     [gauge CacheEntries (int (cst_Entries s)) [kind], gauge CacheBytes (cst_Bytes s) [kind], counter CacheStored (cst_Stored s) [kind],
      counter CacheHits (cst_Hits s) [kind], counter CacheMisses (cst_Misses s) [kind], counter CacheEvicted (cst_Evicted s) [kind],
      counter CacheExpired (cst_Expired s) [kind]]"

definition registry_items :: "cache_Stats option \<Rightarrow> registry_Stats \<Rightarrow> item list" where
  "registry_items txs s =
     [gauge RegistryEntries (int (rst_Entries s)) [],
      counter RegistryDups (rst_Hits s + (case txs of None \<Rightarrow> 0 | Some t \<Rightarrow> cst_Duplicates t)) []]"

definition pipe_items :: "pipe_Stats \<Rightarrow> item list" where
  "pipe_items s =
     [counter SubmitTotal (ps_Accepted s) [''accepted''], counter SubmitTotal (ps_Rejected s) [''rejected''],
      counter SubmitTotal (ps_Failed s) [''failed''], counter PipeEnqueued (ps_Enqueued s) [], counter PipeBatches (ps_Batches s) [],
      counter PipeSeals (ps_SealSize s) [''size''], counter PipeSeals (ps_SealBytes s) [''bytes''],
      counter PipeSeals (ps_SealLinger s) [''linger''], counter PipeSeals (ps_SealDep s) [''dependency''],
      counter PipeRetried (ps_Retried s) [], counter PipeRetryOK (ps_RetryAccepted s) [],
      counter PipeUnattributed (ps_Unattributed s) [], counter PipeRateLimited (ps_RateLimited s) [], gauge PipeQueue (ps_Queue s) []]"

definition announce_items :: "announce_Stats \<Rightarrow> item list" where
  "announce_items s =
     [counter AnnounceTotal (as_Subtrees s) [''subtree''], counter AnnounceTotal (as_Blocks s) [''block''],
      counter AnnounceFailures (as_Failures s) [], gauge AnnounceBuffered (as_Buffered s) [],
      gauge AnnounceAwaitingPull (int (as_AwaitingPull s)) []]"

text \<open>The unserved routes of no special class: a difference of two \<open>uint64\<close> loads.\<close>

definition unserved_other :: "u64 \<Rightarrow> u64 \<Rightarrow> u64" where
  "unserved_other routes chainSync = routes - chainSync"

definition retrieval_items :: "retrieval_Stats \<Rightarrow> item list" where
  "retrieval_items s =
     [counter RetrievalServed (rt_Subtree s) [''subtree''], counter RetrievalServed (rt_SubtreeData s) [''subtree_data''],
      counter RetrievalServed (rt_Txs s) [''txs''], counter RetrievalServed (rt_Block s) [''block''],
      counter RetrievalMisses (rt_Miss s) [], counter RetrievalErrors (rt_Errors s) [],
      counter RetrievalUnserved (rt_UnservedChainSync s) [''chain_sync''],
      (CounterValue, RetrievalUnserved, uint (unserved_other (of_nat (rt_UnservedRoute s)) (of_nat (rt_UnservedChainSync s))), [''other''])]"

definition reverse_items :: "reverse_Stats \<Rightarrow> item list" where
  "reverse_items s =
     [counter ReversePublished (rs_SubtreesUp s) [''subtree''], counter ReversePublished (rs_BlocksUp s) [''block''],
      counter ReverseSkipped (rs_RemoteSkipped s) [''remote_origin''], counter ReverseSkipped (rs_Skipped s) [''unavailable''],
      counter ReverseSkipped (rs_ForeignSkipped s) [''foreign_origin''], counter ReverseSkipped (rs_Gated s) [''not_ready''],
      counter ReverseSkipped (rs_StandbyHeld s) [''standby''], gauge SubmitterActive (if rs_Active s then 1 else 0) [],
      counter ReverseFailures (rs_Failures s) [], counter ReverseReconnects (rs_Reconnects s) []]"

definition up_items :: "UpStats option \<Rightarrow> item list" where
  "up_items u = (case u of None \<Rightarrow> [] | Some s \<Rightarrow>
     [counter UpObjects (us_Sent s) [us_Class s], counter UpBytes (us_Bytes s) [us_Class s], counter UpFailures (us_Failures s) [us_Class s],
      counter UpRedials (us_Redials s) [us_Class s]])"

definition optional :: "('a \<Rightarrow> item list) \<Rightarrow> 'a option \<Rightarrow> item list" where
  "optional f x = (case x of None \<Rightarrow> [] | Some s \<Rightarrow> f s)"

definition item_groups :: "Recorder \<Rightarrow> Sources \<Rightarrow> item list list" where
  "item_groups r src =
     [identity_items r, concat (map lane_items (src_Lanes src)),
      optional (emitCache ''object'') (src_Objects src) @ optional (emitCache ''tx'') (src_Txs src),
      optional (registry_items (src_Txs src)) (src_Seen src), optional pipe_items (src_Tx src),
      optional announce_items (src_Announce src), optional retrieval_items (src_Retrieval src),
      optional reverse_items (src_Reverse src), concat (map up_items (src_UpTunnels src))]"

definition Collect_metrics :: "Recorder \<Rightarrow> sample list" where
  "Collect_metrics r =
     (case rec_src r of
        None \<Rightarrow> []
      | Some src \<Rightarrow> concat (map (emit (rec_legacy r)) (concat (item_groups r src))))"

section \<open>Routes\<close>

text \<open>
  The patterns \<open>Serve\<close> registers, with whether they name the method \<open>GET\<close>; the
  log-level, metrics and profiling handlers are libraries'.
\<close>

datatype route = RtMetrics | RtHealth bool | RtHealthz | RtReadyz | RtLogLevel | RtPprof string

definition mux_patterns :: "Recorder \<Rightarrow> (string \<times> bool \<times> route) list" where
  "mux_patterns r =
     [(''/metrics'', True, RtMetrics), (''/health'', True, RtHealth False), (''/health/readiness'', True, RtHealth False),
      (''/health/liveness'', True, RtHealth True), (''/healthz'', True, RtHealthz), (''/readyz'', True, RtReadyz)]
     @ (if rec_levelVar r then [(''/loglevel'', False, RtLogLevel)] else [])
     @ [(''/debug/pprof/'', False, RtPprof ''index''), (''/debug/pprof/cmdline'', False, RtPprof ''cmdline''),
        (''/debug/pprof/profile'', False, RtPprof ''profile''), (''/debug/pprof/symbol'', False, RtPprof ''symbol''),
        (''/debug/pprof/trace'', False, RtPprof ''trace'')]"

text \<open>
  How the standard multiplexer chooses: a pattern ending in a slash matches
  every path below it, \<open>GET\<close> also matches \<open>HEAD\<close>, and the longest matching
  pattern wins.  No match is a 405 if a pattern matches but for the method, a
  redirect if only the slash is missing, and a 404 otherwise.
\<close>

definition path_matches :: "string \<Rightarrow> string \<Rightarrow> bool" where
  "path_matches pat path \<longleftrightarrow> (if last pat = CHR ''/'' then has_prefix path pat else path = pat)"

definition method_matches :: "bool \<Rightarrow> string \<Rightarrow> bool" where
  "method_matches getOnly meth \<longleftrightarrow> getOnly \<longrightarrow> meth = ''GET'' \<or> meth = ''HEAD''"

fun longest_pattern :: "(string \<times> bool \<times> route) list \<Rightarrow> (string \<times> bool \<times> route) option" where
  "longest_pattern [] = None"
| "longest_pattern (x # xs) =
     (case longest_pattern xs of
        None \<Rightarrow> Some x
      | Some y \<Rightarrow> if length (fst x) < length (fst y) then Some y else Some x)"

datatype mux_result = Routed route | MethodNotAllowed | Redirected string | NotFound

definition mux_dispatch :: "string \<Rightarrow> string \<Rightarrow> Recorder \<Rightarrow> mux_result" where
  "mux_dispatch meth path r =
     (let hits = filter (\<lambda>(pat, g, rt). path_matches pat path) (mux_patterns r) in
      case longest_pattern (filter (\<lambda>(pat, g, rt). method_matches g meth) hits) of
        Some (pat, g, rt) \<Rightarrow> Routed rt
      | None \<Rightarrow>
          if hits \<noteq> [] then MethodNotAllowed
          else if list_ex (\<lambda>(pat, g, rt). pat = path @ ''/'') (mux_patterns r) then Redirected (path @ ''/'')
          else NotFound)"

text \<open>What the package answers itself: the status, with the report where there is one.\<close>

definition serve_route :: "(string \<Rightarrow> duration option) \<Rightarrow> string \<Rightarrow> string \<Rightarrow> string \<Rightarrow> Recorder \<Rightarrow>
    (int \<times> Report option) option" where
  "serve_route parse meth path query r =
     (case mux_dispatch meth path r of
        Routed (RtHealth live) \<Rightarrow>
          (case Handler parse live (rec_strict r) (rec_checks r) query of (d, st, rep) \<Rightarrow> Some (st, Some rep))
      | Routed RtHealthz \<Rightarrow> Some (200, None)
      | Routed RtReadyz \<Rightarrow> Some (if rec_ready r then 200 else 503, None)
      | Routed _ \<Rightarrow> None
      | MethodNotAllowed \<Rightarrow> Some (405, None)
      | Redirected _ \<Rightarrow> Some (301, None)
      | NotFound \<Rightarrow> Some (404, None))"

text \<open>
  The failover contract of the narrow route: it answers the lanes' readiness
  and nothing else, so no dependency's state, no strictness and no source can
  change it; the route of the process' life always answers.
\<close>

theorem readyz_contract:
  "serve_route parse ''GET'' ''/readyz'' query r = Some (if rec_ready r then 200 else 503, None) \<and>
   serve_route parse ''GET'' ''/healthz'' query r = Some (200, None) \<and>
   serve_route parse ''GET'' ''/readyz'' query (SetChecks checks (SetSources src r)) =
     serve_route parse ''GET'' ''/readyz'' query r"
  by (simp add: serve_route_def mux_dispatch_def mux_patterns_def path_matches_def method_matches_def SetChecks_def SetSources_def)

lemma longest_pattern_in: "longest_pattern xs = Some x \<Longrightarrow> x \<in> set xs"
  by (induction xs arbitrary: x) (auto split: option.splits if_splits)

lemma mux_dispatch_Routed:
  assumes "mux_dispatch meth path r = Routed rt"
  obtains pat g where "(pat, g, rt) \<in> set (mux_patterns r)" "path_matches pat path" "method_matches g meth"
  using assms by (auto simp: mux_dispatch_def Let_def split: option.splits if_splits dest!: longest_pattern_in)

text \<open>Nothing of the endpoint but the log level and the profiler takes another method.\<close>

theorem endpoint_read_only:
  "mux_dispatch ''POST'' path r \<in> {MethodNotAllowed, NotFound, Routed RtLogLevel, Redirected (path @ ''/'')} \<or>
   has_prefix path ''/debug/pprof/''"
proof (cases "mux_dispatch ''POST'' path r")
  case (Routed rt)
  then obtain pat g where m: "(pat, g, rt) \<in> set (mux_patterns r)" "path_matches pat path" "method_matches g ''POST''"
    by (rule mux_dispatch_Routed)
  have "\<not> g" using m(3) by (simp add: method_matches_def)
  then consider "rt = RtLogLevel" | "pat = ''/debug/pprof/''" | "pat \<in> {''/debug/pprof/cmdline'', ''/debug/pprof/profile'',
      ''/debug/pprof/symbol'', ''/debug/pprof/trace''}"
    using m(1) by (auto simp: mux_patterns_def split: if_splits)
  then show ?thesis using m(2) Routed by cases (auto simp: path_matches_def)
qed (auto simp: mux_dispatch_def Let_def split: option.splits if_splits)

section \<open>One sample per series and label\<close>

text \<open>Which group of the collector a series belongs to.\<close>

fun group_of :: "series \<Rightarrow> nat" where
  "group_of BuildInfo = 0" | "group_of HostInfoDesc = 0" | "group_of EchoVerifiedTotal = 0" | "group_of EchoMismatchTotal = 0"
| "group_of LaneConns = 1" | "group_of LaneActive = 1" | "group_of LaneObjects = 1" | "group_of LaneBytes = 1"
| "group_of LaneErrors = 1" | "group_of LaneDropped = 1" | "group_of LaneRejected = 1"
| "group_of CacheEntries = 2" | "group_of CacheBytes = 2" | "group_of CacheStored = 2" | "group_of CacheHits = 2"
| "group_of CacheMisses = 2" | "group_of CacheEvicted = 2" | "group_of CacheExpired = 2"
| "group_of RegistryEntries = 3" | "group_of RegistryDups = 3"
| "group_of AnnounceTotal = 5" | "group_of AnnounceFailures = 5" | "group_of AnnounceBuffered = 5" | "group_of AnnounceAwaitingPull = 5"
| "group_of RetrievalServed = 6" | "group_of RetrievalMisses = 6" | "group_of RetrievalErrors = 6" | "group_of RetrievalUnserved = 6"
| "group_of ReversePublished = 7" | "group_of ReverseSkipped = 7" | "group_of ReverseFailures = 7" | "group_of ReverseReconnects = 7"
| "group_of SubmitterActive = 7"
| "group_of UpObjects = 8" | "group_of UpBytes = 8" | "group_of UpFailures = 8" | "group_of UpRedials = 8"
| "group_of _ = 4"

definition item_key :: "item \<Rightarrow> series \<times> string list" where
  "item_key it = (case it of (t, s, v, l) \<Rightarrow> (s, l))"

definition sample_key :: "sample \<Rightarrow> string \<times> string list" where
  "sample_key m = (sm_desc m, sm_labels m)"

definition in_group :: "nat \<Rightarrow> item list \<Rightarrow> bool" where
  "in_group n its \<longleftrightarrow> list_all (\<lambda>it. group_of (fst (item_key it)) = n) its"

lemma item_key_simps [simp]: "item_key (t, s, v, l) = (s, l)"
  by (simp add: item_key_def)

lemma in_group_simps [simp]:
  "in_group n []" "in_group n ((t, s, v, l) # its) \<longleftrightarrow> group_of s = n \<and> in_group n its"
  "in_group n (a @ b) \<longleftrightarrow> in_group n a \<and> in_group n b"
  by (simp_all add: in_group_def)

lemma in_group_concat: "\<forall>x \<in> set xs. in_group n (f x) \<Longrightarrow> in_group n (concat (map f xs))"
  by (induction xs) simp_all

text \<open>The groups, one after the other, are the groups \<open>n\<close>, \<open>n + 1\<close> and so on.\<close>

fun placed :: "nat \<Rightarrow> item list list \<Rightarrow> bool" where
  "placed n [] \<longleftrightarrow> True"
| "placed n (g # gs) \<longleftrightarrow> in_group n g \<and> placed (n + 1) gs"

lemma image_disjoint: "(\<And>a b. a \<in> A \<Longrightarrow> b \<in> B \<Longrightarrow> f a \<noteq> f b) \<Longrightarrow> f ` A \<inter> f ` B = {}"
  by blast

lemma distinct_groups:
  "list_all (\<lambda>g. distinct (map item_key g)) gs \<Longrightarrow> placed n gs \<Longrightarrow>
   distinct (map item_key (concat gs)) \<and> (\<forall>it \<in> set (concat gs). n \<le> group_of (fst (item_key it)))"
proof (induction gs arbitrary: n)
  case (Cons g gs)
  have IH: "distinct (map item_key (concat gs))" "\<forall>it \<in> set (concat gs). n + 1 \<le> group_of (fst (item_key it))"
    using Cons.IH [of "n + 1"] Cons.prems by simp_all
  have hi: "n + 1 \<le> group_of (fst (item_key it))" if "it \<in> set (concat gs)" for it using IH(2) that by blast
  have lo: "group_of (fst (item_key it)) = n" if "it \<in> set g" for it
    using Cons.prems(2) that by (simp add: in_group_def list_all_iff)
  have "item_key ` set g \<inter> item_key ` set (concat gs) = {}"
  proof (rule image_disjoint)
    fix a b assume "a \<in> set g" "b \<in> set (concat gs)"
    then show "item_key a \<noteq> item_key b" using lo [of a] hi [of b] by auto
  qed
  moreover have "n \<le> group_of (fst (item_key it))" if "it \<in> set (concat (g # gs))" for it
    using that lo [of it] hi [of it] by (auto simp del: set_concat)
  ultimately show ?case using Cons.prems(1) IH(1) by (simp del: set_concat)
qed simp

lemma distinct_labelled:
  assumes "\<And>x. x \<in> set xs \<Longrightarrow> distinct (map item_key (f x))"
    and "\<And>x it. x \<in> set xs \<Longrightarrow> it \<in> set (f x) \<Longrightarrow> snd (item_key it) = lab x" and "distinct (map lab xs)"
  shows "distinct (map item_key (concat (map f xs)))"
  using assms
proof (induction xs)
  case (Cons x xs)
  have "snd (item_key a) \<noteq> snd (item_key b)" if "a \<in> set (f x)" "b \<in> set (concat (map f xs))" for a b
  proof -
    obtain y where "y \<in> set xs" "b \<in> set (f y)" using \<open>b \<in> set (concat (map f xs))\<close> by auto
    moreover from this have "lab x \<noteq> lab y" using Cons.prems(3) by auto
    ultimately show ?thesis using Cons.prems(2) [of x a] Cons.prems(2) [of y b] that(1) by simp
  qed
  then have "item_key ` set (f x) \<inter> item_key ` set (concat (map f xs)) = {}" by (intro image_disjoint) metis
  moreover have "distinct (map item_key (concat (map f xs)))" using Cons by simp
  ultimately show ?case using Cons.prems(1) by simp
qed simp

lemma allPairs_UNIV: "s \<in> set allPairs"
  by (cases s) (simp_all add: allPairs_def)

lemma distinct_allPairs: "distinct allPairs"
  by (simp add: allPairs_def)

lemma distinct_series_names: "distinct (map series_name allPairs)"
  by code_simp

lemma series_name_inject: "series_name s = series_name s' \<longleftrightarrow> s = s'"
  using distinct_series_names allPairs_UNIV by (auto simp: distinct_map dest: inj_onD)

lemma descs_disjoint: "s \<noteq> s' \<Longrightarrow> set (descs d s) \<inter> set (descs d s') = {}"
  by (auto simp: descs_def series_name_inject modernPrefix_def legacyPrefix_def)

lemma distinct_descs: "distinct (descs d s)"
  by (simp add: descs_def modernPrefix_def legacyPrefix_def)

lemma emit_keys: "map sample_key (emit d it) = map (\<lambda>n. (n, snd (item_key it))) (descs d (fst (item_key it)))"
  by (cases it) (auto simp: emit_def descs_def sample_key_def)

lemma distinct_emitted:
  "distinct (map item_key its) \<Longrightarrow> distinct (map sample_key (concat (map (emit d) its)))"
proof (induction its)
  case (Cons it its)
  have "set (map sample_key (emit d it)) \<inter> set (map sample_key (emit d jt)) = {}" if "jt \<in> set its" for jt
  proof -
    have "item_key it \<noteq> item_key jt" using Cons.prems that by auto
    then have "fst (item_key it) \<noteq> fst (item_key jt) \<or> snd (item_key it) \<noteq> snd (item_key jt)" by (metis prod.collapse)
    then show ?thesis
      unfolding emit_keys using descs_disjoint [of "fst (item_key it)" "fst (item_key jt)" d] by auto
  qed
  then have "set (map sample_key (emit d it)) \<inter> (\<Union>jt \<in> set its. set (map sample_key (emit d jt))) = {}"
    unfolding Int_UN_distrib by (intro equalityI UN_least) simp_all
  moreover have "set (map sample_key (concat (map (emit d) its))) = (\<Union>jt \<in> set its. set (map sample_key (emit d jt)))" by auto
  moreover have "distinct (map sample_key (emit d it))"
    unfolding emit_keys by (simp add: distinct_map distinct_descs inj_on_def)
  ultimately show ?case using Cons by simp
qed simp

lemma emitted_described: "m \<in> set (concat (map (emit d) its)) \<Longrightarrow> sm_desc m \<in> set (Describe d)"
proof -
  assume "m \<in> set (concat (map (emit d) its))"
  then obtain it where "m \<in> set (emit d it)" by auto
  then have "sample_key m \<in> set (map sample_key (emit d it))" by simp
  then have "sm_desc m \<in> set (descs d (fst (item_key it)))" unfolding emit_keys by (auto simp: sample_key_def)
  then show ?thesis using allPairs_UNIV by (auto simp: Describe_def)
qed

lemma in_group_optional: "(\<And>s. in_group n (f s)) \<Longrightarrow> in_group n (optional f x)"
  by (cases x) (simp_all add: optional_def)

lemma group_facts:
  "in_group 0 (identity_items r)" "in_group 1 (lane_items l)" "in_group 2 (emitCache kind cs)" "in_group 3 (registry_items txs rs)"
  "in_group 4 (pipe_items ps)" "in_group 5 (announce_items as)" "in_group 6 (retrieval_items rt)" "in_group 7 (reverse_items rv)"
  "in_group 8 (up_items u)"
  by (simp_all add: identity_items_def lane_items_def emitCache_def registry_items_def pipe_items_def announce_items_def
      retrieval_items_def reverse_items_def up_items_def split: option.splits prod.splits)

lemma groups_in_place: "placed 0 (item_groups r src)"
  using group_facts by (simp add: item_groups_def in_group_optional in_group_concat eval_nat_numeral)

lemma key_facts:
  "distinct (map item_key (identity_items r))" "distinct (map item_key (emitCache kind cs))"
  "distinct (map item_key (registry_items txs rs))" "distinct (map item_key (pipe_items ps))"
  "distinct (map item_key (announce_items as))" "distinct (map item_key (retrieval_items rt))" "distinct (map item_key (reverse_items rv))"
  by (simp_all add: identity_items_def emitCache_def registry_items_def pipe_items_def announce_items_def
      retrieval_items_def reverse_items_def split: option.splits)

lemma distinct_optional: "(\<And>s. distinct (map item_key (f s))) \<Longrightarrow> distinct (map item_key (optional f x))"
  by (cases x) (simp_all add: optional_def)

lemma caches_distinct: "distinct (map item_key (optional (emitCache ''object'') x @ optional (emitCache ''tx'') y))"
  by (cases x; cases y) (simp_all add: optional_def emitCache_def)

lemma groups_distinct:
  assumes "distinct (map fst (src_Lanes src))" and "distinct (map us_Class (List.map_filter id (src_UpTunnels src)))"
  shows "list_all (\<lambda>g. distinct (map item_key g)) (item_groups r src)"
proof -
  have lanes: "distinct (map item_key (concat (map lane_items (src_Lanes src))))"
  proof (rule distinct_labelled [where lab = "\<lambda>x. [fst x]"])
    show "distinct (map (\<lambda>x. [fst x]) (src_Lanes src))" using assms(1) by (simp add: distinct_map inj_on_def)
  qed (auto simp: lane_items_def)
  have "concat (map up_items us) = concat (map (up_items \<circ> Some) (List.map_filter id us))" for us
    by (induction us) (auto simp: List.map_filter_def up_items_def)
  moreover have "distinct (map item_key (concat (map (up_items \<circ> Some) (List.map_filter id (src_UpTunnels src)))))"
  proof (rule distinct_labelled [where lab = "\<lambda>x. [us_Class x]"])
    show "distinct (map (\<lambda>x. [us_Class x]) (List.map_filter id (src_UpTunnels src)))"
      using assms(2) by (simp add: distinct_map inj_on_def)
  qed (auto simp: up_items_def)
  ultimately show ?thesis using lanes caches_distinct by (simp add: item_groups_def key_facts distinct_optional)
qed

section \<open>The unserved-route difference\<close>

text \<open>
  One request for a chain-sync route and one scrape, load by load: \<open>notFound\<close>
  adds to the chain-sync counter and then to the route counter, and \<open>Stats\<close> loads
  the route counter and then the chain-sync counter.
\<close>

datatype unserved_op = AddChainSync | AddRoute | LoadRoute | LoadChainSync

record unserved =
  un_route :: u64
  un_chain :: u64
  un_loaded_route :: u64
  un_loaded_chain :: u64

fun unserved_step :: "unserved_op \<Rightarrow> unserved \<Rightarrow> unserved" where
  "unserved_step AddChainSync u = u \<lparr> un_chain := un_chain u + 1 \<rparr>"
| "unserved_step AddRoute u = u \<lparr> un_route := un_route u + 1 \<rparr>"
| "unserved_step LoadRoute u = u \<lparr> un_loaded_route := un_route u \<rparr>"
| "unserved_step LoadChainSync u = u \<lparr> un_loaded_chain := un_chain u \<rparr>"

section \<open>Properties\<close>

text \<open>
  A scrape is well formed.  With the lanes' names and the tunnels' classes
  distinct, no two samples of a scrape carry the same name and labels, with the
  legacy prefix on or off, and every name is one the collector has described;
  either fault would fail the whole scrape.
\<close>

lemma scrape_well_formed:
  assumes "rec_src r = Some src" and "distinct (map fst (src_Lanes src))"
    and "distinct (map us_Class (List.map_filter id (src_UpTunnels src)))"
  shows "distinct (map (\<lambda>m. (sm_desc m, sm_labels m)) (Collect_metrics r)) \<and>
    sm_desc ` set (Collect_metrics r) \<subseteq> set (Describe (rec_legacy r))"
proof -
  have "distinct (map item_key (concat (item_groups r src)))"
    using distinct_groups [OF groups_distinct [OF assms(2,3)] groups_in_place] by blast
  from distinct_emitted [OF this] have "distinct (map sample_key (Collect_metrics r))" using assms(1) by (simp add: Collect_metrics_def)
  moreover have "sample_key = (\<lambda>m. (sm_desc m, sm_labels m))" by (simp add: fun_eq_iff sample_key_def)
  moreover have "sm_desc ` set (Collect_metrics r) \<subseteq> set (Describe (rec_legacy r))"
    using emitted_described assms(1) by (auto simp: Collect_metrics_def simp del: set_concat)
  ultimately show ?thesis by simp
qed

text \<open>
  The \<open>other\<close> class of unserved routes can wrap.  A scrape that loads the route
  counter before, and the chain-sync counter after, a request for a chain-sync
  route subtracts one more than it loaded: starting from no requests the sample
  is \<open>2 ^ 64 - 1\<close>.  With no request in between, it is the difference.
\<close>

theorem unserved_other_wraps:
  "let u0 = \<lparr> un_route = 0, un_chain = 0, un_loaded_route = 0, un_loaded_chain = 0 \<rparr>;
       raced = fold unserved_step [LoadRoute, AddChainSync, AddRoute, LoadChainSync] u0;
       quiet = fold unserved_step [AddChainSync, AddRoute, LoadRoute, LoadChainSync] u0 in
   uint (unserved_other (un_loaded_route raced) (un_loaded_chain raced)) = 2 ^ 64 - 1 \<and>
   uint (unserved_other (un_loaded_route quiet) (un_loaded_chain quiet)) = 0"
  by (simp add: unserved_other_def unsigned_minus_1_eq_mask mask_eq_exp_minus_1)

end
