(* ===== verification/Txsubmit.thy ===== *)
theory Txsubmit
  imports Txpipe
begin

text \<open>
  Submission in \<open>internal/txpipe\<close>: reading the server's partial-failure report,
  settling a batch against it, the endpoint failover and rate-limit ladder of
  a first submission, and the retry ladder for what it leaves undelivered.
  The HTTP exchange, the timers and the context are the environment: functions
  of the number of the request, the endpoint and the body.
\<close>

section \<open>The failure report\<close>

text \<open>
  \<open>strings.ToLower\<close> on a byte string, as far as an ASCII search can see: the
  ASCII capitals and the two non-ASCII letters whose lower case is ASCII
  (U+0130 and U+212A).  Every other non-ASCII sequence stays non-ASCII.
\<close>

definition lower_char :: "char \<Rightarrow> char" where
  "lower_char ch =
     (let n = of_char ch :: nat in if 65 \<le> n \<and> n \<le> 90 then char_of (n + 32) else ch)"

fun to_lower :: "string \<Rightarrow> string" where
  "to_lower [] = []"
| "to_lower (a # s) =
     (case s of
        b # c # r \<Rightarrow>
          if (of_char a :: nat) = 0xE2 \<and> (of_char b :: nat) = 0x84 \<and> (of_char c :: nat) = 0xAA
          then CHR ''k'' # to_lower r
          else if (of_char a :: nat) = 0xC4 \<and> (of_char b :: nat) = 0xB0 then CHR ''i'' # to_lower (c # r)
          else lower_char a # to_lower s
      | [b] \<Rightarrow>
          if (of_char a :: nat) = 0xC4 \<and> (of_char b :: nat) = 0xB0 then ''i''
          else lower_char a # to_lower s
      | [] \<Rightarrow> [lower_char a])"

definition partialPrefix :: string where
  "partialPrefix = ''Failed to process transactions''"

definition isMissingParent :: "string \<Rightarrow> bool" where
  "isMissingParent line \<longleftrightarrow>
     contains line ''MISSING_PARENT'' \<or> contains (to_lower line) ''missing parent''"

definition isRetryable :: "string \<Rightarrow> bool" where
  "isRetryable line \<longleftrightarrow> isMissingParent line \<or> contains line ''THRESHOLD_EXCEEDED''"

text \<open>The character class and the leftmost match of \<open>\[([0-9a-f]{64})\]\<close>.\<close>

definition lower_hex :: "char \<Rightarrow> bool" where
  "lower_hex ch = (let n = of_char ch :: nat in 48 \<le> n \<and> n \<le> 57 \<or> 97 \<le> n \<and> n \<le> 102)"

definition match_txid :: "string \<Rightarrow> string option" where
  "match_txid s =
     (let h = take 64 (drop 1 s) in
      if take 1 s = ''['' \<and> length h = 64 \<and> list_all lower_hex h \<and> take 1 (drop 65 s) = '']''
      then Some h else None)"

fun subjectTxID :: "string \<Rightarrow> string option" where
  "subjectTxID [] = None"
| "subjectTxID (ch # s) =
     (case match_txid (ch # s) of Some h \<Rightarrow> Some h | None \<Rightarrow> subjectTxID s)"

definition report_lines :: "string \<Rightarrow> string list" where
  "report_lines b = split_on (CHR 0x0A) b"

definition namesMember :: "string \<Rightarrow> bool" where
  "namesMember b = list_ex (\<lambda>line. subjectTxID line \<noteq> None) (report_lines b)"

definition firstLine :: "string \<Rightarrow> string" where
  "firstLine s =
     (if CHR 0x0A \<in> set s then takeWhile (\<lambda>ch. ch \<noteq> CHR 0x0A) s
      else if length s > 200 then take 200 s else s)"

section \<open>Counters and the environment\<close>

record counters =
  enqueued :: nat
  accepted :: nat
  rejected :: nat
  failed :: nat
  retried :: nat
  retryAccepted :: nat
  unattributed :: nat
  batches :: nat
  rateLimited :: nat
  next_post :: nat

definition counters_zero :: counters where
  "counters_zero = \<lparr> enqueued = 0, accepted = 0, rejected = 0, failed = 0, retried = 0, retryAccepted = 0,
     unattributed = 0, batches = 0, rateLimited = 0, next_post = 0 \<rparr>"

datatype response = TransportError | Status int string

text \<open>
  \<open>env_post n\<close> answers the \<open>n\<close>-th request; \<open>env_wait\<close> says whether the timer
  fires before the context is cancelled, \<open>env_slot\<close> the same for an in-flight
  slot.
\<close>

record http_env =
  env_post :: "nat \<Rightarrow> string \<Rightarrow> bytes \<Rightarrow> response"
  env_wait :: "nat \<Rightarrow> duration \<Rightarrow> bool"
  env_slot :: "nat \<Rightarrow> bool"

text \<open>The endpoint of the next request and the advanced request counter.\<close>

definition next_endpoint :: "pipe_Config \<Rightarrow> counters \<Rightarrow> string" where
  "next_endpoint c k = Endpoints c ! (next_post k mod length (Endpoints c))"

text \<open>\<open>io.LimitReader(resp.Body, 1<<20)\<close>: what of a response's body is read.\<close>

definition response_limit :: nat where
  "response_limit = 2 ^ 20"

fun limit_response :: "response \<Rightarrow> response" where
  "limit_response TransportError = TransportError"
| "limit_response (Status status b) = Status status (take response_limit b)"

definition post :: "pipe_Config \<Rightarrow> http_env \<Rightarrow> bytes \<Rightarrow> counters \<Rightarrow> response \<times> counters" where
  "post c E b k =
     (limit_response (env_post E (next_post k) (next_endpoint c k @ ''/txs'') b), k \<lparr> next_post := next_post k + 1 \<rparr>)"

text \<open>The guard both ladders use to read a response as a per-member report.\<close>

definition is_report :: "int \<Rightarrow> string \<Rightarrow> bool" where
  "is_report status b \<longleftrightarrow> has_prefix b partialPrefix \<and> (status = 500 \<or> namesMember b)"

section \<open>Settling a partial failure\<close>

text \<open>
  The lines that name a transaction: the map from the named identifiers in
  \<open>mine\<close> to whether their last line was retryable, and the number of lines
  naming a stranger.
\<close>

definition read_line :: "string set \<Rightarrow> string \<Rightarrow> (string \<rightharpoonup> bool) \<times> nat \<Rightarrow> (string \<rightharpoonup> bool) \<times> nat" where
  "read_line mine line st =
     (case subjectTxID line of
        None \<Rightarrow> st
      | Some i \<Rightarrow>
          if i \<in> mine then ((fst st)(i \<mapsto> isRetryable line), snd st)
          else (fst st, snd st + 1))"

definition read_report :: "string set \<Rightarrow> string \<Rightarrow> (string \<rightharpoonup> bool) \<times> nat" where
  "read_report mine b = fold (read_line mine) (report_lines b) (Map.empty, 0)"

definition to_retry :: "(string \<rightharpoonup> bool) \<Rightarrow> job list \<Rightarrow> job list" where
  "to_retry m js = filter (\<lambda>j. m (Display (jid j)) = Some True) js"

definition final_count :: "(string \<rightharpoonup> bool) \<Rightarrow> job list \<Rightarrow> nat" where
  "final_count m js = length (filter (\<lambda>j. m (Display (jid j)) = Some False) js)"

text \<open>The updated counters and the jobs handed to a retry goroutine, if any.\<close>

definition settlePartial :: "pipe_Config \<Rightarrow> job list \<Rightarrow> string \<Rightarrow> counters \<Rightarrow> counters \<times> job list" where
  "settlePartial c js b k =
     (let mine = set (map (\<lambda>j. Display (jid j)) js);
          (failedIDs, unatt) = read_report mine b;
          toRetry = to_retry failedIDs js;
          final = final_count failedIDs js;
          k = k \<lparr> rejected := rejected k + final, unattributed := unattributed k + unatt \<rparr>;
          ok = int (length js) - int (length toRetry) - int final - int unatt;
          k = k \<lparr> accepted := accepted k + nat (if ok < 0 then 0 else ok) \<rparr>
      in if RetryAttempts c \<le> 0 \<or> toRetry = []
         then (k \<lparr> rejected := rejected k + length toRetry \<rparr>, [])
         else (k, toRetry))"

section \<open>First submission\<close>

definition rateLimitBackoff :: "duration list" where
  "rateLimitBackoff = [20 * millisecond, 80 * millisecond, 320 * millisecond]"

function submit_loop :: "pipe_Config \<Rightarrow> http_env \<Rightarrow> batch \<Rightarrow> nat \<Rightarrow> nat \<Rightarrow> counters \<Rightarrow> counters \<times> job list" where
  "submit_loop c E b attempt throttled k =
     (if attempt < throttled + 2 then
        (case post c E (body b) k of (r, k) \<Rightarrow>
         (case r of
            TransportError \<Rightarrow> submit_loop c E b (attempt + 1) throttled k
          | Status status resp \<Rightarrow>
              if status = 200 then (k \<lparr> accepted := accepted k + length (jobs b) \<rparr>, [])
              else if is_report status resp then settlePartial c (jobs b) resp k
              else if status = 429 then
                (let k = k \<lparr> rateLimited := rateLimited k + 1 \<rparr> in
                 if throttled \<ge> length rateLimitBackoff
                 then (k \<lparr> failed := failed k + length (jobs b) \<rparr>, [])
                 else if \<not> env_wait E (next_post k) (rateLimitBackoff ! throttled)
                 then (k \<lparr> failed := failed k + length (jobs b) \<rparr>, [])
                 else submit_loop c E b (attempt + 1) (throttled + 1) k)
              else submit_loop c E b (attempt + 1) throttled k))
      else if RetryAttempts c > 0 then (k, jobs b)
      else (k \<lparr> failed := failed k + length (jobs b) \<rparr>, []))"
  by pat_completeness auto
termination
  by (relation "measures [\<lambda>(c, E, b, attempt, throttled, k). length rateLimitBackoff - throttled,
        \<lambda>(c, E, b, attempt, throttled, k). throttled + 2 - attempt]") auto

declare submit_loop.simps [simp del]

definition submit :: "pipe_Config \<Rightarrow> http_env \<Rightarrow> batch \<Rightarrow> counters \<Rightarrow> counters \<times> job list" where
  "submit c E b k = submit_loop c E b 0 0 (k \<lparr> batches := batches k + 1 \<rparr>)"

section \<open>The retry ladder\<close>

definition retry_delays :: "duration list" where
  "retry_delays = [25 * millisecond, 100 * millisecond, 400 * millisecond, 1600 * millisecond, 3200 * millisecond]"

definition named_report :: "string \<Rightarrow> string \<rightharpoonup> bool" where
  "named_report b =
     fold (\<lambda>line m. case subjectTxID line of None \<Rightarrow> m | Some i \<Rightarrow> m(i \<mapsto> isRetryable line))
       (report_lines b) Map.empty"

text \<open>What a report leaves pending, with the rest booked.\<close>

definition settle_retry :: "string \<Rightarrow> job list \<Rightarrow> counters \<Rightarrow> counters \<times> job list" where
  "settle_retry resp pending k =
     (let named = named_report resp;
          nxt = to_retry named pending;
          final = final_count named pending;
          ok = length pending - length nxt - final
      in (k \<lparr> retryAccepted := retryAccepted k + ok, accepted := accepted k + ok,
              rejected := rejected k + final \<rparr>, nxt))"

text \<open>\<open>n\<close> attempts are left; \<open>attempt\<close> counts those made.\<close>

fun retry_loop :: "pipe_Config \<Rightarrow> http_env \<Rightarrow> nat \<Rightarrow> nat \<Rightarrow> job list \<Rightarrow> counters \<Rightarrow> counters" where
  "retry_loop c E 0 attempt pending k = k \<lparr> rejected := rejected k + length pending \<rparr>"
| "retry_loop c E (Suc n) attempt pending k =
     (if pending = [] then k
      else if \<not> env_wait E (next_post k) (retry_delays ! min attempt (length retry_delays - 1))
      then k \<lparr> failed := failed k + length pending \<rparr>
      else if \<not> env_slot E (next_post k) then k \<lparr> failed := failed k + length pending \<rparr>
      else (case post c E (concat (map raw pending)) k of (r, k) \<Rightarrow>
        (case r of
           TransportError \<Rightarrow> retry_loop c E n (attempt + 1) pending k
         | Status status resp \<Rightarrow>
             if status = 200 then
               k \<lparr> retryAccepted := retryAccepted k + length pending, accepted := accepted k + length pending \<rparr>
             else if is_report status resp then
               (case settle_retry resp pending k of (k, nxt) \<Rightarrow> retry_loop c E n (attempt + 1) nxt k)
             else if status = 429 then
               retry_loop c E n (attempt + 1) pending (k \<lparr> rateLimited := rateLimited k + 1 \<rparr>)
             else if status = 422 then retry_loop c E n (attempt + 1) pending k
             else k \<lparr> rejected := rejected k + length pending \<rparr>)))"

definition retryBatch :: "pipe_Config \<Rightarrow> http_env \<Rightarrow> job list \<Rightarrow> counters \<Rightarrow> counters" where
  "retryBatch c E js k =
     (if js = [] then k
      else retry_loop c E (nat (RetryAttempts c)) 0 js (k \<lparr> retried := retried k + length js \<rparr>))"

section \<open>Reading reports\<close>

text \<open>A bracketed 64-digit lower-case hexadecimal token.\<close>

definition bracketed :: "string \<Rightarrow> string \<Rightarrow> bool" where
  "bracketed line h \<longleftrightarrow> length h = 64 \<and> list_all lower_hex h \<and> contains line (''['' @ h @ '']'')"

lemma match_txid_iff:
  "match_txid s = Some h \<longleftrightarrow> length h = 64 \<and> list_all lower_hex h \<and> has_prefix s (''['' @ h @ '']'')"
proof
  assume m: "match_txid s = Some h"
  then have p: "take 1 s = ''[''" "h = take 64 (drop 1 s)" "length h = 64" "list_all lower_hex h"
    "take 1 (drop 65 s) = '']''"
    unfolding match_txid_def Let_def by (metis option.distinct(1) option.inject)+
  have "take 1 s @ drop 1 s = s" "take 64 (drop 1 s) @ drop 65 s = drop 1 s"
    "take 1 (drop 65 s) @ drop 66 s = drop 65 s"
    using append_take_drop_id [of 64 "drop 1 s"] append_take_drop_id [of 1 "drop 65 s"] by simp_all
  then have "s = (''['' @ h @ '']'') @ drop 66 s" using p by (metis append.assoc)
  then show "length h = 64 \<and> list_all lower_hex h \<and> has_prefix s (''['' @ h @ '']'')"
    using p unfolding has_prefix_iff by blast
next
  assume "length h = 64 \<and> list_all lower_hex h \<and> has_prefix s (''['' @ h @ '']'')"
  then obtain r where "s = CHR ''['' # h @ CHR '']'' # r" "length h = 64" "list_all lower_hex h"
    by (auto simp: has_prefix_iff)
  then show "match_txid s = Some h" by (simp add: match_txid_def)
qed

lemma subjectTxID_bracketed: "subjectTxID line = Some h \<Longrightarrow> bracketed line h"
proof (induction line)
  case (Cons ch line)
  then show ?case
    by (cases "match_txid (ch # line)") (auto simp: bracketed_def match_txid_iff)
qed simp

lemma subjectTxID_None: "subjectTxID line = None \<Longrightarrow> \<not> bracketed line h"
proof (induction line)
  case (Cons ch line)
  then have "match_txid (ch # line) = None" "\<not> bracketed line h" by (auto split: option.splits)
  then show ?case using match_txid_iff [of "ch # line" h] by (auto simp: bracketed_def)
qed (auto simp: bracketed_def)

text \<open>The last line of a report that names \<open>i\<close>, and the lines that name strangers.\<close>

definition last_line :: "string \<Rightarrow> string list \<Rightarrow> string option" where
  "last_line i ls = find (\<lambda>l. subjectTxID l = Some i) (rev ls)"

definition stranger_lines :: "string set \<Rightarrow> string list \<Rightarrow> nat" where
  "stranger_lines mine ls = length (filter (\<lambda>l. case subjectTxID l of None \<Rightarrow> False | Some i \<Rightarrow> i \<notin> mine) ls)"

lemma find_append: "find P (xs @ ys) = (case find P xs of None \<Rightarrow> find P ys | Some x \<Rightarrow> Some x)"
  by (induction xs) auto

lemma fold_read_line:
  "fold (read_line mine) ls (Map.empty, 0) =
     (\<lambda>i. if i \<in> mine then map_option isRetryable (last_line i ls) else None, stranger_lines mine ls)"
proof (induction ls rule: rev_induct)
  case (snoc l ls)
  then show ?case
    by (auto simp: read_line_def last_line_def stranger_lines_def fun_eq_iff split: option.splits)
qed (auto simp: last_line_def stranger_lines_def)

lemma read_report_eq:
  "read_report mine b =
     (\<lambda>i. if i \<in> mine then map_option isRetryable (last_line i (report_lines b)) else None,
      stranger_lines mine (report_lines b))"
  by (simp add: read_report_def fold_read_line)

lemma named_report_eq: "named_report b i = map_option isRetryable (last_line i (report_lines b))"
proof -
  have "fold (\<lambda>line m. case subjectTxID line of None \<Rightarrow> m | Some i \<Rightarrow> m(i \<mapsto> isRetryable line)) ls Map.empty i
      = map_option isRetryable (last_line i ls)" for ls
    by (induction ls rule: rev_induct) (auto simp: last_line_def split: option.splits)
  then show ?thesis by (simp add: named_report_def)
qed

section \<open>Accounting\<close>

definition booked :: "counters \<Rightarrow> nat" where
  "booked k = accepted k + rejected k + failed k"

definition unnamed_count :: "(string \<rightharpoonup> bool) \<Rightarrow> job list \<Rightarrow> nat" where
  "unnamed_count m js = length (filter (\<lambda>j. m (Display (jid j)) = None) js)"

lemma partition_jobs:
  "length js = length (to_retry m js) + final_count m js + unnamed_count m js"
proof (induction js)
  case (Cons a js)
  then show ?case
    by (cases "m (Display (jid a))") (simp_all add: to_retry_def final_count_def unnamed_count_def)
qed (simp add: to_retry_def final_count_def unnamed_count_def)

lemma to_retry_props:
  "dep_free js \<Longrightarrow> dep_free (to_retry m js)" "set (to_retry m js) \<subseteq> set js"
  "length (to_retry m js) \<le> length js"
  by (simp_all add: to_retry_def dep_free_filter)

text \<open>
  A step of accounting from \<open>n\<close> transactions to \<open>r\<close> still pending: the rest is
  booked, up to those an unattributed line made unknown.
\<close>

definition accounts :: "counters \<Rightarrow> nat \<Rightarrow> counters \<Rightarrow> nat \<Rightarrow> bool" where
  "accounts k n k' r \<longleftrightarrow>
     enqueued k' = enqueued k \<and> unattributed k \<le> unattributed k' \<and>
     booked k' + r \<le> booked k + n \<and>
     booked k + n + unattributed k \<le> booked k' + r + unattributed k'"

lemma accounts_trans: "accounts k n k1 r1 \<Longrightarrow> accounts k1 r1 k2 r2 \<Longrightarrow> accounts k n k2 r2"
  by (simp add: accounts_def)

lemma settlePartial_accounts:
  "settlePartial c js b k = (k', rt) \<Longrightarrow> accounts k (length js) k' (length rt)"
  using partition_jobs [of js "fst (read_report (set (map (\<lambda>j. Display (jid j)) js)) b)"]
  by (auto simp: settlePartial_def Let_def split_def accounts_def booked_def split: if_splits)

lemma settlePartial_retry:
  "settlePartial c js b k = (k', rt) \<Longrightarrow> (\<exists>m. rt = to_retry m js) \<or> rt = []"
  by (auto simp: settlePartial_def Let_def split_def split: if_splits)

lemma submit_loop_accounts:
  "submit_loop c E b attempt throttled k = (k', rt) \<Longrightarrow> accounts k (length (jobs b)) k' (length rt)"
proof (induction c E b attempt throttled k rule: submit_loop.induct)
  case (1 c E b attempt throttled k)
  define r where "r = fst (post c E (body b) k)"
  define k1 where "k1 = snd (post c E (body b) k)"
  have post: "post c E (body b) k = (r, k1)" by (simp add: r_def k1_def)
  have k1: "accounts k n k1 n" "accounts k n (k1 \<lparr> rateLimited := rateLimited k1 + 1 \<rparr>) n" for n
    by (simp_all add: k1_def post_def accounts_def booked_def)
  note tr = k1 [THEN accounts_trans]
  show ?case
  proof (cases "attempt < throttled + 2")
    case False
    then show ?thesis using "1.prems"
      by (subst (asm) submit_loop.simps) (auto simp: accounts_def booked_def split: if_splits)
  next
    case True
    show ?thesis
    proof (cases r)
      case TransportError
      then have "submit_loop c E b (attempt + 1) throttled k1 = (k', rt)"
        using "1.prems" True post by (subst (asm) submit_loop.simps) simp
      then show ?thesis using "1.IH"(1) [OF True post [symmetric] TransportError] tr(1) by blast
    next
      case (Status status resp)
      have loop: "submit_loop c E b attempt throttled k =
          (if status = 200 then (k1 \<lparr> accepted := accepted k1 + length (jobs b) \<rparr>, [])
           else if is_report status resp then settlePartial c (jobs b) resp k1
           else if status = 429 then
             (let k = k1 \<lparr> rateLimited := rateLimited k1 + 1 \<rparr> in
              if throttled \<ge> length rateLimitBackoff
              then (k \<lparr> failed := failed k + length (jobs b) \<rparr>, [])
              else if \<not> env_wait E (next_post k) (rateLimitBackoff ! throttled)
              then (k \<lparr> failed := failed k + length (jobs b) \<rparr>, [])
              else submit_loop c E b (attempt + 1) (throttled + 1) k)
           else submit_loop c E b (attempt + 1) throttled k1)"
        using True post Status by (subst submit_loop.simps) simp
      have ok: "accounts k1 n (k1 \<lparr> accepted := accepted k1 + n \<rparr>) 0"
        "accounts k1 n (k1 \<lparr> rateLimited := Suc (rateLimited k1), failed := failed k1 + n \<rparr>) 0" for n
        by (simp_all add: accounts_def booked_def)
      show ?thesis
        using "1.prems" "1.IH"(2-3) [OF True post [symmetric] Status] settlePartial_accounts tr ok
        unfolding loop Let_def by (auto split: if_splits)
    qed
  qed
qed

lemma submit_loop_retry:
  "submit_loop c E b attempt throttled k = (k', rt) \<Longrightarrow> rt = [] \<or> rt = jobs b \<or> (\<exists>m. rt = to_retry m (jobs b))"
proof (induction c E b attempt throttled k rule: submit_loop.induct)
  case (1 c E b attempt throttled k)
  obtain r k1 where post: "post c E (body b) k = (r, k1)" by fastforce
  show ?case
  proof (cases "attempt < throttled + 2")
    case False
    then show ?thesis using "1.prems" by (subst (asm) submit_loop.simps) (auto split: if_splits)
  next
    case True
    show ?thesis
    proof (cases r)
      case TransportError
      then show ?thesis using "1.prems" "1.IH"(1) [OF True post [symmetric] TransportError] True post
        by (subst (asm) submit_loop.simps) simp
    next
      case (Status status resp)
      show ?thesis
        using "1.prems" "1.IH"(2-3) [OF True post [symmetric] Status] True post Status
          settlePartial_retry [of c "jobs b" resp k1 k' rt]
        by (subst (asm) submit_loop.simps) (auto simp: Let_def split: if_splits)
    qed
  qed
qed

lemma submit_accounts: "submit c E b k = (k', rt) \<Longrightarrow> accounts k (length (jobs b)) k' (length rt)"
  unfolding submit_def by (drule submit_loop_accounts) (simp add: accounts_def booked_def)

lemma submit_retry:
  assumes "submit c E b k = (k', rt)"
  shows "set rt \<subseteq> set (jobs b)" and "dep_free (jobs b) \<Longrightarrow> dep_free rt" and "length rt \<le> length (jobs b)"
proof -
  have "rt = [] \<or> rt = jobs b \<or> (\<exists>m. rt = to_retry m (jobs b))"
    using assms unfolding submit_def by (rule submit_loop_retry)
  then show "set rt \<subseteq> set (jobs b)" and "dep_free (jobs b) \<Longrightarrow> dep_free rt" and "length rt \<le> length (jobs b)"
    using to_retry_props(1,3) to_retry_props(2) [THEN subsetD] by (auto simp: dep_free_def)
qed

text \<open>Requests made: the counter's advance.\<close>

lemma settlePartial_posts: "next_post (fst (settlePartial c js b k)) = next_post k"
  by (simp add: settlePartial_def Let_def split_def)

lemma submit_loop_posts:
  "throttled \<le> 3 \<Longrightarrow> throttled \<le> attempt \<Longrightarrow> attempt \<le> throttled + 2 \<Longrightarrow>
   next_post (fst (submit_loop c E b attempt throttled k)) \<le> next_post k + (5 - attempt)"
proof (induction c E b attempt throttled k rule: submit_loop.induct)
  case (1 c E b attempt throttled k)
  define r where "r = fst (post c E (body b) k)"
  define k1 where "k1 = snd (post c E (body b) k)"
  have post: "post c E (body b) k = (r, k1)" and n1: "next_post k1 = next_post k + 1"
    by (simp_all add: r_def k1_def post_def)
  show ?case
  proof (cases "attempt < throttled + 2")
    case False
    then show ?thesis by (subst submit_loop.simps) simp
  next
    case True
    have len: "length rateLimitBackoff = 3" by (simp add: rateLimitBackoff_def)
    show ?thesis
    proof (cases r)
      case TransportError
      then show ?thesis using "1.prems" "1.IH"(1) [OF True post [symmetric] TransportError] True post n1
        by (subst submit_loop.simps) simp
    next
      case (Status status resp)
      show ?thesis
        using "1.prems" "1.IH"(2-3) [OF True post [symmetric] Status] True post Status n1 len
        by (subst submit_loop.simps) (auto simp: Let_def settlePartial_posts)
    qed
  qed
qed

lemma settle_retry_props:
  assumes "settle_retry resp js k = (k', nxt)"
  shows "accounts k (length js) k' (length nxt)" and "unattributed k' = unattributed k"
    and "next_post k' = next_post k"
  using assms partition_jobs [of js "named_report resp"]
  by (auto simp: settle_retry_def Let_def accounts_def booked_def)

lemma retry_loop_accounts:
  "accounts k (length js) (retry_loop c E n attempt js k) 0 \<and>
   unattributed (retry_loop c E n attempt js k) = unattributed k \<and>
   next_post (retry_loop c E n attempt js k) \<le> next_post k + n"
proof (induction n arbitrary: attempt js k)
  case 0
  then show ?case by (simp add: accounts_def booked_def)
next
  case (Suc n)
  define k1 where "k1 = k \<lparr> next_post := next_post k + 1 \<rparr>"
  define r where "r = fst (post c E (concat (map raw js)) k)"
  have post: "post c E (concat (map raw js)) k = (r, k1)" by (simp add: r_def k1_def post_def)
  have k1: "enqueued k1 = enqueued k" "accepted k1 = accepted k" "rejected k1 = rejected k"
    "failed k1 = failed k" "unattributed k1 = unattributed k" "next_post k1 = next_post k + 1"
    by (simp_all add: k1_def)
  note acc = accounts_def booked_def
  show ?case
  proof (cases "js = [] \<or> \<not> env_wait E (next_post k) (retry_delays ! min attempt (length retry_delays - 1))
      \<or> \<not> env_slot E (next_post k)")
    case True
    then show ?thesis by (auto simp: acc)
  next
    case False
    note IH = Suc [where attempt = "attempt + 1", unfolded acc]
    show ?thesis
    proof (cases r)
      case TransportError
      then show ?thesis using False post IH [where js = js and k = k1] k1 by (simp add: acc)
    next
      case (Status status resp)
      obtain k2 nxt where sr: "settle_retry resp js k1 = (k2, nxt)" by fastforce
      have loop: "retry_loop c E (Suc n) attempt js k =
          (if status = 200 then
             k1 \<lparr> retryAccepted := retryAccepted k1 + length js, accepted := accepted k1 + length js \<rparr>
           else if is_report status resp then retry_loop c E n (attempt + 1) nxt k2
           else if status = 429 then
             retry_loop c E n (attempt + 1) js (k1 \<lparr> rateLimited := rateLimited k1 + 1 \<rparr>)
           else if status = 422 then retry_loop c E n (attempt + 1) js k1
           else k1 \<lparr> rejected := rejected k1 + length js \<rparr>)"
        using False post Status sr by simp
      note S = settle_retry_props [OF sr, unfolded acc]
      show ?thesis
        using IH [where js = js and k = k1] IH [where js = nxt and k = k2] S k1
          IH [where js = js and k = "k1 \<lparr> rateLimited := rateLimited k1 + 1 \<rparr>"]
        unfolding loop acc by (simp split del: if_split) (auto split: if_splits)
    qed
  qed
qed

section \<open>Properties\<close>

lemma retryBatch_accounts:
  "accounts k (length js) (retryBatch c E js k) 0"
  "unattributed (retryBatch c E js k) = unattributed k"
  "next_post (retryBatch c E js k) \<le> next_post k + nat (RetryAttempts c)"
  using retry_loop_accounts [of "k \<lparr> retried := retried k + length js \<rparr>" js c E "nat (RetryAttempts c)" 0]
  by (simp_all add: retryBatch_def accounts_def booked_def)

text \<open>
  C12: Every transaction of a batch is accounted for.  Whatever the server
  answers and however the waits end, a batch's first submission and the retry
  it may start make at most five requests plus the configured attempts, and
  then the accepted, rejected and failed counts have grown together by the
  batch's size, short only of transactions that report lines naming strangers
  made unknown, each of which the unattributed counter shows.
\<close>

theorem batch_accounting:
  assumes "submit c E b k = (k1, rt)" and "k2 = retryBatch c E' rt k1"
  shows "booked k2 \<le> booked k + length (jobs b) \<and>
    booked k + length (jobs b) + unattributed k \<le> booked k2 + unattributed k2 \<and>
    next_post k2 \<le> next_post k + 5 + nat (RetryAttempts c) \<and>
    set rt \<subseteq> set (jobs b) \<and> (dep_free (jobs b) \<longrightarrow> dep_free rt)"
proof -
  have "next_post k1 \<le> next_post k + 5"
    using assms(1) submit_loop_posts [of 0 0 c E b "k \<lparr> batches := batches k + 1 \<rparr>"]
    by (simp add: submit_def)
  then show ?thesis
    using submit_accounts [OF assms(1)] submit_retry [OF assms(1)]
      retryBatch_accounts [where k = k1 and js = rt and c = c and E = E']
    by (simp add: assms(2) accounts_def)
qed

definition sample_env :: http_env where
  "sample_env = \<lparr> env_post = (\<lambda>n ep b. if n = 0 then TransportError else if n = 1 then Status 503 [] else Status 200 []),
     env_wait = (\<lambda>n d. True), env_slot = (\<lambda>n. True) \<rparr>"

definition sample_batch :: batch where
  "sample_batch = push_job sample_child newBatch"

lemma sample_submit:
  "submit sample_config sample_env sample_batch counters_zero =
     (counters_zero \<lparr> batches := 1, next_post := 2 \<rparr>, [sample_child])"
proof -
  have "\<not> is_report 503 []" by (simp add: is_report_def partialPrefix_def)
  then show ?thesis unfolding submit_def
    by (subst submit_loop.simps, simp add: post_def sample_env_def counters_zero_def)
       (subst submit_loop.simps, simp add: post_def,
        subst submit_loop.simps, simp add: sample_config_def sample_batch_def push_job_def newBatch_def)
qed

theorem batch_accounting_witness:
  "let k2 = retryBatch sample_config sample_env [sample_child]
       (counters_zero \<lparr> batches := 1, next_post := 2 \<rparr>)
   in booked k2 \<le> 1 \<and> 1 \<le> booked k2 + unattributed k2 \<and> next_post k2 \<le> 8"
  using batch_accounting [OF sample_submit refl, of sample_env]
  by (simp add: Let_def booked_def counters_zero_def sample_batch_def push_job_def newBatch_def sample_config_def)

lemma settlePartial_eq:
  assumes "0 < RetryAttempts c"
  shows "settlePartial c js b k =
    (let lines = report_lines b;
         verdict = (\<lambda>j :: job. map_option isRetryable (last_line (Display (jid j)) lines));
         strangers = stranger_lines (set (map (\<lambda>j. Display (jid j)) js)) lines
     in (k \<lparr> rejected := rejected k + length (filter (\<lambda>j. verdict j = Some False) js),
             unattributed := unattributed k + strangers,
             accepted := accepted k + (length (filter (\<lambda>j. verdict j = None) js) - strangers) \<rparr>,
         filter (\<lambda>j. verdict j = Some True) js))"
proof -
  define lines where "lines = report_lines b"
  define mine where "mine = set (map (\<lambda>j. Display (jid j)) js)"
  define m where "m = (\<lambda>i. if i \<in> mine then map_option isRetryable (last_line i lines) else None)"
  define st where "st = stranger_lines mine lines"
  have rr: "read_report mine b = (m, st)" by (simp only: read_report_eq m_def st_def lines_def)
  have v: "m (Display (jid j)) = map_option isRetryable (last_line (Display (jid j)) lines)"
    if "j \<in> set js" for j
    using that by (simp add: m_def mine_def)
  have f: "to_retry m js = filter (\<lambda>j. map_option isRetryable (last_line (Display (jid j)) lines) = Some True) js"
    "final_count m js = length (filter (\<lambda>j. map_option isRetryable (last_line (Display (jid j)) lines) = Some False) js)"
    "unnamed_count m js = length (filter (\<lambda>j. map_option isRetryable (last_line (Display (jid j)) lines) = None) js)"
    unfolding to_retry_def final_count_def unnamed_count_def using v by (auto cong: filter_cong)
  have ok: "nat (if int (length js) - int (length (to_retry m js)) - int (final_count m js) - int st < 0 then 0
      else int (length js) - int (length (to_retry m js)) - int (final_count m js) - int st)
      = unnamed_count m js - st"
    using partition_jobs [of js m] by auto
  show ?thesis
    unfolding settlePartial_def Let_def mine_def [symmetric] rr prod.case ok
      lines_def [symmetric] st_def [symmetric] f [symmetric]
    using assms by simp
qed

text \<open>
  How a partial failure is settled.  The last report line naming a member
  decides: a retryable one puts the member on the retry list, in batch order,
  any other one books it rejected.  Members no line names are accepted, less
  one for every line that names a stranger, which is counted unattributed.
\<close>

theorem settlePartial_outcome:
  assumes "0 < RetryAttempts c"
  shows "settlePartial c js b k =
    (let lines = report_lines b;
         verdict = (\<lambda>j :: job. map_option isRetryable (last_line (Display (jid j)) lines));
         strangers = stranger_lines (set (map (\<lambda>j. Display (jid j)) js)) lines
     in (k \<lparr> rejected := rejected k + length (filter (\<lambda>j. verdict j = Some False) js),
             unattributed := unattributed k + strangers,
             accepted := accepted k + (length (filter (\<lambda>j. verdict j = None) js) - strangers) \<rparr>,
         filter (\<lambda>j. verdict j = Some True) js))"
  using assms by (rule settlePartial_eq)

theorem settlePartial_outcome_witness:
  "settlePartial sample_config [sample_parent] (partialPrefix @ [CHR 0x0A] @ ''['' @ Display (jid sample_parent) @ ''] MISSING_PARENT'')
     counters_zero = (counters_zero, [sample_parent])"
proof -
  have "0 < RetryAttempts sample_config" by (simp add: sample_config_def)
  then show ?thesis by (simp only: settlePartial_outcome) code_simp
qed

text \<open>
  The subject of an error line is exact: the scan returns a token only if
  the line brackets it and it is 64 lower-case hexadecimal digits, and it
  returns none only if the line brackets no such token.
\<close>

theorem subjectTxID_exact:
  "(subjectTxID line = Some h \<longrightarrow> bracketed line h) \<and> (subjectTxID line = None \<longleftrightarrow> (\<nexists>h. bracketed line h))"
  using subjectTxID_bracketed subjectTxID_None by (metis not_Some_eq)

theorem subjectTxID_exact_witness:
  "bracketed (''[ProcessTransaction]['' @ replicate 64 (CHR ''a'') @ ''] bad'') (replicate 64 (CHR ''a''))"
proof -
  have "subjectTxID (''[ProcessTransaction]['' @ replicate 64 (CHR ''a'') @ ''] bad'') = Some (replicate 64 (CHR ''a''))"
    by code_simp
  then show ?thesis using subjectTxID_exact by blast
qed

end
