(* ===== verification/Pipeline.thy ===== *)
theory Pipeline
  imports Txsubmit
begin

text \<open>
  The pipe as a concurrent system: lanes sending runs into the builders'
  queues, one builder goroutine per queue, sealed batches waiting for an
  in-flight slot, submissions and retries settling in any order.  A step is
  one action of one goroutine; the environment of a submission is arbitrary.
  The invariants give the shared counters their meaning at every moment.
\<close>

record pipe =
  queues :: "job list list list"
  senders :: "nat list"
  queued :: int
  builders :: "builder list"
  todo :: "job list list"
  live :: "bool list"
  inflight :: "batch list"
  retrying :: "job list list"
  stats :: counters

definition pipe_init :: "pipe_Config \<Rightarrow> pipe" where
  "pipe_init c =
     \<lparr> queues = replicate (nat (Builders c)) [], senders = [], queued = 0,
       builders = replicate (nat (Builders c)) builder_init, todo = replicate (nat (Builders c)) [],
       live = replicate (nat (Builders c)) True, inflight = [], retrying = [], stats = counters_zero \<rparr>"

text \<open>
  A builder may act when its goroutine runs, it is not blocked on a slot for a
  sealed batch, and it has no transaction of the current run left.
\<close>

definition idle :: "pipe \<Rightarrow> nat \<Rightarrow> bool" where
  "idle p i \<longleftrightarrow> i < length (builders p) \<and> live p ! i \<and> sealed (builders p ! i) = [] \<and> todo p ! i = []"

definition add_retry :: "job list \<Rightarrow> job list list \<Rightarrow> job list list" where
  "add_retry rt rs = (if rt = [] then rs else rs @ [rt])"

text \<open>
  What a step is, for the goroutines around the pipe: a run handed to a queue,
  a sender counting its run, work of a builder or of a submission, or a
  builder seeing its cancelled context.
\<close>

datatype pipe_act = ASend nat "job list" | ACount | AWork | AShutdown nat

inductive pipe_step :: "pipe_Config \<Rightarrow> pipe_act \<Rightarrow> pipe \<Rightarrow> pipe \<Rightarrow> bool" for c :: pipe_Config where
  Send: "i < length (queues p) \<Longrightarrow> int (length (queues p ! i)) < queue_depth c \<Longrightarrow>
    pipe_step c (ASend i js) p
      (p \<lparr> queues := (queues p)[i := queues p ! i @ [js]], senders := senders p @ [length js] \<rparr>)"
| Count: "senders p = ns1 @ n # ns2 \<Longrightarrow>
    pipe_step c ACount p (p \<lparr> senders := ns1 @ ns2, queued := queued p + int n,
      stats := (stats p) \<lparr> enqueued := enqueued (stats p) + n \<rparr> \<rparr>)"
| Take: "idle p i \<Longrightarrow> queues p ! i = js # rest \<Longrightarrow>
    pipe_step c AWork p (p \<lparr> queues := (queues p)[i := rest], queued := queued p - int (length js),
      todo := (todo p)[i := js] \<rparr>)"
| Add: "i < length (builders p) \<Longrightarrow> live p ! i \<Longrightarrow> sealed (builders p ! i) = [] \<Longrightarrow> todo p ! i = j # rest \<Longrightarrow>
    pipe_step c AWork p (p \<lparr> builders := (builders p)[i := add_job c now j (builders p ! i)],
      todo := (todo p)[i := rest] \<rparr>)"
| LingerTick: "idle p i \<Longrightarrow> timer (builders p ! i) = Some t \<Longrightarrow> t \<le> now \<Longrightarrow>
    pipe_step c AWork p (p \<lparr> builders := (builders p)[i := builder_step c (LingerFires now) (builders p ! i)] \<rparr>)"
| Launch: "i < length (builders p) \<Longrightarrow> sealed (builders p ! i) = (r, b) # rest \<Longrightarrow>
    int (length (inflight p)) < Inflight c \<Longrightarrow>
    pipe_step c AWork p (p \<lparr> builders := (builders p)[i := (builders p ! i) \<lparr> sealed := rest \<rparr>],
      inflight := inflight p @ [b] \<rparr>)"
| Settle: "inflight p = bs1 @ b # bs2 \<Longrightarrow> submit c E b (stats p) = (k, rt) \<Longrightarrow>
    pipe_step c AWork p (p \<lparr> inflight := bs1 @ bs2, retrying := add_retry rt (retrying p), stats := k \<rparr>)"
| Retry: "retrying p = rs1 @ rt # rs2 \<Longrightarrow>
    pipe_step c AWork p (p \<lparr> retrying := rs1 @ rs2, stats := retryBatch c E rt (stats p) \<rparr>)"
| Shutdown: "idle p i \<Longrightarrow>
    pipe_step c (AShutdown i) p (p \<lparr> queues := (queues p)[i := []],
      queued := queued p - int (length (concat (queues p ! i))),
      builders := (builders p)[i := builder_shutdown (queues p ! i) (builders p ! i)],
      live := (live p)[i := False] \<rparr>)"

inductive_cases pipe_step_sendE: "pipe_step c (ASend i js) p p'"
inductive_cases pipe_step_countE: "pipe_step c ACount p p'"
inductive_cases pipe_step_workE: "pipe_step c AWork p p'"
inductive_cases pipe_step_shutdownE: "pipe_step c (AShutdown i) p p'"

lemmas pipe_step_elims = pipe_step_sendE pipe_step_countE pipe_step_shutdownE

inductive reachable :: "pipe_Config \<Rightarrow> pipe \<Rightarrow> bool" for c :: pipe_Config where
  Init: "reachable c (pipe_init c)"
| Step: "reachable c p \<Longrightarrow> pipe_step c a p p' \<Longrightarrow> reachable c p'"

section \<open>What the pipe holds\<close>

definition total :: "('a \<Rightarrow> nat) \<Rightarrow> 'a list \<Rightarrow> nat" where
  "total f xs = sum_list (map f xs)"

definition run_size :: "job list list \<Rightarrow> nat" where
  "run_size rs = length (concat rs)"

definition held :: "pipe \<Rightarrow> nat" where
  "held p = total run_size (queues p) + total length (todo p) + total (\<lambda>b. length (taken b)) (builders p)
     + total (\<lambda>b. length (jobs b)) (inflight p) + total length (retrying p)"

lemma total_simps [simp]:
  "total f [] = 0" "total f (x # xs) = f x + total f xs" "total f (xs @ ys) = total f xs + total f ys"
  "f x = 0 \<Longrightarrow> total f (replicate n x) = 0"
  by (simp_all add: total_def sum_list_replicate)

lemma total_update:
  "i < length xs \<Longrightarrow> total f (xs[i := y]) + f (xs ! i) = total f xs + f y"
proof (induction xs arbitrary: i)
  case (Cons x xs)
  then show ?case by (cases i) auto
qed simp

lemma taken_add_job: "length (taken (add_job c now j s)) = Suc (length (taken s))"
proof -
  define s1 where "s1 = (if dependsOnBatch (raw j) (ids (cur s)) then seal SealDep s else s)"
  define s2 where "s2 = (if jobs (cur s1) = []
      then s1 \<lparr> cur := (cur s1) \<lparr> born := now \<rparr>, timer := Some (now + Linger c) \<rparr> else s1)"
  define s3 where "s3 = s2 \<lparr> cur := push_job j (cur s2) \<rparr>"
  have "taken s1 = taken s" by (simp add: s1_def)
  moreover have "taken s2 = taken s1" by (simp add: s2_def taken_def)
  moreover have "taken s3 = taken s2 @ [j]" by (simp add: s3_def taken_def push_job_def)
  moreover have "taken (add_job c now j s) = taken s3"
    by (simp only: add_job_def s1_def [symmetric] s2_def [symmetric] s3_def [symmetric] Let_def)
       (simp split: if_splits)
  ultimately show ?thesis by simp
qed

lemma taken_linger: "taken (builder_step c (LingerFires now) s) = taken s"
  by (simp add: builder_step_def split: option.splits)

text \<open>The shape shared by the per-builder lists.\<close>

definition shaped :: "pipe \<Rightarrow> bool" where
  "shaped p \<longleftrightarrow> length (queues p) = length (builders p) \<and> length (todo p) = length (builders p)
     \<and> length (live p) = length (builders p)"

definition balanced :: "pipe \<Rightarrow> bool" where
  "balanced p \<longleftrightarrow>
     (let k = stats p; n = enqueued k + sum_list (senders p) in
      booked k + held p \<le> n \<and> n \<le> booked k + held p + unattributed k)"

definition queue_counted :: "pipe \<Rightarrow> bool" where
  "queue_counted p \<longleftrightarrow> queued p + int (sum_list (senders p)) = int (total run_size (queues p))"

definition slots_ok :: "pipe_Config \<Rightarrow> pipe \<Rightarrow> bool" where
  "slots_ok c p \<longleftrightarrow> int (length (inflight p)) \<le> max 0 (Inflight c) \<and>
     (\<forall>q \<in> set (queues p). int (length q) \<le> queue_depth c)"

lemma shaped_step: "pipe_step c a p p' \<Longrightarrow> shaped p \<Longrightarrow> shaped p'"
  by (induction rule: pipe_step.induct) (auto simp: shaped_def)

lemma slots_step: "pipe_step c a p p' \<Longrightarrow> shaped p \<Longrightarrow> slots_ok c p \<Longrightarrow> slots_ok c p'"
proof (induction rule: pipe_step.induct)
  case (Send i p js)
  then show ?case by (auto simp: slots_ok_def dest!: set_update_subset_insert [THEN subsetD])
next
  case (Take p i js rest)
  then have "i < length (queues p)" by (simp add: idle_def shaped_def)
  then have "js # rest \<in> set (queues p)" using Take(2) nth_mem by metis
  then have "int (length (js # rest)) \<le> queue_depth c" using Take(4) by (metis slots_ok_def)
  then show ?case using Take(4)
    by (auto simp: slots_ok_def dest!: set_update_subset_insert [THEN subsetD])
next
  case (Shutdown p i)
  then show ?case
    by (auto simp: slots_ok_def queue_depth_def dest!: set_update_subset_insert [THEN subsetD])
qed (auto simp: slots_ok_def)

lemma queue_counted_step: "pipe_step c a p p' \<Longrightarrow> shaped p \<Longrightarrow> queue_counted p \<Longrightarrow> queue_counted p'"
proof (induction rule: pipe_step.induct)
  case (Send i p js)
  then show ?case using total_update [of i "queues p" run_size "queues p ! i @ [js]"]
    by (simp add: queue_counted_def run_size_def)
next
  case (Take p i js rest)
  then show ?case using total_update [of i "queues p" run_size rest]
    by (simp add: queue_counted_def run_size_def idle_def shaped_def)
next
  case (Shutdown p i)
  then show ?case using total_update [of i "queues p" run_size "[]"]
    by (simp add: queue_counted_def run_size_def idle_def shaped_def)
qed (simp_all add: queue_counted_def)

lemma held_step:
  assumes "pipe_step c a p p'" and "shaped p"
  shows "accounts (stats p) (held p + sum_list (senders p')) (stats p') (held p' + sum_list (senders p))
    \<or> (\<exists>n. sum_list (senders p) = sum_list (senders p') + n \<and> held p' = held p \<and>
         stats p' = (stats p) \<lparr> enqueued := enqueued (stats p) + n \<rparr>)"
  using assms
proof (induction rule: pipe_step.induct)
  case (Send i p js)
  then show ?case using total_update [of i "queues p" run_size "queues p ! i @ [js]"]
    by (simp add: held_def run_size_def accounts_def)
next
  case (Count p ns1 n ns2)
  then show ?case by (auto simp: held_def)
next
  case (Take p i js rest)
  then show ?case
    using total_update [of i "queues p" run_size rest] total_update [of i "todo p" length js]
    by (simp add: held_def run_size_def idle_def shaped_def accounts_def)
next
  case (Add i p j rest now)
  then show ?case
    using total_update [of i "todo p" length rest]
      total_update [of i "builders p" "\<lambda>b. length (taken b)" "add_job c now j (builders p ! i)"]
    by (simp add: held_def shaped_def accounts_def taken_add_job)
next
  case (LingerTick p i t now)
  then show ?case
    using total_update [of i "builders p" "\<lambda>b. length (taken b)" "builder_step c (LingerFires now) (builders p ! i)"]
    by (simp add: held_def shaped_def accounts_def taken_linger idle_def)
next
  case (Launch i p r b rest)
  have "length (taken (builders p ! i)) = length (jobs b) + length (taken ((builders p ! i) \<lparr> sealed := rest \<rparr>))"
    using Launch(2) by (simp add: taken_def)
  then show ?case using Launch
      total_update [of i "builders p" "\<lambda>b. length (taken b)" "(builders p ! i) \<lparr> sealed := rest \<rparr>"]
    by (simp add: held_def accounts_def)
next
  case (Settle p bs1 b bs2 E k rt)
  then show ?case using submit_accounts [OF Settle(2)]
    by (cases rt) (auto simp: held_def accounts_def add_retry_def)
next
  case (Retry p rs1 rt rs2 E)
  then show ?case using retryBatch_accounts(1) [where k = "stats p" and js = rt and c = c and E = E]
    by (simp add: held_def accounts_def)
next
  case (Shutdown p i)
  then show ?case
    using total_update [of i "queues p" run_size "[]"]
      total_update [of i "builders p" "\<lambda>b. length (taken b)" "builder_shutdown (queues p ! i) (builders p ! i)"]
    by (simp add: held_def shaped_def accounts_def idle_def run_size_def builder_shutdown_taken)
qed

lemma balanced_step: "pipe_step c a p p' \<Longrightarrow> shaped p \<Longrightarrow> balanced p \<Longrightarrow> balanced p'"
  using held_step [of c a p p'] by (auto simp: balanced_def accounts_def booked_def Let_def)

lemma reachable_inv: "reachable c p \<Longrightarrow> shaped p \<and> balanced p \<and> queue_counted p \<and> slots_ok c p"
proof (induction rule: reachable.induct)
  case Init
  have "0 \<le> queue_depth c" by (simp add: queue_depth_def le_max_iff_disj)
  then show ?case
    by (simp add: pipe_init_def shaped_def balanced_def queue_counted_def slots_ok_def held_def booked_def
        counters_zero_def run_size_def taken_def builder_init_def newBatch_def)
next
  case (Step p a p')
  then show ?case using shaped_step slots_step balanced_step queue_counted_step by blast
qed

section \<open>Properties\<close>

text \<open>
  C3: Conservation of transactions.  In every reachable state of the pipe, with
  any interleaving of senders, builders, submissions, retries and shutdown, and
  any answers of the servers, the transactions sent into it are those it still
  holds plus those booked accepted, rejected or failed; the only slack is the
  unattributed count.  The queue gauge equals the queued transactions once the
  senders have counted theirs, and the in-flight and queue bounds hold.
\<close>

theorem pipe_conservation:
  assumes "reachable c p"
  shows "(let k = stats p; sent = enqueued k + sum_list (senders p) in
      accepted k + rejected k + failed k + held p \<le> sent \<and>
      sent \<le> accepted k + rejected k + failed k + held p + unattributed k) \<and>
    queued p + int (sum_list (senders p)) = int (total run_size (queues p)) \<and>
    int (length (inflight p)) \<le> max 0 (Inflight c) \<and>
    list_all (\<lambda>q. int (length q) \<le> queue_depth c) (queues p)"
  using reachable_inv [OF assms]
  by (simp add: balanced_def queue_counted_def slots_ok_def booked_def Let_def list_all_iff)

definition sample_pipe :: pipe where
  "sample_pipe = (pipe_init (pipe_defaults sample_config)) \<lparr>
     queues := (queues (pipe_init (pipe_defaults sample_config)))[0 := [[sample_parent, sample_child]]],
     senders := [2] \<rparr>"

lemma sample_pipe_reachable: "reachable (pipe_defaults sample_config) sample_pipe"
proof -
  define c where "c = pipe_defaults sample_config"
  define q where "q = pipe_init c"
  have b: "0 < nat (Builders c)" using pipe_defaults_builders [of sample_config] by (auto simp: c_def)
  then have q: "queues q ! 0 = []" "0 < length (queues q)" "senders q = []" by (simp_all add: q_def pipe_init_def)
  have d: "0 < queue_depth c" by (simp add: queue_depth_def less_max_iff_disj)
  have "pipe_step c (ASend 0 [sample_parent, sample_child]) q (q \<lparr> queues := (queues q)[0 := queues q ! 0 @ [[sample_parent, sample_child]]],
      senders := senders q @ [length [sample_parent, sample_child]] \<rparr>)"
    using q d by (intro pipe_step.Send) simp_all
  then have "pipe_step c (ASend 0 [sample_parent, sample_child]) q sample_pipe" using q by (simp add: sample_pipe_def q_def c_def numeral_2_eq_2)
  then show ?thesis using reachable.Step [OF reachable.Init] by (simp add: q_def c_def)
qed

theorem pipe_conservation_witness:
  "held sample_pipe = 2 \<and> (let k = stats sample_pipe; sent = enqueued k + sum_list (senders sample_pipe) in
      accepted k + rejected k + failed k + held sample_pipe \<le> sent \<and>
      sent \<le> accepted k + rejected k + failed k + held sample_pipe + unattributed k)"
proof -
  note P = pipe_conservation [OF sample_pipe_reachable]
  have "stats sample_pipe = counters_zero" "senders sample_pipe = [2]"
    by (simp_all add: sample_pipe_def pipe_init_def)
  with P show ?thesis by (simp add: Let_def counters_zero_def)
qed

end
