(* ===== verification/Lifecycle.thy ===== *)
theory Lifecycle
  imports Pipeline
begin

text \<open>
  The life of a bridge that submits transactions, as \<open>main\<close> wires it: the
  lanes, the pipe and the other members of the error group, each a goroutine,
  ended by a signal or by the first error.  The lanes stop on the cancelled
  context and drain; the pipe runs on a context of its own, cancelled only
  once every lane has returned; each builder then flushes, waits for the
  submissions under way and returns.  A step is one action of one goroutine.
  The lemmas give what such a shutdown loses (nothing, unless the transaction
  lane fails to accept) and that it ends.
\<close>

section \<open>State and steps\<close>

text \<open>
  The members of the group beside the lanes and the pipe.  The retrieval plane
  and the metrics endpoint may return an error; the readiness wait returns
  by itself; the others end with the context.
\<close>

datatype task = TRetrieval | TReverse | TCluster | TPromoter | TMetrics | TReady | TStats

text \<open>Which members \<open>main\<close> starts, from the parts it built and the flags it read.\<close>

record group_flags =
  has_retrieval :: bool
  has_reverse :: bool
  cluster_poll :: int
  submit_probe :: string
  is_submitter :: bool
  metrics_addr :: string
  stats_every :: int

definition group_tasks :: "group_flags \<Rightarrow> task list" where
  "group_tasks f =
     (if has_retrieval f then [TRetrieval] else []) @
     (if has_reverse f
      then [TReverse] @ (if cluster_poll f > 0 then [TCluster] else []) @
        (if submit_probe f \<noteq> [] \<and> \<not> is_submitter f then [TPromoter] else [])
      else []) @
     (if metrics_addr f \<noteq> [] then [TMetrics] else []) @
     [TReady] @
     (if stats_every f > 0 then [TStats] else [])"

text \<open>
  Per lane: whether \<open>Serve\<close> still runs, whether its listener is open, whether
  it returned an error, and the connections its wait group counts.  Per
  builder: whether it sits in \<open>p.wg.Wait\<close>, and whether it has returned.
\<close>

record life =
  gctx_done :: bool
  group_err :: bool
  serving :: "bool list"
  listening :: "bool list"
  lane_err :: "bool list"
  conns :: "nat list"
  tasks :: "task list"
  pipe_stopped :: bool
  the_pipe :: pipe
  waiting :: "bool list"
  gone :: "bool list"

definition life_init :: "pipe_Config \<Rightarrow> nat \<Rightarrow> task list \<Rightarrow> life" where
  "life_init c n ts =
     \<lparr> gctx_done = False, group_err = False, serving = replicate n True, listening = replicate n True,
       lane_err = replicate n False, conns = replicate n 0, tasks = ts, pipe_stopped = False,
       the_pipe = pipe_init c, waiting = replicate (nat (Builders c)) False,
       gone = replicate (nat (Builders c)) False \<rparr>"

text \<open>The transaction lane is the first of the lane set, and the only one that feeds the pipe.\<close>

definition tx_lane_index :: nat where
  "tx_lane_index = 0"

text \<open>
  A connection hands on one run at a time: it is either free or inside
  \<open>send\<close> with a run not yet counted.
\<close>

definition free_conn :: "life \<Rightarrow> bool" where
  "free_conn L \<longleftrightarrow> length (senders (the_pipe L)) < conns L ! tx_lane_index"

text \<open>The counter of the pipe's wait group: submissions and retries under way.\<close>

definition wg_count :: "pipe \<Rightarrow> nat" where
  "wg_count p = length (inflight p) + length (retrying p)"

inductive life_step :: "pipe_Config \<Rightarrow> life \<Rightarrow> life \<Rightarrow> bool" for c :: pipe_Config where
  Signal: "\<not> gctx_done L \<Longrightarrow> life_step c L (L \<lparr> gctx_done := True \<rparr>)"
| AcceptConn: "l < length (serving L) \<Longrightarrow> serving L ! l \<Longrightarrow> listening L ! l \<Longrightarrow>
    life_step c L (L \<lparr> conns := (conns L)[l := Suc (conns L ! l)] \<rparr>)"
| CloseListener: "l < length (serving L) \<Longrightarrow> serving L ! l \<Longrightarrow> listening L ! l \<Longrightarrow> gctx_done L \<Longrightarrow>
    life_step c L (L \<lparr> listening := (listening L)[l := False] \<rparr>)"
| AcceptError: "l < length (serving L) \<Longrightarrow> serving L ! l \<Longrightarrow> listening L ! l \<Longrightarrow> \<not> gctx_done L \<Longrightarrow>
    life_step c L (L \<lparr> serving := (serving L)[l := False], listening := (listening L)[l := False],
      lane_err := (lane_err L)[l := True], gctx_done := True, group_err := True \<rparr>)"
| CloseConn: "l < length (conns L) \<Longrightarrow> conns L ! l = Suc n \<Longrightarrow> l = tx_lane_index \<longrightarrow> free_conn L \<Longrightarrow>
    life_step c L (L \<lparr> conns := (conns L)[l := n] \<rparr>)"
| LaneReturn: "l < length (serving L) \<Longrightarrow> serving L ! l \<Longrightarrow> \<not> listening L ! l \<Longrightarrow> conns L ! l = 0 \<Longrightarrow>
    life_step c L (L \<lparr> serving := (serving L)[l := False] \<rparr>)"
| LaneSend: "free_conn L \<Longrightarrow> pipe_step c (ASend i js) (the_pipe L) p \<Longrightarrow>
    life_step c L (L \<lparr> the_pipe := p \<rparr>)"
| LaneCount: "pipe_step c ACount (the_pipe L) p \<Longrightarrow> life_step c L (L \<lparr> the_pipe := p \<rparr>)"
| StopPipe: "\<not> pipe_stopped L \<Longrightarrow> True \<notin> set (serving L) \<Longrightarrow> life_step c L (L \<lparr> pipe_stopped := True \<rparr>)"
| PipeWork: "pipe_step c AWork (the_pipe L) p \<Longrightarrow> life_step c L (L \<lparr> the_pipe := p \<rparr>)"
| BuilderStop: "pipe_stopped L \<Longrightarrow> pipe_step c (AShutdown i) (the_pipe L) p \<Longrightarrow>
    life_step c L (L \<lparr> the_pipe := p \<rparr>)"
| BuilderWait: "i < length (waiting L) \<Longrightarrow> \<not> live (the_pipe L) ! i \<Longrightarrow> sealed (builders (the_pipe L) ! i) = [] \<Longrightarrow>
    \<not> waiting L ! i \<Longrightarrow> \<not> gone L ! i \<Longrightarrow>
    life_step c L (L \<lparr> waiting := (waiting L)[i := True] \<rparr>)"
| BuilderReturn: "i < length (waiting L) \<Longrightarrow> waiting L ! i \<Longrightarrow> wg_count (the_pipe L) = 0 \<Longrightarrow>
    life_step c L (L \<lparr> waiting := (waiting L)[i := False], gone := (gone L)[i := True] \<rparr>)"
| TaskReturn: "t \<in> set (tasks L) \<Longrightarrow> gctx_done L \<or> t = TReady \<Longrightarrow>
    life_step c L (L \<lparr> tasks := remove1 t (tasks L) \<rparr>)"
| TaskFail: "t \<in> set (tasks L) \<Longrightarrow> t = TRetrieval \<or> t = TMetrics \<Longrightarrow>
    life_step c L (L \<lparr> tasks := remove1 t (tasks L), gctx_done := True, group_err := True \<rparr>)"

inductive life_reach :: "pipe_Config \<Rightarrow> nat \<Rightarrow> task list \<Rightarrow> life \<Rightarrow> bool" for c :: pipe_Config and n ts where
  Start: "life_reach c n ts (life_init c n ts)"
| Next: "life_reach c n ts L \<Longrightarrow> life_step c L L' \<Longrightarrow> life_reach c n ts L'"

text \<open>\<open>g.Wait\<close> has returned; the process then exits 1 if a member returned an error.\<close>

definition bridge_stopped :: "life \<Rightarrow> bool" where
  "bridge_stopped L \<longleftrightarrow> True \<notin> set (serving L) \<and> tasks L = [] \<and> False \<notin> set (gone L)"

definition group_exit :: "life \<Rightarrow> int" where
  "group_exit L = (if group_err L then 1 else 0)"

section \<open>Invariants\<close>

text \<open>The lanes: what a returned lane, a stopped pipe and an open send imply.\<close>

definition lanes_inv :: "nat \<Rightarrow> life \<Rightarrow> bool" where
  "lanes_inv n L \<longleftrightarrow>
     length (serving L) = n \<and> length (listening L) = n \<and> length (lane_err L) = n \<and> length (conns L) = n \<and>
     length (senders (the_pipe L)) \<le> conns L ! tx_lane_index \<and>
     (\<forall>l < n. \<not> serving L ! l \<longrightarrow> \<not> listening L ! l \<and> gctx_done L) \<and>
     (\<forall>l < n. \<not> listening L ! l \<longrightarrow> gctx_done L) \<and>
     (\<forall>l < n. \<not> serving L ! l \<longrightarrow> \<not> lane_err L ! l \<longrightarrow> conns L ! l = 0) \<and>
     (pipe_stopped L \<longrightarrow> True \<notin> set (serving L)) \<and>
     (True \<in> set (lane_err L) \<longrightarrow> group_err L)"

text \<open>A builder that has seen the cancellation keeps only sealed batches.\<close>

definition flushed :: "pipe \<Rightarrow> nat \<Rightarrow> bool" where
  "flushed p i \<longleftrightarrow> jobs (cur (builders p ! i)) = [] \<and> todo p ! i = []"

definition builders_inv :: "pipe_Config \<Rightarrow> life \<Rightarrow> bool" where
  "builders_inv c L \<longleftrightarrow>
     length (waiting L) = length (builders (the_pipe L)) \<and> length (gone L) = length (builders (the_pipe L)) \<and>
     (\<forall>i < length (builders (the_pipe L)).
        (if live (the_pipe L) ! i then builder_ok c (builders (the_pipe L) ! i)
         else pipe_stopped L \<and> flushed (the_pipe L) i) \<and>
        (waiting L ! i \<or> gone L ! i \<longrightarrow> \<not> live (the_pipe L) ! i \<and> sealed (builders (the_pipe L) ! i) = []) \<and>
        \<not> (waiting L ! i \<and> gone L ! i)) \<and>
     (False \<notin> set (gone L) \<longrightarrow> wg_count (the_pipe L) = 0)"

text \<open>Queues of flushed builders stay empty while the transaction lane ends in order.\<close>

definition queues_inv :: "life \<Rightarrow> bool" where
  "queues_inv L \<longleftrightarrow>
     (\<not> lane_err L ! tx_lane_index \<longrightarrow>
        (\<forall>i < length (builders (the_pipe L)). \<not> live (the_pipe L) ! i \<longrightarrow> queues (the_pipe L) ! i = []))"

lemma senders_step:
  "pipe_step c a p p' \<Longrightarrow>
   (case a of ASend i js \<Rightarrow> length (senders p') = Suc (length (senders p))
    | ACount \<Rightarrow> length (senders p) = Suc (length (senders p'))
    | _ \<Rightarrow> senders p' = senders p \<and> enqueued (stats p') = enqueued (stats p))"
proof (induction rule: pipe_step.induct)
  case (Settle p bs1 b bs2 E k rt)
  then show ?case using submit_accounts [OF Settle(2)] by (simp add: accounts_def)
next
  case (Retry p rs1 rt rs2 E)
  then show ?case using retryBatch_accounts(1) [where k = "stats p" and js = rt and c = c and E = E]
    by (simp add: accounts_def)
qed simp_all

lemma True_notin_iff: "True \<notin> set xs \<longleftrightarrow> (\<forall>i < length xs. \<not> xs ! i)"
  by (auto simp: in_set_conv_nth)

lemma False_notin_iff: "False \<notin> set xs \<longleftrightarrow> (\<forall>i < length xs. xs ! i)"
  by (auto simp: in_set_conv_nth)

lemma lanes_inv_init: "0 < n \<Longrightarrow> lanes_inv n (life_init c n ts)"
  by (simp add: lanes_inv_def life_init_def pipe_init_def tx_lane_index_def)

lemma lanes_inv_step: "life_step c L L' \<Longrightarrow> 0 < n \<Longrightarrow> lanes_inv n L \<Longrightarrow> lanes_inv n L'"
proof (induction rule: life_step.induct)
  case (AcceptError l L)
  then show ?case unfolding lanes_inv_def True_notin_iff
    by (auto simp: nth_list_update)
next
  case (CloseConn l L m)
  then show ?case unfolding lanes_inv_def True_notin_iff
    by (auto simp: nth_list_update free_conn_def)
next
  case (LaneSend L i js p)
  then show ?case using senders_step [OF LaneSend(2)]
    unfolding lanes_inv_def True_notin_iff by (simp add: free_conn_def)
next
  case (LaneCount L p)
  then show ?case using senders_step [OF LaneCount(1)]
    unfolding lanes_inv_def True_notin_iff by simp
next
  case (PipeWork L p)
  then show ?case using senders_step [OF PipeWork(1)]
    unfolding lanes_inv_def True_notin_iff by simp
next
  case (BuilderStop L i p)
  then show ?case using senders_step [OF BuilderStop(2)]
    unfolding lanes_inv_def True_notin_iff by simp
qed (auto simp: lanes_inv_def True_notin_iff nth_list_update)

text \<open>What work of the pipe leaves of a builder: one that still runs stays well formed, a flushed one only empties.\<close>

definition kept :: "pipe_Config \<Rightarrow> pipe \<Rightarrow> pipe \<Rightarrow> nat \<Rightarrow> bool" where
  "kept c p p' j \<longleftrightarrow>
     (if live p ! j then builder_ok c (builders p ! j) \<longrightarrow> builder_ok c (builders p' ! j)
      else (sealed (builders p ! j) = [] \<longrightarrow> sealed (builders p' ! j) = []) \<and>
        (flushed p j \<longrightarrow> flushed p' j) \<and> queues p' ! j = queues p ! j)"

lemma work_kept:
  assumes "pipe_step c AWork p p'" and "config_ok c" and "shaped p" and "j < length (builders p)"
  shows "kept c p p' j"
  using assms(1)
proof cases
  case (Add i k rest now)
  then show ?thesis using assms(2-4) add_job_ok [of c "builders p ! i" now k]
    by (cases "i = j") (auto simp: kept_def flushed_def shaped_def)
next
  case (LingerTick i t now)
  then show ?thesis using assms(2-4) builder_step_ok [of c "builders p ! i" "LingerFires now"]
    by (cases "i = j") (auto simp: kept_def flushed_def shaped_def idle_def)
next
  case (Launch i r b rest)
  then show ?thesis using assms(2-4)
    by (cases "i = j") (auto simp: kept_def flushed_def shaped_def builder_ok_def)
qed (use assms in \<open>auto simp: kept_def flushed_def idle_def shaped_def nth_list_update\<close>)

lemma work_frame:
  assumes "pipe_step c AWork p p'"
  shows "length (builders p') = length (builders p) \<and> live p' = live p"
  using assms by (cases rule: pipe_step_workE) auto

lemma work_wg:
  assumes "pipe_step c AWork p p'" and "\<forall>i < length (builders p). sealed (builders p ! i) = []"
    and "wg_count p = 0"
  shows "wg_count p' = 0"
  using assms by (cases rule: pipe_step_workE) (auto simp: wg_count_def)

lemma builders_inv_init: "config_ok c \<Longrightarrow> builders_inv c (life_init c n ts)"
  by (simp add: builders_inv_def life_init_def pipe_init_def builder_init_ok wg_count_def)

lemma builders_inv_work:
  assumes "pipe_step c AWork (the_pipe L) p" and "config_ok c" and "shaped (the_pipe L)" and "builders_inv c L"
  shows "builders_inv c (L \<lparr> the_pipe := p \<rparr>)"
proof -
  note F = work_frame [OF assms(1)] and I = assms(4)
  have K: "kept c (the_pipe L) p i" if "i < length (builders (the_pipe L))" for i
    using work_kept [OF assms(1-3) that] .
  have "(if live p ! i then builder_ok c (builders p ! i) else pipe_stopped L \<and> flushed p i) \<and>
      (waiting L ! i \<or> gone L ! i \<longrightarrow> \<not> live p ! i \<and> sealed (builders p ! i) = []) \<and>
      \<not> (waiting L ! i \<and> gone L ! i)"
    if "i < length (builders p)" for i
    using K [of i] I F that by (auto simp: kept_def builders_inv_def split: if_splits)
  moreover have "wg_count p = 0" if g: "False \<notin> set (gone L)"
  proof (rule work_wg [OF assms(1)])
    show "\<forall>i < length (builders (the_pipe L)). sealed (builders (the_pipe L) ! i) = []"
      using g I by (auto simp: builders_inv_def False_notin_iff)
    show "wg_count (the_pipe L) = 0" using g I by (simp add: builders_inv_def)
  qed
  ultimately show ?thesis using F I by (simp add: builders_inv_def)
qed

lemma shutdown_builder:
  assumes "pipe_step c (AShutdown i) p p'" and "shaped p"
  shows "length (builders p') = length (builders p) \<and> live p' = (live p)[i := False] \<and> live p ! i \<and>
    i < length (builders p) \<and> flushed p' i \<and> queues p' ! i = [] \<and> wg_count p' = wg_count p \<and>
    (\<forall>j. j \<noteq> i \<longrightarrow> builders p' ! j = builders p ! j \<and> todo p' ! j = todo p ! j \<and> queues p' ! j = queues p ! j)"
  using assms
  by (auto simp: shaped_def idle_def flushed_def wg_count_def builder_shutdown_def seal_cur
      elim!: pipe_step_elims)

lemma builders_inv_stop:
  assumes "pipe_step c (AShutdown i) (the_pipe L) p" and "pipe_stopped L"
    and "shaped (the_pipe L)" and "builders_inv c L"
  shows "builders_inv c (L \<lparr> the_pipe := p \<rparr>)"
proof -
  note S = shutdown_builder [OF assms(1,3)] and I = assms(4)
  have len: "length (live (the_pipe L)) = length (builders (the_pipe L))" using assms(3) by (simp add: shaped_def)
  have "(if live p ! j then builder_ok c (builders p ! j) else pipe_stopped L \<and> flushed p j) \<and>
      (waiting L ! j \<or> gone L ! j \<longrightarrow> \<not> live p ! j \<and> sealed (builders p ! j) = []) \<and>
      \<not> (waiting L ! j \<and> gone L ! j)"
    if "j < length (builders p)" for j
  proof (cases "j = i")
    case True
    with S I assms(2) len show ?thesis by (auto simp: builders_inv_def)
  next
    case False
    with S I assms(2) len that show ?thesis by (auto simp: builders_inv_def flushed_def)
  qed
  then show ?thesis using S I by (simp add: builders_inv_def)
qed

lemma builders_inv_step:
  "life_step c L L' \<Longrightarrow> config_ok c \<Longrightarrow> shaped (the_pipe L) \<Longrightarrow> builders_inv c L \<Longrightarrow> builders_inv c L'"
proof (induction rule: life_step.induct)
  case (PipeWork L p)
  then show ?case by (intro builders_inv_work)
next
  case (BuilderStop L i p)
  then show ?case by (intro builders_inv_stop)
next
  case (BuilderReturn i L)
  then show ?case by (auto simp: builders_inv_def nth_list_update)
next
  case (BuilderWait i L)
  then show ?case by (auto simp: builders_inv_def nth_list_update)
next
  case (LaneSend L i js p)
  then show ?case by (auto simp: builders_inv_def flushed_def wg_count_def elim!: pipe_step_elims)
next
  case (LaneCount L p)
  then show ?case by (auto simp: builders_inv_def flushed_def wg_count_def elim!: pipe_step_elims)
qed (simp_all add: builders_inv_def)

lemma work_queues:
  assumes "pipe_step c AWork p p'" and "shaped p" and "\<not> live p ! j"
  shows "queues p' ! j = queues p ! j"
  using assms(1)
proof cases
  case (Take i js rest)
  then show ?thesis using assms(2,3) by (cases "i = j") (auto simp: idle_def)
qed simp_all

text \<open>
  Once a builder has flushed, the pipe was stopped, so the transaction lane
  has returned; if it did so in order it has no connection left to send.
\<close>

lemma no_free_conn:
  assumes "lanes_inv n L" and "0 < n" and "pipe_stopped L" and "\<not> lane_err L ! tx_lane_index"
  shows "\<not> free_conn L \<and> senders (the_pipe L) = [] \<and> conns L ! tx_lane_index = 0"
  using assms by (auto simp: lanes_inv_def True_notin_iff tx_lane_index_def free_conn_def)

lemma queues_inv_init: "queues_inv (life_init c n ts)"
  by (simp add: queues_inv_def life_init_def pipe_init_def)

lemma queues_inv_step:
  "life_step c L L' \<Longrightarrow> 0 < n \<Longrightarrow> lanes_inv n L \<Longrightarrow> shaped (the_pipe L) \<Longrightarrow> builders_inv c L \<Longrightarrow>
   queues_inv L \<Longrightarrow> queues_inv L'"
proof (induction rule: life_step.induct)
  case (AcceptError l L)
  then show ?case by (auto simp: queues_inv_def nth_list_update lanes_inv_def tx_lane_index_def split: if_splits)
next
  case (LaneSend L i js p)
  have "live (the_pipe L) ! j" if "\<not> lane_err L ! tx_lane_index" "j < length (builders (the_pipe L))" for j
    using LaneSend(1,4,6) no_free_conn [OF LaneSend(4,3)] that by (auto simp: builders_inv_def split: if_splits)
  with LaneSend(2) show ?case by (auto simp: queues_inv_def elim!: pipe_step_elims)
next
  case (LaneCount L p)
  then show ?case by (auto simp: queues_inv_def elim!: pipe_step_elims)
next
  case (PipeWork L p)
  then show ?case using work_queues [OF PipeWork(1)] work_frame [OF PipeWork(1)] by (auto simp: queues_inv_def)
next
  case (BuilderStop L i p)
  have "queues p ! j = []" if "\<not> lane_err L ! tx_lane_index" "j < length (builders p)" "\<not> live p ! j" for j
    using shutdown_builder [OF BuilderStop(2,5)] BuilderStop(7) that by (cases "j = i") (auto simp: queues_inv_def)
  then show ?case by (simp add: queues_inv_def)
qed (simp_all add: queues_inv_def)

lemma life_step_pipe: "life_step c L L' \<Longrightarrow> reachable c (the_pipe L) \<Longrightarrow> reachable c (the_pipe L')"
  by (induction rule: life_step.induct) (simp_all, (erule (1) reachable.Step)+)

definition life_inv :: "pipe_Config \<Rightarrow> nat \<Rightarrow> life \<Rightarrow> bool" where
  "life_inv c n L \<longleftrightarrow> reachable c (the_pipe L) \<and> lanes_inv n L \<and> builders_inv c L \<and> queues_inv L"

lemma life_inv_step:
  assumes "life_step c L L'" and "config_ok c" and "0 < n" and "life_inv c n L"
  shows "life_inv c n L'"
proof -
  have i: "reachable c (the_pipe L)" "lanes_inv n L" "builders_inv c L" "queues_inv L"
    using assms(4) by (simp_all add: life_inv_def)
  have "shaped (the_pipe L)" using reachable_inv [OF i(1)] by simp
  then show ?thesis unfolding life_inv_def
    using i assms by (intro conjI life_step_pipe [OF assms(1)] lanes_inv_step [OF assms(1)]
        builders_inv_step [OF assms(1)] queues_inv_step [OF assms(1)])
qed

lemma life_inv_reach: "life_reach c n ts L \<Longrightarrow> config_ok c \<Longrightarrow> 0 < n \<Longrightarrow> life_inv c n L"
proof (induction rule: life_reach.induct)
  case Start
  then show ?case
    by (simp add: life_inv_def lanes_inv_init builders_inv_init queues_inv_init)
       (simp add: life_init_def reachable.Init)
qed (rule life_inv_step)

section \<open>What a stopped bridge holds\<close>

lemma total_zero: "(\<And>x. x \<in> set xs \<Longrightarrow> f x = 0) \<Longrightarrow> total f xs = 0"
  by (induction xs) simp_all

lemma stopped_holds_nothing:
  assumes "life_inv c n L" and "0 < n" and "bridge_stopped L" and "\<not> lane_err L ! tx_lane_index"
    and "0 < length (builders (the_pipe L))"
  shows "held (the_pipe L) = 0 \<and> senders (the_pipe L) = []"
proof -
  define p where "p = the_pipe L"
  have sh: "shaped p" using assms(1) reachable_inv by (auto simp: life_inv_def p_def)
  have inv: "lanes_inv n L" "builders_inv c L" "queues_inv L" using assms(1) by (simp_all add: life_inv_def)
  have gone: "gone L ! i" if "i < length (builders p)" for i
    using assms(3) inv(2) that by (simp add: bridge_stopped_def False_notin_iff builders_inv_def p_def)
  have each: "\<not> live p ! i \<and> sealed (builders p ! i) = [] \<and> flushed p i \<and> pipe_stopped L"
    if "i < length (builders p)" for i
    using gone [OF that] inv(2) that unfolding builders_inv_def p_def [symmetric] by (auto split: if_splits)
  have stop: "pipe_stopped L" using each [of 0] assms(5) by (simp add: p_def)
  have "queues p ! i = []" if "i < length (builders p)" for i
    using inv(3) each [OF that] assms(4) that by (simp add: queues_inv_def p_def)
  then have "total run_size (queues p) = 0"
    using sh by (intro total_zero) (auto simp: in_set_conv_nth shaped_def run_size_def)
  moreover have "total length (todo p) = 0"
    using each sh by (intro total_zero) (auto simp: in_set_conv_nth shaped_def flushed_def)
  moreover have "total (\<lambda>b. length (taken b)) (builders p) = 0"
    using each by (intro total_zero) (auto simp: in_set_conv_nth flushed_def taken_def)
  moreover have "inflight p = []" "retrying p = []"
    using inv(2) assms(3) by (simp_all add: builders_inv_def bridge_stopped_def wg_count_def p_def)
  ultimately show ?thesis
    using no_free_conn [OF inv(1) assms(2) stop assms(4)] by (simp add: held_def p_def)
qed

section \<open>Termination\<close>

text \<open>
  What is left to do: a queued or waiting transaction may still fill and seal
  a batch, a sealed batch has a launch, a submission and a retry before it, an
  in-flight one a submission and a retry, a retrying one the retry; a builder
  that runs has its flush, then its wait and its return.
\<close>

definition builder_pot :: "builder \<Rightarrow> nat" where
  "builder_pot b = 3 * length (sealed b) + (if jobs (cur b) = [] then 0 else 4)"

definition pipe_pot :: "pipe \<Rightarrow> nat" where
  "pipe_pot p = total (\<lambda>q. 7 * run_size q + length q) (queues p) + total (\<lambda>js. 6 * length js) (todo p) +
     total builder_pot (builders p) + 2 * length (inflight p) + length (retrying p) +
     total (\<lambda>b. if b then 4 else 0) (live p)"

lemma seal_pot: "builder_pot (seal r b) \<le> builder_pot b"
  "jobs (cur b) \<noteq> [] \<Longrightarrow> builder_pot (seal r b) < builder_pot b"
  by (auto simp: builder_pot_def seal_def newBatch_def)

lemma add_job_pot: "builder_pot (add_job c now j s) \<le> builder_pot s + 4"
proof -
  define s1 where "s1 = (if dependsOnBatch (raw j) (ids (cur s)) then seal SealDep s else s)"
  define s2 where "s2 = (if jobs (cur s1) = []
      then s1 \<lparr> cur := (cur s1) \<lparr> born := now \<rparr>, timer := Some (now + Linger c) \<rparr> else s1)"
  define s3 where "s3 = s2 \<lparr> cur := push_job j (cur s2) \<rparr>"
  have "builder_pot s1 \<le> builder_pot s" using seal_pot(1) by (simp add: s1_def)
  moreover have "builder_pot s2 = builder_pot s1" by (simp add: s2_def builder_pot_def)
  moreover have "builder_pot s3 \<le> builder_pot s2 + 4" by (simp add: s3_def builder_pot_def)
  moreover have "builder_pot (add_job c now j s) \<le> builder_pot s3"
    by (simp only: add_job_def s1_def [symmetric] s2_def [symmetric] s3_def [symmetric] Let_def)
       (simp add: seal_pot(1))
  ultimately show ?thesis by simp
qed

lemma shutdown_pot: "builder_pot (builder_shutdown rs b) \<le> builder_pot b + 3"
  by (auto simp: builder_pot_def builder_shutdown_def seal_def newBatch_def fold_drain_runs)

lemma work_pot:
  assumes "pipe_step c AWork p p'" and "shaped p"
    and ok: "\<forall>i < length (builders p). live p ! i \<longrightarrow> builder_ok c (builders p ! i)"
  shows "pipe_pot p' < pipe_pot p"
  using assms(1)
proof cases
  case (Take i js rest)
  then have i: "i < length (queues p)" "i < length (todo p)" "todo p ! i = []"
    using assms(2) by (simp_all add: idle_def shaped_def)
  then show ?thesis using Take
      total_update [OF i(1), where f = "\<lambda>q. 7 * run_size q + length q" and y = rest]
      total_update [OF i(2), where f = "\<lambda>js. 6 * length js" and y = js]
    by (simp add: pipe_pot_def run_size_def)
next
  case (Add i j rest now)
  then have i: "i < length (todo p)" using assms(2) by (simp add: shaped_def)
  show ?thesis using Add add_job_pot [of c now j "builders p ! i"]
      total_update [OF i, where f = "\<lambda>js. 6 * length js" and y = rest]
      total_update [OF Add(2), where f = builder_pot and y = "add_job c now j (builders p ! i)"]
    by (simp add: pipe_pot_def)
next
  case (LingerTick i t now)
  then have i: "i < length (builders p)" "live p ! i" by (simp_all add: idle_def)
  then have "jobs (cur (builders p ! i)) \<noteq> []" using ok LingerTick by (auto simp: builder_ok_def)
  then have "builder_pot (builder_step c (LingerFires now) (builders p ! i)) < builder_pot (builders p ! i)"
    using LingerTick seal_pot(2) by (simp add: builder_step_def)
  then show ?thesis using LingerTick
      total_update [OF i(1), where f = builder_pot and y = "builder_step c (LingerFires now) (builders p ! i)"]
    by (simp add: pipe_pot_def)
next
  case (Launch i r b rest)
  then show ?thesis
    using total_update [OF Launch(2), where f = builder_pot and y = "(builders p ! i) \<lparr> sealed := rest \<rparr>"]
    by (simp add: pipe_pot_def builder_pot_def)
qed (auto simp: pipe_pot_def add_retry_def)

lemma stop_pot:
  assumes "pipe_step c (AShutdown i) p p'" and "shaped p"
  shows "pipe_pot p' < pipe_pot p"
  using assms(1)
proof cases
  case Shutdown
  then have i: "i < length (queues p)" "i < length (builders p)" "i < length (live p)" "live p ! i"
    using assms(2) by (simp_all add: idle_def shaped_def)
  then show ?thesis using Shutdown shutdown_pot [of "queues p ! i" "builders p ! i"]
      total_update [OF i(1), where f = "\<lambda>q. 7 * run_size q + length q" and y = "[]"]
      total_update [OF i(2), where f = builder_pot and y = "builder_shutdown (queues p ! i) (builders p ! i)"]
      total_update [OF i(3), where f = "\<lambda>b. if b then 4 else 0" and y = False]
    by (simp add: pipe_pot_def run_size_def)
qed

definition life_pot :: "life \<Rightarrow> nat" where
  "life_pot L = pipe_pot (the_pipe L) + sum_list (conns L) + length (tasks L) +
     total (\<lambda>b. if b then 0 else 1) (waiting L) + total (\<lambda>b. if b then 0 else 2) (gone L)"

text \<open>Once the pipe is stopped and the transaction lane ended in order, every step is progress.\<close>

lemma remove1_pot: "t \<in> set ts \<Longrightarrow> length (remove1 t ts) < length ts"
  by (simp add: length_remove1) (cases ts, auto)

lemma builders_live_ok: "builders_inv c L \<Longrightarrow>
    \<forall>i < length (builders (the_pipe L)). live (the_pipe L) ! i \<longrightarrow> builder_ok c (builders (the_pipe L) ! i)"
  by (auto simp: builders_inv_def split: if_splits)

lemma step_pot:
  assumes "life_step c L L'" and inv: "life_inv c n L" and n: "0 < n"
    and stop: "pipe_stopped L" and err: "\<not> lane_err L ! tx_lane_index"
  shows "life_pot L' < life_pot L"
proof -
  have i: "shaped (the_pipe L)" "lanes_inv n L" "builders_inv c L"
    using inv reachable_inv by (auto simp: life_inv_def)
  note F = no_free_conn [OF i(2) n stop err]
  have ended: "True \<notin> set (serving L)" "gctx_done L"
    using i(2) stop n by (auto simp: lanes_inv_def True_notin_iff)
  show ?thesis using assms(1)
  proof cases
    case (CloseConn l m)
    then show ?thesis using sum_list_update [of l "conns L" m] elem_le_sum_list [of l "conns L"] by (simp add: life_pot_def)
  next
    case (PipeWork p)
    then show ?thesis using work_pot [OF PipeWork(2) i(1) builders_live_ok [OF i(3)]] by (simp add: life_pot_def)
  next
    case (BuilderStop j p)
    then show ?thesis using stop_pot [OF BuilderStop(3) i(1)] by (simp add: life_pot_def)
  next
    case (BuilderWait j)
    then show ?thesis
      using total_update [OF BuilderWait(2), where f = "\<lambda>b. if b then 0 else 1" and y = True]
      by (simp add: life_pot_def)
  next
    case (BuilderReturn j)
    have "j < length (gone L)" "\<not> gone L ! j" using i(3) BuilderReturn by (auto simp: builders_inv_def)
    then show ?thesis using BuilderReturn
        total_update [OF BuilderReturn(2), where f = "\<lambda>b. if b then 0 else 1" and y = False]
        total_update [of j "gone L" "\<lambda>b. if b then 0 else 2" True]
      by (simp add: life_pot_def)
  qed (use F ended stop in \<open>auto simp: life_pot_def remove1_pot True_notin_iff elim!: pipe_step_elims\<close>)
qed

lemma queues_shrink:
  assumes "pipe_step c a p p'" and "a = AWork \<or> a = AShutdown i" and "queues p ! j = []"
  shows "queues p' ! j = []"
  using assms
proof (induction rule: pipe_step.induct)
  case (Take p i js rest)
  then show ?case by (cases "i = j") simp_all
next
  case (Shutdown p i)
  then show ?case by (cases "i = j"; cases "j < length (queues p)") (simp_all add: list_update_beyond)
qed simp_all

text \<open>Steps that end the bridge without touching a connection or the intake.\<close>

definition drains :: "life \<Rightarrow> life \<Rightarrow> bool" where
  "drains L L' \<longleftrightarrow> pipe_stopped L' = pipe_stopped L \<and> conns L' = conns L \<and> lane_err L' = lane_err L \<and> group_err L' = group_err L \<and>
     senders (the_pipe L') = senders (the_pipe L) \<and>
     enqueued (stats (the_pipe L')) = enqueued (stats (the_pipe L)) \<and>
     (\<forall>i. queues (the_pipe L) ! i = [] \<longrightarrow> queues (the_pipe L') ! i = []) \<and> life_pot L' < life_pot L"

lemma work_drains:
  assumes "pipe_step c AWork (the_pipe L) p" and "shaped (the_pipe L)" and "builders_inv c L"
  shows "\<exists>L'. life_step c L L' \<and> drains L L'"
proof (intro exI conjI)
  show "life_step c L (L \<lparr> the_pipe := p \<rparr>)" using assms(1) by (rule life_step.PipeWork)
  show "drains L (L \<lparr> the_pipe := p \<rparr>)"
    using senders_step [OF assms(1)] work_pot [OF assms(1,2) builders_live_ok [OF assms(3)]]
      queues_shrink [OF assms(1)]
    by (simp add: drains_def life_pot_def)
qed

lemma settle_drains:
  assumes "wg_count (the_pipe L) \<noteq> 0" and "shaped (the_pipe L)" and "builders_inv c L"
  shows "\<exists>L'. life_step c L L' \<and> drains L L'"
proof (cases "inflight (the_pipe L)")
  case (Cons b bs)
  obtain k rt where "submit c undefined b (stats (the_pipe L)) = (k, rt)" by fastforce
  from pipe_step.Settle [OF _ this, of "[]" bs] Cons have "\<exists>p. pipe_step c AWork (the_pipe L) p" by auto
  then show ?thesis using work_drains [OF _ assms(2,3)] by blast
next
  case Nil
  then obtain rt rts where "retrying (the_pipe L) = [] @ rt # rts"
    using assms(1) by (cases "retrying (the_pipe L)") (auto simp: wg_count_def)
  then show ?thesis using work_drains [OF pipe_step.Retry assms(2,3)] by blast
qed

lemma launch_drains:
  assumes "i < length (builders (the_pipe L))" and "sealed (builders (the_pipe L) ! i) \<noteq> []"
    and "0 < Inflight c" and "shaped (the_pipe L)" and "builders_inv c L"
  shows "\<exists>L'. life_step c L L' \<and> drains L L'"
proof (cases "int (length (inflight (the_pipe L))) < Inflight c")
  case True
  obtain r b rest where "sealed (builders (the_pipe L) ! i) = (r, b) # rest"
    using assms(2) by (cases "sealed (builders (the_pipe L) ! i)") auto
  then show ?thesis using work_drains [OF pipe_step.Launch [OF assms(1) _ True] assms(4,5)] by blast
next
  case False
  then have "wg_count (the_pipe L) \<noteq> 0" using assms(3) by (auto simp: wg_count_def)
  then show ?thesis using settle_drains assms(4,5) by blast
qed

text \<open>Each builder that has not returned has a next step of its own, or a submission it waits for has one.\<close>

lemma builder_drains:
  assumes i: "i < length (builders (the_pipe L))" and g: "\<not> gone L ! i" and stop: "pipe_stopped L"
    and c: "0 < Inflight c" and sh: "shaped (the_pipe L)" and inv: "builders_inv c L"
  shows "\<exists>L'. life_step c L L' \<and> drains L L'"
proof -
  define b where "b = builders (the_pipe L) ! i"
  consider "sealed b \<noteq> []" | "sealed b = []" "live (the_pipe L) ! i" | "sealed b = []" "\<not> live (the_pipe L) ! i"
    by blast
  then show ?thesis
  proof cases
    case 1
    then show ?thesis using launch_drains [OF i _ c sh inv] by (simp add: b_def)
  next
    case 2
    show ?thesis
    proof (cases "todo (the_pipe L) ! i")
      case (Cons j rest)
      then show ?thesis using work_drains [OF pipe_step.Add sh inv] i 2 by (simp add: b_def)
    next
      case Nil
      then have "idle (the_pipe L) i" using i 2 by (simp add: idle_def b_def)
      then obtain p where p: "pipe_step c (AShutdown i) (the_pipe L) p"
        by (rule that [OF pipe_step.Shutdown])
      have "drains L (L \<lparr> the_pipe := p \<rparr>)"
        using senders_step [OF p] stop_pot [OF p sh] queues_shrink [OF p] by (simp add: drains_def life_pot_def)
      then show ?thesis using life_step.BuilderStop [OF stop p] by blast
    qed
  next
    case 3
    have w: "i < length (waiting L)" "i < length (gone L)" using inv i by (simp_all add: builders_inv_def)
    consider "\<not> waiting L ! i" | "waiting L ! i" "wg_count (the_pipe L) \<noteq> 0"
      | "waiting L ! i" "wg_count (the_pipe L) = 0" by blast
    then show ?thesis
    proof cases
      case 1
      then have "drains L (L \<lparr> waiting := (waiting L)[i := True] \<rparr>)"
        using total_update [OF w(1), where f = "\<lambda>b. if b then 0 else 1" and y = True]
        by (simp add: drains_def life_pot_def)
      then show ?thesis using life_step.BuilderWait [OF w(1), of c] 3 1 g by (auto simp: b_def)
    next
      case 2
      then show ?thesis using settle_drains [OF _ sh inv] by blast
    next
      case 3
      then have "drains L (L \<lparr> waiting := (waiting L)[i := False], gone := (gone L)[i := True] \<rparr>)"
        using g total_update [OF w(1), where f = "\<lambda>b. if b then 0 else 1" and y = False]
          total_update [OF w(2), where f = "\<lambda>b. if b then 0 else 2" and y = True]
        by (simp add: drains_def life_pot_def)
      then show ?thesis using life_step.BuilderReturn [OF w(1) 3, of c] by blast
    qed
  qed
qed

lemma shutdown_progress:
  assumes inv: "life_inv c n L" and n: "0 < n" and c: "0 < Inflight c" and stop: "pipe_stopped L"
    and go: "\<not> bridge_stopped L"
  shows "\<exists>L'. life_step c L L' \<and> drains L L'"
proof -
  have i: "shaped (the_pipe L)" "lanes_inv n L" "builders_inv c L"
    using inv reachable_inv by (auto simp: life_inv_def)
  have ended: "True \<notin> set (serving L)" "gctx_done L"
    using i(2) stop n by (auto simp: lanes_inv_def True_notin_iff)
  show ?thesis
  proof (cases "tasks L")
    case (Cons t ts)
    then have "drains L (L \<lparr> tasks := remove1 t (tasks L) \<rparr>)" by (simp add: drains_def life_pot_def)
    then show ?thesis using life_step.TaskReturn [of t L c] Cons ended by auto
  next
    case Nil
    then obtain j where "j < length (gone L)" "\<not> gone L ! j"
      using go ended by (auto simp: bridge_stopped_def False_notin_iff)
    moreover have "length (gone L) = length (builders (the_pipe L))" using i(3) by (simp add: builders_inv_def)
    ultimately show ?thesis using builder_drains [OF _ _ stop c i(1,3)] by simp
  qed
qed

lemma drain_to_end:
  assumes "life_inv c n L" and "0 < n" and "config_ok c" and "0 < Inflight c" and "pipe_stopped L"
  shows "\<exists>L'. (life_step c)\<^sup>*\<^sup>* L L' \<and> bridge_stopped L' \<and> conns L' = conns L \<and> lane_err L' = lane_err L \<and>
    group_err L' = group_err L \<and> senders (the_pipe L') = senders (the_pipe L) \<and>
    enqueued (stats (the_pipe L')) = enqueued (stats (the_pipe L)) \<and>
    (\<forall>i. queues (the_pipe L) ! i = [] \<longrightarrow> queues (the_pipe L') ! i = [])"
  using assms
proof (induction "life_pot L" arbitrary: L rule: less_induct)
  case less
  show ?case
  proof (cases "bridge_stopped L")
    case False
    then obtain M where M: "life_step c L M" "drains L M" using shutdown_progress less.prems by blast
    have "life_inv c n M" using life_inv_step [OF M(1)] less.prems by blast
    moreover have "pipe_stopped M" "life_pot M < life_pot L" using M(2) less.prems by (simp_all add: drains_def)
    ultimately obtain L' where "(life_step c)\<^sup>*\<^sup>* M L'" "bridge_stopped L'" "conns L' = conns M"
      "lane_err L' = lane_err M" "group_err L' = group_err M" "senders (the_pipe L') = senders (the_pipe M)"
      "enqueued (stats (the_pipe L')) = enqueued (stats (the_pipe M))"
      "\<forall>i. queues (the_pipe M) ! i = [] \<longrightarrow> queues (the_pipe L') ! i = []"
      using less.hyps less.prems by blast
    then show ?thesis using M converse_rtranclp_into_rtranclp [of "life_step c", OF M(1)]
      by (auto simp: drains_def)
  qed auto
qed

lemma life_reach_run: "life_reach c n ts L \<Longrightarrow> (life_step c)\<^sup>*\<^sup>* L L' \<Longrightarrow> life_reach c n ts L'"
  by (rotate_tac 1) (induction rule: rtranclp_induct, auto intro: life_reach.Next)

text \<open>Being stopped, with the transaction lane ended in order, is kept by every step.\<close>

lemma stopped_step:
  assumes "life_step c L L'" and "lanes_inv n L" and "0 < n" and "pipe_stopped L" and "\<not> lane_err L ! tx_lane_index"
  shows "pipe_stopped L' \<and> \<not> lane_err L' ! tx_lane_index"
  using assms by (induction rule: life_step.induct) (auto simp: lanes_inv_def True_notin_iff)

text \<open>A bridge in its shutdown: the pipe stopped, the transaction lane ended in order.\<close>

definition in_shutdown :: "pipe_Config \<Rightarrow> nat \<Rightarrow> life \<Rightarrow> bool" where
  "in_shutdown c n L \<longleftrightarrow> config_ok c \<and> 0 < Inflight c \<and> 0 < n \<and> life_inv c n L \<and>
     pipe_stopped L \<and> \<not> lane_err L ! tx_lane_index"

interpretation shutdown: terminating_system "life_step c" "in_shutdown c n" life_pot bridge_stopped for c n
proof unfold_locales
  fix L L'
  assume i: "in_shutdown c n L" and s: "life_step c L L'"
  then have inv: "life_inv c n L" "lanes_inv n L" "0 < n" "pipe_stopped L" "\<not> lane_err L ! tx_lane_index" "config_ok c"
    by (simp_all add: in_shutdown_def life_inv_def)
  show "in_shutdown c n L'"
    using i life_inv_step [OF s inv(6,3,1)] stopped_step [OF s inv(2-5)] by (simp add: in_shutdown_def)
  show "life_pot L' < life_pot L" by (rule step_pot [OF s inv(1,3-5)])
next
  fix L
  assume "in_shutdown c n L" and "\<not> bridge_stopped L"
  then show "\<exists>L'. life_step c L L'" using shutdown_progress [of c n L] by (auto simp: in_shutdown_def)
qed

lemma pipe_defaults_inflight: "0 < Inflight (pipe_defaults c)"
  by (simp add: pipe_defaults_def or_default_def)

lemma reachable_builders: "reachable c p \<Longrightarrow> length (builders p) = nat (Builders c)"
proof (induction rule: reachable.induct)
  case (Step p a p')
  from Step(2,3) show ?case by (induction rule: pipe_step.induct) simp_all
qed (simp add: pipe_init_def)

lemma life_builders: "life_inv c n L \<Longrightarrow> length (builders (the_pipe L)) = nat (Builders c)"
  by (simp add: life_inv_def reachable_builders)

section \<open>Runs used below\<close>

lemma life_next: "life_reach c n ts L \<Longrightarrow> life_step c L M \<Longrightarrow> M = L' \<Longrightarrow> life_reach c n ts L'"
  by (auto intro: life_reach.Next)

text \<open>One lane, one connection, two runs handed to two builders and counted, then an orderly stop.\<close>

definition fed_pipe :: "pipe_Config \<Rightarrow> pipe" where
  "fed_pipe c = (pipe_init c) \<lparr> queues := (queues (pipe_init c))[0 := [[sample_parent]], Suc 0 := [[sample_child]]],
     queued := 2, stats := counters_zero \<lparr> enqueued := 2 \<rparr> \<rparr>"

definition fed_life :: "pipe_Config \<Rightarrow> life" where
  "fed_life c = (life_init c 1 [TReady]) \<lparr> gctx_done := True, serving := [False], listening := [False],
     conns := [0], pipe_stopped := True, the_pipe := fed_pipe c \<rparr>"

lemma send_step:
  assumes "free_conn L" and "i < length (queues (the_pipe L))" and "queues (the_pipe L) ! i = []"
    and "senders (the_pipe L) = []" and "life_reach c n ts L"
  shows "life_reach c n ts (L \<lparr> the_pipe := (the_pipe L) \<lparr> queues := (queues (the_pipe L))[i := [js]],
    senders := [], queued := queued (the_pipe L) + int (length js),
    stats := (stats (the_pipe L)) \<lparr> enqueued := enqueued (stats (the_pipe L)) + length js \<rparr> \<rparr> \<rparr>)"
proof -
  define q where "q = (the_pipe L) \<lparr> queues := (queues (the_pipe L))[i := [js]], senders := [length js] \<rparr>"
  have "pipe_step c (ASend i js) (the_pipe L) q"
    using pipe_step.Send [OF assms(2), where c = c and js = js] assms(3,4) queue_depth_pos by (simp add: q_def)
  from life_step.LaneSend [OF assms(1) this]
  have 1: "life_reach c n ts (L \<lparr> the_pipe := q \<rparr>)" using assms(5) by (rule life_reach.Next [rotated])
  have "pipe_step c ACount q (q \<lparr> senders := [] @ [], queued := queued q + int (length js),
      stats := (stats q) \<lparr> enqueued := enqueued (stats q) + length js \<rparr> \<rparr>)"
    by (rule pipe_step.Count) (simp add: q_def)
  then show ?thesis
    by (intro life_next [OF 1 life_step.LaneCount]) (simp_all add: q_def)
qed

lemma orderly_stop:
  assumes "life_reach c 1 ts L" and "conns L = [1]" and "serving L = [True]" and "listening L = [True]"
    and "\<not> gctx_done L" and "senders (the_pipe L) = []" and "\<not> pipe_stopped L"
  shows "life_reach c 1 ts (L \<lparr> conns := [0], gctx_done := True, listening := [False], serving := [False],
    pipe_stopped := True \<rparr>)"
proof -
  have 1: "life_reach c 1 ts (L \<lparr> conns := [0] \<rparr>)"
    by (rule life_next [OF assms(1) life_step.CloseConn [where l = 0 and n = 0]])
       (use assms in \<open>simp_all add: free_conn_def tx_lane_index_def\<close>)
  have 2: "life_reach c 1 ts (L \<lparr> conns := [0], gctx_done := True \<rparr>)"
    by (rule life_next [OF 1 life_step.Signal]) (use assms in simp_all)
  have 3: "life_reach c 1 ts (L \<lparr> conns := [0], gctx_done := True, listening := [False] \<rparr>)"
    by (rule life_next [OF 2 life_step.CloseListener [where l = 0]]) (use assms in simp_all)
  have 4: "life_reach c 1 ts (L \<lparr> conns := [0], gctx_done := True, listening := [False], serving := [False] \<rparr>)"
    by (rule life_next [OF 3 life_step.LaneReturn [where l = 0]]) (use assms in simp_all)
  show ?thesis by (rule life_next [OF 4 life_step.StopPipe]) (use assms in simp_all)
qed

lemma conn_open_reach: "life_reach c 1 ts ((life_init c 1 ts) \<lparr> conns := [1] \<rparr>)"
  by (rule life_next [OF life_reach.Start life_step.AcceptConn [where l = 0]]) (simp_all add: life_init_def)

lemma fed_life_reach:
  assumes "2 \<le> Builders c"
  shows "life_reach c 1 [TReady] (fed_life c)"
proof -
  have n: "2 \<le> nat (Builders c)" using assms by linarith
  note 1 = conn_open_reach [of c "[TReady]"]
  note 2 = send_step [OF _ _ _ _ 1, where i = 0 and js = "[sample_parent]"]
  note 3 = send_step [OF _ _ _ _ 2, where i = "Suc 0" and js = "[sample_child]"]
  note 4 = orderly_stop [OF 3]
  show ?thesis using 4 n assms
    by (simp add: fed_life_def fed_pipe_def free_conn_def life_init_def pipe_init_def tx_lane_index_def counters_zero_def
        numeral_2_eq_2)
qed

section \<open>Winding down\<close>

text \<open>What is left to end before the pipe can be stopped.\<close>

definition wind_pot :: "life \<Rightarrow> nat" where
  "wind_pot L = total of_bool (listening L) + length (senders (the_pipe L)) + sum_list (conns L) +
     total of_bool (serving L) + of_bool (\<not> pipe_stopped L)"

lemma wind_step:
  assumes "life_inv c n L" and "0 < n" and "gctx_done L" and "\<not> pipe_stopped L"
  shows "\<exists>L'. life_step c L L' \<and> gctx_done L' \<and> lane_err L' = lane_err L \<and> group_err L' = group_err L \<and> wind_pot L' < wind_pot L"
proof -
  have inv: "lanes_inv n L" using assms(1) by (simp add: life_inv_def)
  have len: "length (serving L) = n" "length (listening L) = n" "length (conns L) = n" using inv by (simp_all add: lanes_inv_def)
  consider (listen) l where "l < n" "listening L ! l"
    | (conn) l m where "l < n" "conns L ! l = Suc m"
    | (serve) l where "l < n" "serving L ! l" "\<not> listening L ! l" "conns L ! l = 0"
    | (stop) "True \<notin> set (serving L)"
    using len by (auto simp: True_notin_iff) (metis not0_implies_Suc)
  then show ?thesis
  proof cases
    case listen
    have "serving L ! l" using inv listen by (auto simp: lanes_inv_def)
    then have "life_step c L (L \<lparr> listening := (listening L)[l := False] \<rparr>)"
      using listen len assms(3) by (intro life_step.CloseListener) simp_all
    then show ?thesis using assms(3) listen len total_update [of l "listening L" of_bool False]
      by (intro exI [of _ "L \<lparr> listening := (listening L)[l := False] \<rparr>"]) (simp add: wind_pot_def)
  next
    case conn
    show ?thesis
    proof (cases "l = tx_lane_index \<longrightarrow> free_conn L")
      case True
      then have "life_step c L (L \<lparr> conns := (conns L)[l := m] \<rparr>)" using conn len by (intro life_step.CloseConn) simp_all
      then show ?thesis using assms(3) conn len sum_list_update [of l "conns L" m] elem_le_sum_list [of l "conns L"]
        by (intro exI [of _ "L \<lparr> conns := (conns L)[l := m] \<rparr>"]) (simp add: wind_pot_def)
    next
      case False
      then obtain k ns where s: "senders (the_pipe L) = [] @ k # ns"
        using conn by (cases "senders (the_pipe L)") (simp_all add: free_conn_def)
      from pipe_step.Count [OF this, of c] obtain p where p: "pipe_step c ACount (the_pipe L) p" "senders p = ns" by fastforce
      then show ?thesis using life_step.LaneCount [OF p(1)] assms(3) s
        by (intro exI [of _ "L \<lparr> the_pipe := p \<rparr>"]) (simp add: wind_pot_def)
    qed
  next
    case serve
    then have "life_step c L (L \<lparr> serving := (serving L)[l := False] \<rparr>)" using len by (intro life_step.LaneReturn) simp_all
    then show ?thesis using assms(3) serve len total_update [of l "serving L" of_bool False]
      by (intro exI [of _ "L \<lparr> serving := (serving L)[l := False] \<rparr>"]) (simp add: wind_pot_def)
  next
    case stop
    then have "life_step c L (L \<lparr> pipe_stopped := True \<rparr>)" using assms(4) by (intro life_step.StopPipe)
    then show ?thesis using assms(3,4)
      by (intro exI [of _ "L \<lparr> pipe_stopped := True \<rparr>"]) (simp add: wind_pot_def)
  qed
qed

lemma wind_down:
  assumes "life_inv c n L" and "0 < n" and "config_ok c" and "gctx_done L"
  shows "\<exists>L'. (life_step c)\<^sup>*\<^sup>* L L' \<and> life_inv c n L' \<and> pipe_stopped L' \<and> lane_err L' = lane_err L \<and>
    group_err L' = group_err L"
  using assms
proof (induction "wind_pot L" arbitrary: L rule: less_induct)
  case less
  show ?case
  proof (cases "pipe_stopped L")
    case False
    then obtain M where M: "life_step c L M" "gctx_done M" "lane_err M = lane_err L" "group_err M = group_err L" "wind_pot M < wind_pot L"
      using wind_step less.prems by blast
    have "life_inv c n M" using life_inv_step [OF M(1)] less.prems by blast
    then show ?thesis using less.hyps [OF M(5) _ less.prems(2,3) M(2)] M(1,3,4)
      by (metis converse_rtranclp_into_rtranclp)
  qed (use less.prems in blast)
qed

lemma stop_possible:
  assumes "life_inv c n L" and "0 < n" and "config_ok c" and "0 < Inflight c" and "gctx_done L"
  shows "\<exists>L'. (life_step c)\<^sup>*\<^sup>* L L' \<and> bridge_stopped L' \<and> lane_err L' = lane_err L \<and>
    group_err L' = group_err L"
proof -
  obtain M where M: "(life_step c)\<^sup>*\<^sup>* L M" "life_inv c n M" "pipe_stopped M" "lane_err M = lane_err L"
    "group_err M = group_err L"
    using wind_down [OF assms(1-3,5)] by blast
  obtain L' where "(life_step c)\<^sup>*\<^sup>* M L'" "bridge_stopped L'" "lane_err L' = lane_err M" "group_err L' = group_err M"
    using drain_to_end [OF M(2) assms(2-4) M(3)] by blast
  then show ?thesis using M by (auto intro: rtranclp_trans)
qed

lemma reachable_no_builders:
  assumes "reachable c p" and "nat (Builders c) = 0"
  shows "p = pipe_init c"
  using assms
proof (induction rule: reachable.induct)
  case (Step p a p')
  then have p: "p = pipe_init c" by blast
  from Step(2) have False
    using Step.prems unfolding p by cases (simp_all add: pipe_init_def idle_def)
  then show ?case ..
qed simp

section \<open>Properties\<close>

lemma graceful_facts:
  assumes "life_reach c n ts L" and "config_ok c" and "0 < nat (Builders c)" and "0 < n" and "bridge_stopped L"
    and "\<not> lane_err L ! tx_lane_index"
  shows "let p = the_pipe L; k = stats p in
    senders p = [] \<and> held p = 0 \<and> queued p = 0 \<and>
    accepted k + rejected k + failed k \<le> enqueued k \<and>
    enqueued k \<le> accepted k + rejected k + failed k + unattributed k"
proof -
  have inv: "life_inv c n L" using life_inv_reach [OF assms(1,2,4)] .
  have "0 < length (builders (the_pipe L))" using life_builders [OF inv] assms(3) by simp
  note H = stopped_holds_nothing [OF inv assms(4-6) this]
  have r: "balanced (the_pipe L)" "queue_counted (the_pipe L)"
    using inv reachable_inv by (auto simp: life_inv_def)
  have "total run_size (queues (the_pipe L)) = 0" using H by (simp add: held_def)
  with H r show ?thesis by (simp add: balanced_def queue_counted_def booked_def Let_def)
qed

text \<open>
  An orderly shutdown loses nothing.  When a bridge whose transaction lane did
  not fail to accept has stopped, by a signal or by the error of any other
  member, in any interleaving, no sender is left uncounted, the pipe holds no
  transaction, the queue gauge is zero, and every transaction ever enqueued is
  booked accepted, rejected or failed, up to the unattributed lines.
\<close>

theorem graceful_shutdown:
  assumes "life_reach (pipe_defaults c0) n ts L" and "0 < n" and "bridge_stopped L"
    and "\<not> lane_err L ! tx_lane_index"
  shows "let p = the_pipe L; k = stats p in
    senders p = [] \<and> held p = 0 \<and> queued p = 0 \<and>
    accepted k + rejected k + failed k \<le> enqueued k \<and>
    enqueued k \<le> accepted k + rejected k + failed k + unattributed k"
  using assms pipe_defaults_builders [of c0]
  by (intro graceful_facts [OF _ config_ok_defaults]) auto

theorem graceful_shutdown_witness:
  "\<exists>L. life_reach (pipe_defaults sample_config) 1 [TReady] L \<and> bridge_stopped L \<and>
     enqueued (stats (the_pipe L)) = 2 \<and> held (the_pipe L) = 0 \<and>
     2 \<le> booked (stats (the_pipe L)) + unattributed (stats (the_pipe L))"
proof -
  define c where "c = pipe_defaults sample_config"
  have b: "Builders c = 4" by (simp add: c_def pipe_defaults_def sample_config_def round_pow2.simps)
  then have r: "life_reach c 1 [TReady] (fed_life c)" by (intro fed_life_reach) simp
  have inv: "life_inv c 1 (fed_life c)"
    using life_inv_reach [OF r] config_ok_defaults by (simp add: c_def)
  obtain L where L: "(life_step c)\<^sup>*\<^sup>* (fed_life c) L" "bridge_stopped L" "lane_err L = lane_err (fed_life c)"
    "enqueued (stats (the_pipe L)) = enqueued (stats (the_pipe (fed_life c)))"
    using drain_to_end [OF inv] config_ok_defaults pipe_defaults_inflight by (auto simp: c_def fed_life_def)
  have "life_reach c 1 [TReady] L" using life_reach_run [OF r L(1)] .
  moreover have "enqueued (stats (the_pipe L)) = 2" "\<not> lane_err L ! tx_lane_index"
    using L by (simp_all add: fed_life_def fed_pipe_def life_init_def tx_lane_index_def)
  ultimately show ?thesis using graceful_shutdown [of sample_config 1 "[TReady]" L] L(2)
    by (auto simp: c_def booked_def Let_def)
qed

text \<open>
  C13: A shutdown ends.  From the moment the pipe is stopped, if the transaction
  lane ended in order, a run has at most \<open>life_pot\<close> further steps, whatever
  the servers answer and whatever order the goroutines take; and as long as
  the bridge has not stopped some goroutine can act, so no run gets stuck
  before \<open>g.Wait\<close> returns.
\<close>

theorem shutdown_completes:
  assumes "life_reach (pipe_defaults c0) n ts L" and "0 < n" and "pipe_stopped L"
    and "\<not> lane_err L ! tx_lane_index" and "(life_step (pipe_defaults c0) ^^ k) L L'"
  shows "k + life_pot L' \<le> life_pot L \<and>
    (bridge_stopped L' \<or> (\<exists>L''. life_step (pipe_defaults c0) L' L''))"
proof -
  have "in_shutdown (pipe_defaults c0) n L"
    using life_inv_reach [OF assms(1) config_ok_defaults assms(2)] assms(2-4)
    by (simp add: in_shutdown_def config_ok_defaults pipe_defaults_inflight)
  from shutdown.run_bound [OF assms(5) this] show ?thesis using shutdown.progress by blast
qed

theorem shutdown_completes_witness:
  "life_pot (fed_life (pipe_defaults sample_config)) = 45 \<and>
   (\<exists>L''. life_step (pipe_defaults sample_config) (fed_life (pipe_defaults sample_config)) L'')"
proof -
  define c where "c = pipe_defaults sample_config"
  have b: "Builders c = 4" by (simp add: c_def pipe_defaults_def sample_config_def round_pow2.simps)
  have r: "life_reach c 1 [TReady] (fed_life c)" using b by (intro fed_life_reach) simp
  have "life_pot (fed_life c) = 45" "\<not> bridge_stopped (fed_life c)"
    by (simp_all add: life_pot_def pipe_pot_def fed_life_def fed_pipe_def life_init_def pipe_init_def b
        eval_nat_numeral builder_pot_def builder_init_def newBatch_def run_size_def bridge_stopped_def)
  then show ?thesis using shutdown_completes [of sample_config 1 "[TReady]" "fed_life c" 0 "fed_life c"] r
    by (simp add: c_def) (simp add: fed_life_def life_init_def tx_lane_index_def)
qed

text \<open>
  C37: A transaction lane that fails to accept strands what its connections still
  deliver: \<open>Serve\<close> returns the error without waiting for them, the lane
  counts as returned, the pipe is stopped and flushes, and a transaction
  handed on afterwards is enqueued and counted but never submitted or booked
  although the bridge has stopped.
\<close>

theorem accept_failure_strands:
  "\<exists>L. life_reach (pipe_defaults c0) 1 [TReady] L \<and> bridge_stopped L \<and> group_exit L = 1 \<and>
     enqueued (stats (the_pipe L)) = 1 \<and> booked (stats (the_pipe L)) = 0 \<and>
     queues (the_pipe L) ! 0 = [[j]]"
proof -
  define c where "c = pipe_defaults c0"
  have ok: "config_ok c" "0 < Inflight c" "0 < nat (Builders c)"
    using config_ok_defaults pipe_defaults_inflight pipe_defaults_builders [of c0] by (auto simp: c_def)
  define L0 where "L0 = (life_init c 1 [TReady]) \<lparr> conns := [1], serving := [False], listening := [False],
    lane_err := [True], gctx_done := True, group_err := True \<rparr>"
  have "life_reach c 1 [TReady] L0"
    by (rule life_next [OF conn_open_reach life_step.AcceptError [where l = 0]]) (simp_all add: L0_def life_init_def)
  then have r: "life_reach c 1 [TReady] (L0 \<lparr> pipe_stopped := True \<rparr>)"
    by (rule life_next [OF _ life_step.StopPipe]) (simp_all add: L0_def life_init_def)
  have inv: "life_inv c 1 (L0 \<lparr> pipe_stopped := True \<rparr>)" using life_inv_reach [OF r ok(1)] by simp
  obtain L where L: "(life_step c)\<^sup>*\<^sup>* (L0 \<lparr> pipe_stopped := True \<rparr>) L" "bridge_stopped L" "conns L = [1]"
    "lane_err L = [True]" "senders (the_pipe L) = []" "enqueued (stats (the_pipe L)) = 0" "queues (the_pipe L) ! 0 = []"
    using drain_to_end [OF inv _ ok(1,2)] ok(3) by (auto simp: L0_def life_init_def pipe_init_def counters_zero_def)
  have rL: "life_reach c 1 [TReady] L" using life_reach_run [OF r L(1)] .
  have iL: "life_inv c 1 L" using life_inv_reach [OF rL ok(1)] by simp
  have "group_err L" using iL L(4) by (simp add: life_inv_def lanes_inv_def)
  moreover have "balanced (the_pipe L)" "shaped (the_pipe L)" using iL reachable_inv by (auto simp: life_inv_def)
  moreover have "0 < length (queues (the_pipe L))"
    using life_builders [OF iL] ok(3) calculation by (simp add: shaped_def)
  ultimately show ?thesis
    using send_step [OF _ _ L(7,5) rL, of "[j]"] L
    by (auto simp: free_conn_def tx_lane_index_def c_def bridge_stopped_def group_exit_def balanced_def booked_def
        Let_def intro!: exI)
qed

text \<open>An environment in which every request is answered 200.\<close>

definition accepting_env :: http_env where
  "accepting_env = \<lparr> env_post = \<lambda>n url b. Status 200 ''OK'', env_wait = \<lambda>n d. True, env_slot = \<lambda>n. True \<rparr>"

lemma accepting_submit: "\<exists>k. submit c accepting_env b k0 = (k, [])"
  by (simp add: submit_def submit_loop.simps post_def accepting_env_def response_limit_def)

text \<open>
  Two builders of a fed pipe: the first flushes, launches its batch, the
  second flushes, the first batch settles, the second launches.
\<close>

lemma final_batch:
  "\<exists>b. builder_shutdown [[j]] builder_init = builder_init \<lparr> sealed := [(SealLinger, b)] \<rparr>"
  by (simp add: builder_shutdown_def seal_def builder_init_def drain_job_def newBatch_def)

lemma two_builder_run:
  assumes "Builders c = 4" and "0 < Inflight c"
  shows "\<exists>p1 p2 p3 p4 p5. pipe_step c (AShutdown 0) (fed_pipe c) p1 \<and> pipe_step c AWork p1 p2 \<and>
    \<not> live p2 ! 0 \<and> sealed (builders p2 ! 0) = [] \<and> pipe_step c (AShutdown 1) p2 p3 \<and> wg_count p3 = 1 \<and>
    pipe_step c AWork p3 p4 \<and> wg_count p4 = 0 \<and> pipe_step c AWork p4 p5 \<and> wg_count p5 = 1"
proof -
  obtain b0 b1 where sd: "builder_shutdown [[sample_parent]] builder_init = builder_init \<lparr> sealed := [(SealLinger, b0)] \<rparr>"
    "builder_shutdown [[sample_child]] builder_init = builder_init \<lparr> sealed := [(SealLinger, b1)] \<rparr>"
    using final_batch by blast
  define p where "p = fed_pipe c"
  have p: "idle p 0" "queues p ! 0 = [[sample_parent]]" "queues p ! 1 = [[sample_child]]"
    "builders p = replicate 4 builder_init" "live p = replicate 4 True" "todo p = replicate 4 []"
    "inflight p = []" "retrying p = []"
    by (simp_all add: p_def fed_pipe_def pipe_init_def idle_def assms(1) builder_init_def)
  define p1 where "p1 = p \<lparr> queues := (queues p)[0 := []], queued := queued p - 1,
    builders := (builders p)[0 := builder_init \<lparr> sealed := [(SealLinger, b0)] \<rparr>], live := (live p)[0 := False] \<rparr>"
  define p2 where "p2 = p1 \<lparr> builders := (builders p1)[0 := builder_init \<lparr> sealed := [] \<rparr>], inflight := [b0] \<rparr>"
  define p3 where "p3 = p2 \<lparr> queues := (queues p2)[1 := []], queued := queued p2 - 1,
    builders := (builders p2)[1 := builder_init \<lparr> sealed := [(SealLinger, b1)] \<rparr>], live := (live p2)[1 := False] \<rparr>"
  have s1: "pipe_step c (AShutdown 0) p p1"
    using pipe_step.Shutdown [OF p(1), of c] p by (simp add: p1_def sd)
  have s2: "pipe_step c AWork p1 p2"
    using pipe_step.Launch [of 0 p1 SealLinger b0 "[]" c] p assms(2) by (simp add: p2_def) (simp add: p1_def)
  have "idle p2 1" using p by (simp add: idle_def p2_def p1_def builder_init_def)
  from pipe_step.Shutdown [OF this, of c] have s3: "pipe_step c (AShutdown 1) p2 p3"
    using p by (simp add: p3_def p2_def p1_def sd)
  obtain k where k: "submit c accepting_env b0 (stats p3) = (k, [])" using accepting_submit by blast
  define p4 where "p4 = p3 \<lparr> inflight := [], retrying := [], stats := k \<rparr>"
  have f3: "inflight p3 = [] @ b0 # []" "retrying p3 = []" using p by (simp_all add: p3_def p2_def p1_def)
  have s4: "pipe_step c AWork p3 p4"
    using pipe_step.Settle [OF f3(1) k] f3 by (simp add: p4_def add_retry_def)
  obtain p5 where s5: "pipe_step c AWork p4 p5" "wg_count p5 = 1"
    using pipe_step.Launch [of 1 p4 SealLinger b1 "[]" c] p assms(2) that
    by (fastforce simp: p4_def p3_def p2_def p1_def wg_count_def)
  have "\<not> live p2 ! 0" "sealed (builders p2 ! 0) = []" "wg_count p3 = 1" "wg_count p4 = 0"
    using p f3 by (simp_all add: p2_def p1_def wg_count_def p4_def)
  with s1 s2 s3 s4 s5 show ?thesis unfolding p_def by blast
qed

text \<open>
  The builders share one wait group, and a builder may still be adding to it
  while another waits: after the last submission under way has settled, with
  the first builder not yet returned from its wait, the second launches its
  final batch and the counter leaves zero again.
\<close>

theorem wait_group_reused:
  "\<exists>K L L'. life_reach (pipe_defaults sample_config) 1 [TReady] K \<and>
     waiting K ! 0 \<and> wg_count (the_pipe K) = 1 \<and> life_step (pipe_defaults sample_config) K L \<and>
     waiting L ! 0 \<and> wg_count (the_pipe L) = 0 \<and> life_step (pipe_defaults sample_config) L L' \<and>
     waiting L' ! 0 \<and> wg_count (the_pipe L') = 1"
proof -
  define c where "c = pipe_defaults sample_config"
  have b: "Builders c = 4" by (simp add: c_def pipe_defaults_def sample_config_def round_pow2.simps)
  have infl: "0 < Inflight c" by (simp add: c_def pipe_defaults_inflight)
  obtain p1 p2 p3 p4 p5 where s1: "pipe_step c (AShutdown 0) (fed_pipe c) p1" and s2: "pipe_step c AWork p1 p2"
    and d2: "\<not> live p2 ! 0" "sealed (builders p2 ! 0) = []" and s3: "pipe_step c (AShutdown 1) p2 p3"
    and s4: "pipe_step c AWork p3 p4" and s5: "pipe_step c AWork p4 p5"
    and wg: "wg_count p3 = 1" "wg_count p4 = 0" "wg_count p5 = 1"
    using two_builder_run [OF b infl] by blast
  define w where "w = (replicate 4 False)[0 := True]"
  define M where "M = fed_life c"
  have M: "the_pipe M = fed_pipe c" "pipe_stopped M" "waiting M = replicate 4 False" "gone M = replicate 4 False"
    by (simp_all add: M_def fed_life_def life_init_def b)
  have r0: "life_reach c 1 [TReady] M" using b fed_life_reach [of c] by (simp add: M_def)
  have r1: "life_reach c 1 [TReady] (M \<lparr> the_pipe := p1 \<rparr>)"
    by (rule life_next [OF r0 life_step.BuilderStop]) (use M s1 in simp_all)
  have r2: "life_reach c 1 [TReady] (M \<lparr> the_pipe := p2 \<rparr>)"
    by (rule life_next [OF r1 life_step.PipeWork]) (use s2 in simp_all)
  have r3: "life_reach c 1 [TReady] (M \<lparr> the_pipe := p2, waiting := w \<rparr>)"
    by (rule life_next [OF r2 life_step.BuilderWait [where i = 0]]) (use M d2 in \<open>simp_all add: w_def\<close>)
  define N where "N = (\<lambda>p. M \<lparr> waiting := w, the_pipe := p \<rparr>)"
  have r4: "life_reach c 1 [TReady] (N p3)"
    by (rule life_next [OF r3 life_step.BuilderStop]) (use M s3 in \<open>simp_all add: N_def\<close>)
  have "life_step c (N p3) (N p4)" "life_step c (N p4) (N p5)"
    using life_step.PipeWork [of c "N p3" p4] life_step.PipeWork [of c "N p4" p5] s4 s5 by (simp_all add: N_def)
  moreover have "waiting (N q) ! 0" "the_pipe (N q) = q" for q by (simp_all add: N_def w_def)
  ultimately show ?thesis unfolding c_def [symmetric] using r4 wg by metis
qed

end
