(* ===== verification/Obs.thy ===== *)
theory Obs
  imports Retrieval Reverse Health Announce
begin

text \<open>
  The instruments of \<open>internal/obs\<close> and \<open>internal/obs/kafka\<close>: the histogram
  and gauge families with their names and buckets, the series seeded at
  start, the call sites that observe and stamp, the cluster-state poll with
  the gauges it publishes, and the Kafka client hooks.  The lemmas show that
  what is seeded covers what is ever used, that a freshness gauge is the time
  of its last event, and when the two FSM gauges agree.
\<close>

section \<open>The families\<close>

datatype hist_vec =
    SubmitDuration | RetrievalDuration | AnnounceDuration | AssetFetchDuration
  | AnnounceToFirstPull | UpTunnelWriteDuration | ObjectBytes

datatype gauge_vec =
    LastObjectTime | LastAnnounceTime | LastPullTime | LastSubmitTime | LastNotificationTime
  | ClusterFSMState | ClusterFSMStateInfo | ClusterBlockHeight

text \<open>Bucket bounds: microseconds for the durations, bytes for the sizes.\<close>

definition BucketsMilliSeconds :: "int list" where
  "BucketsMilliSeconds = [1000, 2000, 4000, 16000, 32000, 64000, 128000, 256000, 512000, 1024000, 2048000, 4096000]"

definition BucketsMilliLongSeconds :: "int list" where
  "BucketsMilliLongSeconds = [64000, 128000, 256000, 512000, 1024000, 2048000, 4096000, 8192000, 16384000,
     32768000, 65536000, 131072000]"

definition BucketsSeconds :: "int list" where
  "BucketsSeconds = map (\<lambda>k. k * 1000000) [1, 2, 4, 8, 16, 32, 64, 128, 256, 512, 1024, 2048]"

definition BucketsSize :: "int list" where
  "BucketsSize = [128, 256, 512, 1024, 2048, 4096, 8192, 16384, 32768, 65536, 131072, 262144]"

fun hist_family :: "hist_vec \<Rightarrow> string \<times> int list \<times> string list" where
  "hist_family SubmitDuration = (''submit_duration_seconds'', BucketsMilliSeconds, [''outcome''])"
| "hist_family RetrievalDuration = (''retrieval_duration_seconds'', BucketsMilliSeconds, [''route''])"
| "hist_family AnnounceDuration = (''announce_duration_seconds'', BucketsMilliSeconds, [''class''])"
| "hist_family AssetFetchDuration = (''asset_fetch_duration_seconds'', BucketsMilliLongSeconds, [''class''])"
| "hist_family AnnounceToFirstPull = (''announce_to_first_pull_seconds'', BucketsSeconds, [''class''])"
| "hist_family UpTunnelWriteDuration = (''uptunnel_write_duration_seconds'', BucketsMilliSeconds, [''class''])"
| "hist_family ObjectBytes = (''object_bytes'', BucketsSize, [''lane''])"

fun gauge_family :: "gauge_vec \<Rightarrow> string \<times> string list" where
  "gauge_family LastObjectTime = (''last_object_timestamp_seconds'', [''lane''])"
| "gauge_family LastAnnounceTime = (''last_announce_timestamp_seconds'', [''class''])"
| "gauge_family LastPullTime = (''last_pull_timestamp_seconds'', [])"
| "gauge_family LastSubmitTime = (''last_submit_timestamp_seconds'', [])"
| "gauge_family LastNotificationTime = (''last_notification_timestamp_seconds'', [])"
| "gauge_family ClusterFSMState = (''cluster_fsm_state'', [])"
| "gauge_family ClusterFSMStateInfo = (''cluster_fsm_state_info'', [''state''])"
| "gauge_family ClusterBlockHeight = (''cluster_block_height'', [])"

text \<open>\<open>BuildFQName\<close>: namespace, subsystem and name joined by underscores.\<close>

definition obs_name :: "string \<Rightarrow> string" where
  "obs_name n = ''teranode_bridge_'' @ n"

definition obs_hists :: "hist_vec list" where
  "obs_hists = [SubmitDuration, RetrievalDuration, AnnounceDuration, AssetFetchDuration,
     AnnounceToFirstPull, UpTunnelWriteDuration, ObjectBytes]"

definition obs_gauges :: "gauge_vec list" where
  "obs_gauges = [LastObjectTime, LastAnnounceTime, LastPullTime, LastSubmitTime, LastNotificationTime,
     ClusterFSMState, ClusterFSMStateInfo, ClusterBlockHeight]"

text \<open>The two lists enumerate their types: no declared family is left unregistered.\<close>

instantiation hist_vec :: enum
begin
definition enum_hist_vec :: "hist_vec list" where "enum_hist_vec = obs_hists"
definition enum_all_hist_vec :: "(hist_vec \<Rightarrow> bool) \<Rightarrow> bool" where "enum_all_hist_vec P = list_all P obs_hists"
definition enum_ex_hist_vec :: "(hist_vec \<Rightarrow> bool) \<Rightarrow> bool" where "enum_ex_hist_vec P = list_ex P obs_hists"
instance
proof
  have u: "x \<in> set obs_hists" for x by (cases x) (simp_all add: obs_hists_def)
  show "UNIV = set (enum_class.enum :: hist_vec list)" using u by (auto simp: enum_hist_vec_def)
  show "distinct (enum_class.enum :: hist_vec list)" by (simp add: enum_hist_vec_def obs_hists_def)
  show "\<And>P. enum_class.enum_all P \<longleftrightarrow> Ball (UNIV :: hist_vec set) P" using u by (auto simp: enum_all_hist_vec_def list_all_iff)
  show "\<And>P. enum_class.enum_ex P \<longleftrightarrow> Bex (UNIV :: hist_vec set) P" using u by (auto simp: enum_ex_hist_vec_def list_ex_iff)
qed
end

instantiation gauge_vec :: enum
begin
definition enum_gauge_vec :: "gauge_vec list" where "enum_gauge_vec = obs_gauges"
definition enum_all_gauge_vec :: "(gauge_vec \<Rightarrow> bool) \<Rightarrow> bool" where "enum_all_gauge_vec P = list_all P obs_gauges"
definition enum_ex_gauge_vec :: "(gauge_vec \<Rightarrow> bool) \<Rightarrow> bool" where "enum_ex_gauge_vec P = list_ex P obs_gauges"
instance
proof
  have u: "x \<in> set obs_gauges" for x by (cases x) (simp_all add: obs_gauges_def)
  show "UNIV = set (enum_class.enum :: gauge_vec list)" using u by (auto simp: enum_gauge_vec_def)
  show "distinct (enum_class.enum :: gauge_vec list)" by (simp add: enum_gauge_vec_def obs_gauges_def)
  show "\<And>P. enum_class.enum_all P \<longleftrightarrow> Ball (UNIV :: gauge_vec set) P" using u by (auto simp: enum_all_gauge_vec_def list_all_iff)
  show "\<And>P. enum_class.enum_ex P \<longleftrightarrow> Bex (UNIV :: gauge_vec set) P" using u by (auto simp: enum_ex_gauge_vec_def list_ex_iff)
qed
end

text \<open>The names the registry is given by \<open>obs.Collectors\<close>.\<close>

definition obs_Collectors :: "string list" where
  "obs_Collectors = map (\<lambda>h. obs_name (fst (hist_family h))) obs_hists @
     map (\<lambda>g. obs_name (fst (gauge_family g))) obs_gauges @ [obs_name ''cluster_probe_errors_total'']"

section \<open>Series\<close>

text \<open>A series is a family with its label values; a histogram keeps its observations.\<close>

record instruments =
  gauges :: "gauge_vec \<times> string list \<rightharpoonup> int"
  histograms :: "hist_vec \<times> string list \<rightharpoonup> int list"
  probe_errors :: "string \<rightharpoonup> nat"

definition no_series :: instruments where
  "no_series = \<lparr> gauges = Map.empty, histograms = Map.empty, probe_errors = Map.empty \<rparr>"

definition gauge_set :: "gauge_vec \<Rightarrow> string list \<Rightarrow> int \<Rightarrow> instruments \<Rightarrow> instruments" where
  "gauge_set g ls v I = I \<lparr> gauges := (gauges I)((g, ls) \<mapsto> v) \<rparr>"

text \<open>\<open>WithLabelValues\<close> creates the series if it is absent.\<close>

definition hist_with :: "hist_vec \<Rightarrow> string list \<Rightarrow> instruments \<Rightarrow> instruments" where
  "hist_with h ls I =
     (case histograms I (h, ls) of
        None \<Rightarrow> I \<lparr> histograms := (histograms I)((h, ls) \<mapsto> []) \<rparr>
      | Some _ \<Rightarrow> I)"

definition hist_observe :: "hist_vec \<Rightarrow> string list \<Rightarrow> int \<Rightarrow> instruments \<Rightarrow> instruments" where
  "hist_observe h ls v I =
     (let I = hist_with h ls I in
      I \<lparr> histograms := (histograms I)((h, ls) \<mapsto> the (histograms I (h, ls)) @ [v]) \<rparr>)"

definition probe_error :: "string \<Rightarrow> instruments \<Rightarrow> instruments" where
  "probe_error cl I =
     I \<lparr> probe_errors := (probe_errors I)(cl \<mapsto> (case probe_errors I cl of None \<Rightarrow> 1 | Some n \<Rightarrow> n + 1)) \<rparr>"

text \<open>Instants are nanoseconds; \<open>Unix\<close> is the whole seconds.\<close>

definition unix :: "time \<Rightarrow> int" where
  "unix t = t div second"

definition Stamp :: "time \<Rightarrow> gauge_vec \<Rightarrow> string list \<Rightarrow> instruments \<Rightarrow> instruments" where
  "Stamp now g ls I = gauge_set g ls (unix now) I"

definition Since :: "hist_vec \<Rightarrow> time \<Rightarrow> time \<Rightarrow> string list \<Rightarrow> instruments \<Rightarrow> instruments" where
  "Since h start now ls I = hist_observe h ls (now - start) I"

definition obs_Timer :: "hist_vec \<Rightarrow> string list \<Rightarrow> time \<Rightarrow> time \<Rightarrow> instruments \<Rightarrow> instruments" where
  "obs_Timer h ls start = (\<lambda>now. Since h start now ls)"

definition FSMStates :: "string list" where
  "FSMStates = [''IDLE'', ''RUNNING'', ''CATCHINGBLOCKS'', ''UNKNOWN'']"

definition SetFSMState :: "string \<Rightarrow> int \<Rightarrow> instruments \<Rightarrow> instruments" where
  "SetFSMState name code I =
     fold (\<lambda>s. gauge_set ClusterFSMStateInfo [s] (if s = name then 1 else 0)) FSMStates
       (gauge_set ClusterFSMState [] code I)"

definition classes :: "string list" where
  "classes = [''subtree'', ''block'']"

definition Preset :: "time \<Rightarrow> string list \<Rightarrow> bool \<Rightarrow> instruments \<Rightarrow> instruments" where
  "Preset start lanes reverse I =
     (let t0 = unix start;
          I = fold (\<lambda>l I. hist_with ObjectBytes [l] (gauge_set LastObjectTime [l] t0 I)) lanes I;
          I = fold (\<lambda>out. hist_with SubmitDuration [out]) [''ok'', ''rejected'', ''failed'', ''rate_limited''] I;
          I = fold (\<lambda>r. hist_with RetrievalDuration [r])
                [''subtree'', ''subtree_data'', ''txs'', ''block'', ''unserved''] I;
          I = fold (\<lambda>cl I. hist_with UpTunnelWriteDuration [cl] (hist_with AssetFetchDuration [cl]
                (hist_with AnnounceToFirstPull [cl] (hist_with AnnounceDuration [cl] I)))) classes I;
          I = fold (\<lambda>cl. gauge_set LastAnnounceTime [cl] t0) classes I;
          I = gauge_set LastSubmitTime [] t0 (gauge_set LastPullTime [] t0 I)
      in if reverse then
           gauge_set ClusterFSMStateInfo [''UNKNOWN''] 1
             (fold (\<lambda>s. gauge_set ClusterFSMStateInfo [s] 0) FSMStates
               (gauge_set ClusterFSMState [] (- 1) (gauge_set LastNotificationTime [] t0 I)))
         else I)"

section \<open>The call sites\<close>

text \<open>\<open>post\<close>: how the round trip ended; \<open>None\<close> is a transport error.\<close>

definition post_outcome :: "int option \<Rightarrow> string" where
  "post_outcome st =
     (case st of
        None \<Rightarrow> ''failed''
      | Some code \<Rightarrow>
          if code = 200 then ''ok''
          else if code = 429 then ''rate_limited''
          else if code \<ge> 400 \<and> code < 500 then ''rejected''
          else ''failed'')"

definition post_observe :: "time \<Rightarrow> time \<Rightarrow> int option \<Rightarrow> instruments \<Rightarrow> instruments" where
  "post_observe start now st I =
     Since SubmitDuration start now [post_outcome st]
       (if st = Some 200 then Stamp now LastSubmitTime [] I else I)"

text \<open>The label and the \<open>served\<close> flag each route of the retrieval plane is wrapped with.\<close>

fun route_label :: "route \<Rightarrow> string \<times> bool" where
  "route_label (RSubtree h) = (''subtree'', True)"
| "route_label (RSubtreeData h) = (''subtree_data'', True)"
| "route_label (RTxs h) = (''txs'', True)"
| "route_label (RBlock h) = (''block'', True)"
| "route_label RUnserved = (''unserved'', False)"

definition timed :: "route \<Rightarrow> time \<Rightarrow> time \<Rightarrow> instruments \<Rightarrow> instruments" where
  "timed r start now I =
     (case route_label r of (route, served) \<Rightarrow>
      let I = Since RetrievalDuration start now [route] I in
      if served then Stamp now LastPullTime [] I else I)"

text \<open>An acknowledged announcement, and the first pull it led to.\<close>

definition announce_observe :: "time \<Rightarrow> time \<Rightarrow> string \<Rightarrow> instruments \<Rightarrow> instruments" where
  "announce_observe start now cl I = Stamp now LastAnnounceTime [cl] (Since AnnounceDuration start now [cl] I)"

definition pull_observe :: "(string \<times> duration) option \<Rightarrow> instruments \<Rightarrow> instruments" where
  "pull_observe ob I = (case ob of None \<Rightarrow> I | Some (cl, d) \<Rightarrow> hist_observe AnnounceToFirstPull [cl] d I)"

text \<open>
  One object on a lane's connection: the coarse second, the connection's last
  stamped second, and whether the lane keeps the size histogram.
\<close>

definition lane_observe :: "string \<Rightarrow> bool \<Rightarrow> int \<Rightarrow> int \<Rightarrow> int \<Rightarrow> instruments \<Rightarrow> int \<times> instruments" where
  "lane_observe lane sizes sec len lastStamp I =
     (let (lastStamp, I) = (if sec \<noteq> lastStamp then (sec, gauge_set LastObjectTime [lane] sec I) else (lastStamp, I))
      in (lastStamp, if sizes then hist_observe ObjectBytes [lane] len I else I))"

text \<open>
  The name of a state number as the generated enum prints it: the listed
  names, or the number itself.
\<close>

definition fsm_name :: "int \<Rightarrow> string" where
  "fsm_name n =
     (if n = 0 then ''IDLE'' else if n = 1 then ''RUNNING'' else if n = 2 then ''CATCHINGBLOCKS''
      else if n < 0 then CHR ''-'' # digits (nat (- n)) else digits (nat n))"

text \<open>One poll, on the gauges and on the subscriber; \<open>None\<close> is a failed call.\<close>

definition publish_state :: "int option \<Rightarrow> u32 option \<Rightarrow> instruments \<Rightarrow> instruments" where
  "publish_state fsm hdr I =
     (let I = (case fsm of
                 None \<Rightarrow> SetFSMState ''UNKNOWN'' (- 1) (probe_error ''fsm'' I)
               | Some n \<Rightarrow> SetFSMState (fsm_name n) n I)
      in case hdr of
           None \<Rightarrow> probe_error ''best_block_header'' I
         | Some h \<Rightarrow> gauge_set ClusterBlockHeight [] (uint h) I)"

definition poll_publish :: "int option \<times> u32 option \<Rightarrow> Subscriber \<times> instruments \<Rightarrow> Subscriber \<times> instruments" where
  "poll_publish ans st =
     (case ans of (fsm, hdr) \<Rightarrow>
      (pollClusterState (map_option fsm_name fsm) hdr (fst st), publish_state fsm hdr (snd st)))"

text \<open>
  \<open>RunClusterState\<close>: nothing for a non-positive period, else one poll at once
  and one per tick until the context ends.
\<close>

definition RunClusterState :: "duration \<Rightarrow> (int option \<times> u32 option) \<Rightarrow> (int option \<times> u32 option) list \<Rightarrow>
    Subscriber \<times> instruments \<Rightarrow> Subscriber \<times> instruments" where
  "RunClusterState every first ticks st =
     (if every \<le> 0 then st else fold poll_publish (first # ticks) st)"

section \<open>Kafka client hooks\<close>

record kafka_metrics =
  kafkaBytesWritten :: int
  kafkaWriteDuration :: "duration list"
  kafkaWriteErrors :: nat
  kafkaE2EDuration :: "duration list"
  kafkaProduceLatency :: "duration list"
  kafkaBatchRecords :: int
  kafkaBatchCompressed :: int
  kafkaBrokerConnects :: nat
  kafkaBrokerDisconnects :: nat
  kafkaConnectErrors :: nat

definition kafka_zero :: kafka_metrics where
  "kafka_zero = \<lparr> kafkaBytesWritten = 0, kafkaWriteDuration = [], kafkaWriteErrors = 0, kafkaE2EDuration = [],
     kafkaProduceLatency = [], kafkaBatchRecords = 0, kafkaBatchCompressed = 0, kafkaBrokerConnects = 0,
     kafkaBrokerDisconnects = 0, kafkaConnectErrors = 0 \<rparr>"

definition kafka_name :: "string \<Rightarrow> string" where
  "kafka_name n = ''teranode_bridge_kafka_producer_'' @ n"

definition kafka_each :: "string list" where
  "kafka_each = map kafka_name [''bytes_written_total'', ''write_duration_seconds'', ''write_errors_total'',
     ''e2e_duration_seconds'', ''produce_request_latency_seconds'', ''batch_records_total'',
     ''batch_compressed_bytes_total'', ''broker_connects_total'', ''broker_disconnects_total'', ''connect_errors_total'']"

definition produceAPIKey :: int where
  "produceAPIKey = 0"

definition OnBrokerConnect :: "bool \<Rightarrow> kafka_metrics \<Rightarrow> kafka_metrics" where
  "OnBrokerConnect err k =
     (if err then k \<lparr> kafkaConnectErrors := kafkaConnectErrors k + 1 \<rparr>
      else k \<lparr> kafkaBrokerConnects := kafkaBrokerConnects k + 1 \<rparr>)"

definition OnBrokerDisconnect :: "kafka_metrics \<Rightarrow> kafka_metrics" where
  "OnBrokerDisconnect k = k \<lparr> kafkaBrokerDisconnects := kafkaBrokerDisconnects k + 1 \<rparr>"

definition write_error :: "bool \<Rightarrow> kafka_metrics \<Rightarrow> kafka_metrics" where
  "write_error err k = (if err then k \<lparr> kafkaWriteErrors := kafkaWriteErrors k + 1 \<rparr> else k)"

definition OnBrokerWrite :: "int \<Rightarrow> int \<Rightarrow> duration \<Rightarrow> bool \<Rightarrow> kafka_metrics \<Rightarrow> kafka_metrics" where
  "OnBrokerWrite key bytesWritten timeToWrite err k =
     (if key \<noteq> produceAPIKey then k
      else write_error err (k \<lparr> kafkaBytesWritten := kafkaBytesWritten k + bytesWritten,
        kafkaWriteDuration := kafkaWriteDuration k @ [timeToWrite] \<rparr>))"

text \<open>The end-to-end measurement: the wait before the write, the duration and whether it failed.\<close>

definition OnBrokerE2E :: "int \<Rightarrow> duration \<Rightarrow> duration \<Rightarrow> bool \<Rightarrow> kafka_metrics \<Rightarrow> kafka_metrics" where
  "OnBrokerE2E key writeWait durationE2E err k =
     (if key \<noteq> produceAPIKey then k
      else write_error err (k \<lparr> kafkaE2EDuration := kafkaE2EDuration k @ [durationE2E],
        kafkaProduceLatency := kafkaProduceLatency k @ [writeWait + durationE2E] \<rparr>))"

definition OnProduceBatchWritten :: "int \<Rightarrow> int \<Rightarrow> kafka_metrics \<Rightarrow> kafka_metrics" where
  "OnProduceBatchWritten numRecords compressed k =
     k \<lparr> kafkaBatchRecords := kafkaBatchRecords k + numRecords,
         kafkaBatchCompressed := kafkaBatchCompressed k + compressed \<rparr>"

datatype kafka_event =
    KConnect bool | KDisconnect | KWrite int int duration bool | KE2E int duration duration bool | KBatch int int

fun kafka_step :: "kafka_event \<Rightarrow> kafka_metrics \<Rightarrow> kafka_metrics" where
  "kafka_step (KConnect err) = OnBrokerConnect err"
| "kafka_step KDisconnect = OnBrokerDisconnect"
| "kafka_step (KWrite key n t err) = OnBrokerWrite key n t err"
| "kafka_step (KE2E key w d err) = OnBrokerE2E key w d err"
| "kafka_step (KBatch n z) = OnProduceBatchWritten n z"

section \<open>A run of the bridge, as the instruments see it\<close>

text \<open>
  Announcements, first pulls, fetches and tunnel writes are labelled where they
  are made with the name of the class they are made for: \<open>Subtree\<close> and \<open>Block\<close>
  of the producer and of the asset client, and the two up-tunnels.
\<close>

datatype obs_event =
    EObject nat string bool int int
  | EPost time time "int option"
  | EPull route time time
  | EAnnounce time time obj_class
  | EFirstPull "(obj_class \<times> duration) option"
  | EAsset time time obj_class
  | EUpTunnel time time obj_class
  | ENotification time
  | EPoll "int option" "u32 option"

text \<open>The instruments and, per connection, the second it stamped last.\<close>

record obs_world =
  inst :: instruments
  lastStamps :: "nat \<Rightarrow> int"

fun obs_step :: "obs_event \<Rightarrow> obs_world \<Rightarrow> obs_world" where
  "obs_step (EObject k lane sizes sec len) w =
     (case lane_observe lane sizes sec len (lastStamps w k) (inst w) of (ls, I) \<Rightarrow>
      w \<lparr> inst := I, lastStamps := (lastStamps w)(k := ls) \<rparr>)"
| "obs_step (EPost start now st) w = w \<lparr> inst := post_observe start now st (inst w) \<rparr>"
| "obs_step (EPull r start now) w = w \<lparr> inst := timed r start now (inst w) \<rparr>"
| "obs_step (EAnnounce start now cl) w = w \<lparr> inst := announce_observe start now (class_name cl) (inst w) \<rparr>"
| "obs_step (EFirstPull ob) w = w \<lparr> inst := pull_observe (map_option (map_prod class_name id) ob) (inst w) \<rparr>"
| "obs_step (EAsset start now cl) w = w \<lparr> inst := obs_Timer AssetFetchDuration [class_name cl] start now (inst w) \<rparr>"
| "obs_step (EUpTunnel start now cl) w = w \<lparr> inst := obs_Timer UpTunnelWriteDuration [class_name cl] start now (inst w) \<rparr>"
| "obs_step (ENotification now) w = w \<lparr> inst := Stamp now LastNotificationTime [] (inst w) \<rparr>"
| "obs_step (EPoll fsm hdr) w = w \<lparr> inst := publish_state fsm hdr (inst w) \<rparr>"

definition obs_start :: "time \<Rightarrow> string list \<Rightarrow> bool \<Rightarrow> obs_world" where
  "obs_start start lanes reverse = \<lparr> inst = Preset start lanes reverse no_series, lastStamps = (\<lambda>_. 0) \<rparr>"

definition obs_run :: "time \<Rightarrow> string list \<Rightarrow> bool \<Rightarrow> obs_event list \<Rightarrow> obs_world" where
  "obs_run start lanes reverse evs = fold obs_step evs (obs_start start lanes reverse)"

text \<open>What the bridge's parts can cause: objects on a configured lane, and the reverse path's events only with it.\<close>

fun event_ok :: "string list \<Rightarrow> bool \<Rightarrow> obs_event \<Rightarrow> bool" where
  "event_ok lanes reverse (EObject k lane sizes sec len) = (lane \<in> set lanes)"
| "event_ok lanes reverse (ENotification now) = reverse"
| "event_ok lanes reverse (EPoll fsm hdr) = reverse"
| "event_ok lanes reverse _ = True"

section \<open>Which series exist\<close>

lemma gauge_set_simps [simp]:
  "gauges (gauge_set g ls v I) = (gauges I)((g, ls) \<mapsto> v)"
  "histograms (gauge_set g ls v I) = histograms I" "probe_errors (gauge_set g ls v I) = probe_errors I"
  by (simp_all add: gauge_set_def)

lemma hist_with_simps [simp]:
  "gauges (hist_with h ls I) = gauges I" "probe_errors (hist_with h ls I) = probe_errors I"
  "dom (histograms (hist_with h ls I)) = insert (h, ls) (dom (histograms I))"
  by (auto simp: hist_with_def split: option.splits)

lemma hist_observe_simps [simp]:
  "gauges (hist_observe h ls v I) = gauges I" "probe_errors (hist_observe h ls v I) = probe_errors I"
  "dom (histograms (hist_observe h ls v I)) = insert (h, ls) (dom (histograms I))"
  by (auto simp: hist_observe_def Let_def)

lemma probe_error_simps [simp]:
  "gauges (probe_error cl I) = gauges I" "histograms (probe_error cl I) = histograms I"
  by (simp_all add: probe_error_def)

lemma SetFSMState_hist [simp]: "histograms (SetFSMState name code I) = histograms I"
  by (simp add: SetFSMState_def FSMStates_def)

lemma SetFSMState_gauges:
  "gauges (SetFSMState name code I) key =
     (case key of (g, ls) \<Rightarrow>
        if g = ClusterFSMState \<and> ls = [] then Some code
        else if g = ClusterFSMStateInfo \<and> ls \<in> (\<lambda>s. [s]) ` set FSMStates
          then Some (if ls = [name] then 1 else 0)
        else gauges I key)"
  by (cases key) (auto simp: SetFSMState_def FSMStates_def)

lemma lanes_preset:
  "gauges (fold (\<lambda>l I. hist_with ObjectBytes [l] (gauge_set LastObjectTime [l] t0 I)) lanes I) key =
     (if key \<in> (\<lambda>l. (LastObjectTime, [l])) ` set lanes then Some t0 else gauges I key)"
  "dom (histograms (fold (\<lambda>l I. hist_with ObjectBytes [l] (gauge_set LastObjectTime [l] t0 I)) lanes I)) =
     (\<lambda>l. (ObjectBytes, [l])) ` set lanes \<union> dom (histograms I)"
  by (induction lanes arbitrary: I) auto

definition seeded_hists :: "string list \<Rightarrow> (hist_vec \<times> string list) set" where
  "seeded_hists lanes = (\<lambda>l. (ObjectBytes, [l])) ` set lanes \<union>
     (\<lambda>x. (SubmitDuration, [x])) ` {''ok'', ''rejected'', ''failed'', ''rate_limited''} \<union>
     (\<lambda>x. (RetrievalDuration, [x])) ` {''subtree'', ''subtree_data'', ''txs'', ''block'', ''unserved''} \<union>
     {AnnounceDuration, AnnounceToFirstPull, AssetFetchDuration, UpTunnelWriteDuration} \<times>
       (\<lambda>cl. [cl]) ` set classes"

definition seeded_gauges :: "string list \<Rightarrow> bool \<Rightarrow> (gauge_vec \<times> string list) set" where
  "seeded_gauges lanes reverse = (\<lambda>l. (LastObjectTime, [l])) ` set lanes \<union>
     (\<lambda>cl. (LastAnnounceTime, [cl])) ` set classes \<union> {(LastPullTime, []), (LastSubmitTime, [])} \<union>
     (if reverse then {(LastNotificationTime, []), (ClusterFSMState, [])} \<union>
        (\<lambda>s. (ClusterFSMStateInfo, [s])) ` set FSMStates else {})"

lemma Preset_hists: "dom (histograms (Preset start lanes reverse no_series)) = seeded_hists lanes"
  by (auto simp: Preset_def Let_def lanes_preset(2) seeded_hists_def classes_def FSMStates_def no_series_def)

lemma Preset_gauges:
  "gauges (Preset start lanes reverse no_series) key =
     (if key \<in> seeded_gauges lanes reverse then
        Some (if fst key = ClusterFSMState then - 1
              else if fst key = ClusterFSMStateInfo then (if snd key = [''UNKNOWN''] then 1 else 0)
              else unix start)
      else None)"
  by (cases key) (auto simp: Preset_def Let_def lanes_preset(1) seeded_gauges_def classes_def FSMStates_def no_series_def)

lemma Preset_gauges_dom: "dom (gauges (Preset start lanes reverse no_series)) = seeded_gauges lanes reverse"
  by (auto simp: Preset_gauges split: if_splits)

lemma post_outcome_cases: "post_outcome st \<in> {''ok'', ''rejected'', ''failed'', ''rate_limited''}"
  by (auto simp: post_outcome_def split: option.splits)

lemma route_label_cases: "fst (route_label r) \<in> {''subtree'', ''subtree_data'', ''txs'', ''block'', ''unserved''}"
  by (cases r) simp_all

lemma class_name_listed: "class_name cl \<in> set classes"
  by (cases cl) (simp_all add: classes_def)

lemma step_hists:
  assumes "event_ok lanes reverse e" and "seeded_hists lanes \<subseteq> dom (histograms (inst w))"
  shows "dom (histograms (inst (obs_step e w))) = dom (histograms (inst w))"
proof -
  have "\<exists>keys \<subseteq> seeded_hists lanes. dom (histograms (inst (obs_step e w))) = keys \<union> dom (histograms (inst w))"
  proof (cases e)
    case (EObject k lane sizes sec len)
    then show ?thesis using assms(1)
      by (intro exI [of _ "if sizes then {(ObjectBytes, [lane])} else {}"])
         (auto simp: lane_observe_def Let_def seeded_hists_def split: if_splits)
  next
    case (EPost start now st)
    then show ?thesis using post_outcome_cases [of st]
      by (intro exI [of _ "{(SubmitDuration, [post_outcome st])}"])
         (auto simp: post_observe_def Since_def Stamp_def seeded_hists_def)
  next
    case (EPull r start now)
    then show ?thesis using route_label_cases [of r]
      by (intro exI [of _ "{(RetrievalDuration, [fst (route_label r)])}"])
         (auto simp: timed_def Since_def Stamp_def seeded_hists_def Let_def case_prod_unfold)
  next
    case (EAnnounce start now cl)
    then show ?thesis using class_name_listed [of cl]
      by (intro exI [of _ "{(AnnounceDuration, [class_name cl])}"])
         (auto simp: announce_observe_def Since_def Stamp_def seeded_hists_def)
  next
    case (EFirstPull ob)
    then show ?thesis using class_name_listed
      by (intro exI [of _ "case ob of None \<Rightarrow> {} | Some (cl, d) \<Rightarrow> {(AnnounceToFirstPull, [class_name cl])}"])
         (auto simp: pull_observe_def seeded_hists_def split: option.splits)
  next
    case (EAsset start now cl)
    then show ?thesis using class_name_listed [of cl]
      by (intro exI [of _ "{(AssetFetchDuration, [class_name cl])}"])
         (auto simp: obs_Timer_def Since_def seeded_hists_def)
  next
    case (EUpTunnel start now cl)
    then show ?thesis using class_name_listed [of cl]
      by (intro exI [of _ "{(UpTunnelWriteDuration, [class_name cl])}"])
         (auto simp: obs_Timer_def Since_def seeded_hists_def)
  next
    case (ENotification now)
    then show ?thesis by (intro exI [of _ "{}"]) (simp add: Stamp_def)
  next
    case (EPoll fsm hdr)
    then show ?thesis by (intro exI [of _ "{}"]) (simp add: publish_state_def Let_def split: option.splits)
  qed
  with assms(2) show ?thesis by blast
qed

lemma step_gauges:
  assumes "event_ok lanes reverse e" and "seeded_gauges lanes reverse \<subseteq> dom (gauges (inst w))"
  shows "dom (gauges (inst w)) \<subseteq> dom (gauges (inst (obs_step e w))) \<and>
    dom (gauges (inst (obs_step e w))) \<subseteq> insert (ClusterBlockHeight, []) (dom (gauges (inst w)))"
proof (cases e)
  case (EObject k lane sizes sec len)
  then have "(LastObjectTime, [lane]) \<in> dom (gauges (inst w))" using assms by (auto simp: seeded_gauges_def)
  then show ?thesis using EObject by (auto simp: lane_observe_def Let_def split: if_splits)
next
  case (EPost start now st)
  have "(LastSubmitTime, []) \<in> dom (gauges (inst w))" using assms by (auto simp: seeded_gauges_def)
  then show ?thesis using EPost by (auto simp: post_observe_def Since_def Stamp_def)
next
  case (EPull r start now)
  have "(LastPullTime, []) \<in> dom (gauges (inst w))" using assms by (auto simp: seeded_gauges_def)
  then show ?thesis using EPull by (auto simp: timed_def Since_def Stamp_def Let_def case_prod_unfold)
next
  case (EAnnounce start now cl)
  then have "(LastAnnounceTime, [class_name cl]) \<in> dom (gauges (inst w))"
    using assms class_name_listed [of cl] by (auto simp: seeded_gauges_def)
  then show ?thesis using EAnnounce by (auto simp: announce_observe_def Since_def Stamp_def)
next
  case (EFirstPull ob)
  then show ?thesis by (auto simp: pull_observe_def split: option.splits)
next
  case (ENotification now)
  then have "(LastNotificationTime, []) \<in> dom (gauges (inst w))" using assms by (auto simp: seeded_gauges_def)
  then show ?thesis using ENotification by (auto simp: Stamp_def)
next
  case (EPoll fsm hdr)
  then have *: "(ClusterFSMState, []) \<in> dom (gauges (inst w))"
    "\<And>s. s \<in> set FSMStates \<Longrightarrow> (ClusterFSMStateInfo, [s]) \<in> dom (gauges (inst w))"
    using assms by (auto simp: seeded_gauges_def)
  have "dom (gauges (SetFSMState name code I)) = dom (gauges I)" if "gauges I = gauges (inst w)" for name code I
  proof -
    have "(gauges (SetFSMState name code I) key \<noteq> None) = (gauges I key \<noteq> None)" for key
      using * that by (cases key) (auto simp: SetFSMState_gauges dom_def)
    then show ?thesis by (auto simp: dom_def)
  qed
  then show ?thesis using EPoll by (auto simp: publish_state_def Let_def split: option.splits)
qed (auto simp: obs_Timer_def Since_def)

lemma obs_run_series:
  assumes "list_all (event_ok lanes reverse) evs"
  shows "dom (histograms (inst (obs_run start lanes reverse evs))) = seeded_hists lanes \<and>
    seeded_gauges lanes reverse \<subseteq> dom (gauges (inst (obs_run start lanes reverse evs))) \<and>
    dom (gauges (inst (obs_run start lanes reverse evs))) \<subseteq> insert (ClusterBlockHeight, []) (seeded_gauges lanes reverse)"
  using assms
proof (induction evs rule: rev_induct)
  case Nil
  have "dom (gauges (Preset start lanes reverse no_series)) = seeded_gauges lanes reverse"
    by (auto simp: dom_def Preset_gauges)
  then show ?case by (simp add: obs_run_def obs_start_def Preset_hists subset_insertI)
next
  case (snoc e evs)
  define w where "w = obs_run start lanes reverse evs"
  have e: "event_ok lanes reverse e" using snoc.prems by simp
  have IH: "dom (histograms (inst w)) = seeded_hists lanes" "seeded_gauges lanes reverse \<subseteq> dom (gauges (inst w))"
    "dom (gauges (inst w)) \<subseteq> insert (ClusterBlockHeight, []) (seeded_gauges lanes reverse)"
    using snoc by (simp_all add: w_def)
  have "obs_run start lanes reverse (evs @ [e]) = obs_step e w" by (simp add: obs_run_def w_def)
  moreover have "dom (histograms (inst (obs_step e w))) = seeded_hists lanes" using step_hists [OF e, of w] IH(1) by simp
  ultimately show ?case using step_gauges [OF e IH(2)] IH(2,3) by (simp only:) blast
qed

section \<open>Freshness\<close>

text \<open>What an event stamps: the gauge and the second it means.\<close>

fun stamp_of :: "obs_event \<Rightarrow> ((gauge_vec \<times> string list) \<times> int) option" where
  "stamp_of (EObject k lane sizes sec len) = Some ((LastObjectTime, [lane]), sec)"
| "stamp_of (EPost start now st) = (if st = Some 200 then Some ((LastSubmitTime, []), unix now) else None)"
| "stamp_of (EPull r start now) = (if r \<noteq> RUnserved then Some ((LastPullTime, []), unix now) else None)"
| "stamp_of (EAnnounce start now cl) = Some ((LastAnnounceTime, [class_name cl]), unix now)"
| "stamp_of (ENotification now) = Some ((LastNotificationTime, []), unix now)"
| "stamp_of _ = None"

definition last_stamp :: "gauge_vec \<times> string list \<Rightarrow> int \<Rightarrow> obs_event list \<Rightarrow> int" where
  "last_stamp key t0 evs =
     fold (\<lambda>e v. case stamp_of e of Some (k, t) \<Rightarrow> if k = key then t else v | None \<Rightarrow> v) evs t0"

fun obj_secs :: "obs_event list \<Rightarrow> int list" where
  "obj_secs [] = []"
| "obj_secs (EObject k lane sizes sec len # evs) = sec # obj_secs evs"
| "obj_secs (e # evs) = obj_secs evs"

text \<open>Every connection belongs to one lane.\<close>

fun on_lane :: "(nat \<Rightarrow> string) \<Rightarrow> obs_event \<Rightarrow> bool" where
  "on_lane lane_of (EObject k lane sizes sec len) = (lane = lane_of k)"
| "on_lane lane_of _ = True"

definition fresh_gauges :: "gauge_vec set" where
  "fresh_gauges = {LastObjectTime, LastAnnounceTime, LastPullTime, LastSubmitTime, LastNotificationTime}"

lemma last_stamp_snoc:
  "last_stamp key t0 (evs @ [e]) =
     (case stamp_of e of Some (k, t) \<Rightarrow> if k = key then t else last_stamp key t0 evs | None \<Rightarrow> last_stamp key t0 evs)"
  by (simp add: last_stamp_def split: option.splits)

lemma obj_secs_append: "obj_secs (xs @ ys) = obj_secs xs @ obj_secs ys"
  by (induction xs rule: obj_secs.induct) simp_all

text \<open>Every event but a lane's object stamps unconditionally.\<close>

lemma route_served: "snd (route_label r) \<longleftrightarrow> r \<noteq> RUnserved"
  by (cases r) simp_all

lemma other_event_stamp:
  assumes "\<nexists>k lane sizes sec len. e = EObject k lane sizes sec len" and "fst key \<in> fresh_gauges"
  shows "gauges (inst (obs_step e w)) key =
    (case stamp_of e of Some (k, t) \<Rightarrow> if k = key then Some t else gauges (inst w) key | None \<Rightarrow> gauges (inst w) key) \<and>
    lastStamps (obs_step e w) = lastStamps w"
  using assms
  by (cases e; cases key)
     (auto simp: post_observe_def Since_def Stamp_def timed_def route_served announce_observe_def pull_observe_def
       obs_Timer_def publish_state_def SetFSMState_gauges fresh_gauges_def Let_def case_prod_unfold
       split: option.splits)

text \<open>The invariant of a run: each gauge is at its last stamp, and no connection is ahead of its lane's gauge.\<close>

lemma freshness_inv:
  assumes "list_all (on_lane lane_of) evs" and "sorted (unix start # obj_secs evs)" and "0 \<le> unix start"
  shows "(\<forall>key \<in> seeded_gauges lanes reverse. fst key \<in> fresh_gauges \<longrightarrow>
      list_all (event_ok lanes reverse) evs \<longrightarrow>
      gauges (inst (obs_run start lanes reverse evs)) key = Some (last_stamp key (unix start) evs)) \<and>
    (\<forall>k. lastStamps (obs_run start lanes reverse evs) k \<le> last_stamp (LastObjectTime, [lane_of k]) (unix start) evs) \<and>
    (\<forall>l. last_stamp (LastObjectTime, [l]) (unix start) evs \<le> last (unix start # obj_secs evs))"
  using assms
proof (induction evs rule: rev_induct)
  case Nil
  then show ?case
    by (auto simp: obs_run_def obs_start_def Preset_gauges last_stamp_def fresh_gauges_def)
next
  case (snoc e evs)
  define w where "w = obs_run start lanes reverse evs"
  have run: "obs_run start lanes reverse (evs @ [e]) = obs_step e w" by (simp add: obs_run_def w_def)
  have IH: "\<And>key. key \<in> seeded_gauges lanes reverse \<Longrightarrow> fst key \<in> fresh_gauges \<Longrightarrow>
      list_all (event_ok lanes reverse) evs \<Longrightarrow> gauges (inst w) key = Some (last_stamp key (unix start) evs)"
    "\<And>k. lastStamps w k \<le> last_stamp (LastObjectTime, [lane_of k]) (unix start) evs"
    "\<And>l. last_stamp (LastObjectTime, [l]) (unix start) evs \<le> last (unix start # obj_secs evs)"
    using snoc by (auto simp: w_def obj_secs_append sorted_append)
  show ?case
  proof (cases "\<exists>k lane sizes sec len. e = EObject k lane sizes sec len")
    case False
    then have no: "obj_secs [e] = []" by (cases e) auto
    have st: "stamp_of e = Some (k, t) \<Longrightarrow> fst k \<noteq> LastObjectTime" for k t
      using False by (cases e) (auto split: if_splits)
    have ls: "lastStamps (obs_step e w) = lastStamps w"
      using other_event_stamp [OF False, of "(LastPullTime, [])" w] by (simp add: fresh_gauges_def)
    show ?thesis unfolding run ls
      using other_event_stamp [OF False, of _ w] IH no st
      by (auto simp: last_stamp_snoc obj_secs_append split: option.splits)
  next
    case True
    then obtain k lane sizes sec len where e: "e = EObject k lane sizes sec len" by auto
    have lane: "lane = lane_of k" using snoc.prems e by simp
    have "sorted ((unix start # obj_secs evs) @ [sec])" using snoc.prems by (simp add: e obj_secs_append)
    then have le: "last (unix start # obj_secs evs) \<le> sec" by (simp add: sorted_append)
    have eq: "sec = lastStamps w k \<Longrightarrow> last_stamp (LastObjectTime, [lane]) (unix start) evs = sec"
      using IH(2) [of k] IH(3) [of lane] le by (simp add: lane)
    have w': "gauges (inst (obs_step e w)) = (if sec = lastStamps w k then gauges (inst w)
          else (gauges (inst w))((LastObjectTime, [lane]) \<mapsto> sec))"
      "lastStamps (obs_step e w) = (lastStamps w)(k := sec)"
      by (auto simp: e lane_observe_def Let_def)
    have tr: "lastStamps w j \<le> sec" for j using IH(2) [of j] IH(3) [of "lane_of j"] le by linarith
    show ?thesis unfolding run w'
      using IH eq le tr order_trans [OF IH(3) le]
      by (auto simp: last_stamp_snoc e obj_secs_append lane)
  qed
qed

section \<open>Properties\<close>

text \<open>
  A freshness gauge is an age.  In every run the gauge holds the second of the
  last event it stands for, or the start of the process if there was none;
  for a lane this holds although each connection skips the store when it has
  already stamped the current coarse second, as long as that clock does not
  run backwards.
\<close>

theorem freshness_exact:
  assumes "list_all (event_ok lanes reverse) evs" and "list_all (on_lane lane_of) evs"
    and "sorted (unix start # obj_secs evs)" and "0 \<le> unix start"
    and "key \<in> seeded_gauges lanes reverse" and "fst key \<in> fresh_gauges"
  shows "gauges (inst (obs_run start lanes reverse evs)) key = Some (last_stamp key (unix start) evs)"
  using freshness_inv [OF assms(2-4)] assms(1,5,6) by blast

theorem freshness_exact_witness:
  "gauges (inst (obs_run 0 [''tx''] False
     [EObject 0 ''tx'' False 5 300, EObject 1 ''tx'' False 6 300, EObject 0 ''tx'' False 6 300, EPost 1 2 (Some 202)]))
     (LastObjectTime, [''tx'']) = Some 6"
  using freshness_exact [of "[''tx'']" False
      "[EObject 0 ''tx'' False 5 300, EObject 1 ''tx'' False 6 300, EObject 0 ''tx'' False 6 300, EPost 1 2 (Some 202)]"
      "\<lambda>_. ''tx''" 0 "(LastObjectTime, [''tx''])"]
  by (simp add: unix_def seeded_gauges_def fresh_gauges_def last_stamp_def)

text \<open>The number each state name stands for.\<close>

definition fsm_code :: "string \<Rightarrow> int" where
  "fsm_code s = (if s = ''IDLE'' then 0 else if s = ''RUNNING'' then 1 else if s = ''CATCHINGBLOCKS'' then 2 else - 1)"

text \<open>The two gauges agree: one listed state is at 1, the others at 0, and the number is that state's.\<close>

definition fsm_gauges_agree :: "instruments \<Rightarrow> bool" where
  "fsm_gauges_agree I \<longleftrightarrow>
     (\<exists>s \<in> set FSMStates. (\<forall>t \<in> set FSMStates. gauges I (ClusterFSMStateInfo, [t]) = Some (if t = s then 1 else 0)) \<and>
        gauges I (ClusterFSMState, []) = Some (fsm_code s))"

lemma digits_head: "\<exists>d r. digits n = d # r \<and> 48 \<le> (of_char d :: nat) \<and> (of_char d :: nat) \<le> 57"
proof (induction n rule: digits.induct)
  case (1 n)
  then show ?case by (cases "n < 10") (auto simp: digits.simps [of n])
qed

lemma fsm_name_listed: "fsm_name n \<in> set FSMStates \<longleftrightarrow> n = 0 \<or> n = 1 \<or> n = 2"
  using digits_head [of "nat n"] by (auto simp: fsm_name_def FSMStates_def)

lemma fsm_name_code: "n = 0 \<or> n = 1 \<or> n = 2 \<Longrightarrow> fsm_code (fsm_name n) = n"
  by (auto simp: fsm_name_def fsm_code_def)

lemma SetFSMState_agree:
  "fsm_gauges_agree (SetFSMState name code I) \<longleftrightarrow> name \<in> set FSMStates \<and> code = fsm_code name"
proof -
  have "gauges (SetFSMState name code I) (ClusterFSMStateInfo, [t]) = Some (if t = name then 1 else 0)"
    if "t \<in> set FSMStates" for t
    using that by (auto simp: SetFSMState_gauges)
  moreover have "gauges (SetFSMState name code I) (ClusterFSMState, []) = Some code"
    by (simp add: SetFSMState_gauges)
  ultimately show ?thesis by (auto simp: fsm_gauges_agree_def)
qed

lemma publish_agree:
  "fsm_gauges_agree (publish_state fsm hdr I) \<longleftrightarrow> (case fsm of None \<Rightarrow> True | Some n \<Rightarrow> n = 0 \<or> n = 1 \<or> n = 2)"
proof -
  have "fsm_gauges_agree (publish_state fsm hdr I) \<longleftrightarrow>
      fsm_gauges_agree (case fsm of None \<Rightarrow> SetFSMState ''UNKNOWN'' (- 1) (probe_error ''fsm'' I)
        | Some n \<Rightarrow> SetFSMState (fsm_name n) n I)"
    by (auto simp: publish_state_def Let_def fsm_gauges_agree_def split: option.splits)
  also have "\<dots> \<longleftrightarrow> (case fsm of None \<Rightarrow> True | Some n \<Rightarrow> n = 0 \<or> n = 1 \<or> n = 2)"
    using fsm_name_listed fsm_name_code
    by (auto simp: SetFSMState_agree split: option.splits) (auto simp: FSMStates_def fsm_code_def)
  finally show ?thesis .
qed

lemma publish_unlisted:
  assumes "n \<noteq> 0 \<and> n \<noteq> 1 \<and> n \<noteq> 2"
  shows "gauges (publish_state (Some n) hdr I) (ClusterFSMState, []) = Some n"
    and "t \<in> set FSMStates \<Longrightarrow> gauges (publish_state (Some n) hdr I) (ClusterFSMStateInfo, [t]) = Some 0"
  using assms fsm_name_listed [of n]
  by (auto simp: publish_state_def Let_def SetFSMState_gauges split: option.splits)

text \<open>
  C38: When the FSM gauges agree.  However many polls ran, with whatever answers
  and failures, exactly one of the published states is at 1 and the numeric
  gauge is its number if and only if the last FSM answer was a failure or one
  of the three listed states; after any other number the cluster sends, every
  state is at 0 and the numeric gauge is that number.
\<close>

theorem fsm_gauges_agree_iff:
  assumes "0 < every"
  shows "let I = snd (RunClusterState every first ticks st); ans = fst (last (first # ticks)) in
    (fsm_gauges_agree I \<longleftrightarrow> (case ans of None \<Rightarrow> True | Some n \<Rightarrow> n = 0 \<or> n = 1 \<or> n = 2)) \<and>
    (\<forall>n. ans = Some n \<and> n \<noteq> 0 \<and> n \<noteq> 1 \<and> n \<noteq> 2 \<longrightarrow>
       (\<forall>t \<in> set FSMStates. gauges I (ClusterFSMStateInfo, [t]) = Some 0) \<and> gauges I (ClusterFSMState, []) = Some n)"
proof -
  define ps where "ps = butlast (first # ticks)"
  define p where "p = last (first # ticks)"
  have "first # ticks = ps @ [p]" unfolding ps_def p_def by (rule append_butlast_last_id [symmetric]) simp
  then have "fold poll_publish (first # ticks) st = poll_publish p (fold poll_publish ps st)"
    by (simp only: fold_append o_apply) simp
  then have "RunClusterState every first ticks st = poll_publish p (fold poll_publish ps st)"
    using assms by (simp add: RunClusterState_def)
  then show ?thesis
    unfolding p_def [symmetric] by (simp add: poll_publish_def publish_agree publish_unlisted case_prod_unfold Let_def)
qed

theorem fsm_gauges_agree_iff_witness:
  "let I = snd (RunClusterState second (Some 1, None) [(Some 3, Some 9)] (undefined, no_series)) in
     \<not> fsm_gauges_agree I \<and> gauges I (ClusterFSMStateInfo, [''RUNNING'']) = Some 0 \<and> gauges I (ClusterFSMState, []) = Some 3"
  using fsm_gauges_agree_iff [of second "(Some 1, None)" "[(Some 3, Some 9)]" "(undefined, no_series)"]
  by (simp add: Let_def FSMStates_def)

text \<open>
  Every name handed to the registry is distinct, so registering them cannot
  panic, and every bucket list is strictly increasing.
\<close>

theorem obs_names_distinct:
  "distinct (obs_Collectors @ kafka_each) \<and> sorted_wrt (<) (fst (snd (hist_family h)))"
proof
  show "distinct (obs_Collectors @ kafka_each)" by code_simp
  show "sorted_wrt (<) (fst (snd (hist_family h)))"
    by (cases h) (simp_all add: BucketsMilliSeconds_def BucketsMilliLongSeconds_def BucketsSeconds_def BucketsSize_def)
qed

text \<open>What an event adds to the produce measurements: bytes, and end-to-end observations.\<close>

fun produce_bytes :: "kafka_event \<Rightarrow> int" where
  "produce_bytes (KWrite key n t err) = (if key = produceAPIKey then n else 0)"
| "produce_bytes _ = 0"

fun produce_e2e :: "kafka_event \<Rightarrow> bool" where
  "produce_e2e (KE2E key w d err) = (key = produceAPIKey)"
| "produce_e2e _ = False"

lemma kafka_step_adds:
  "kafkaBytesWritten (kafka_step e k) = kafkaBytesWritten k + produce_bytes e"
  "length (kafkaE2EDuration (kafka_step e k)) = length (kafkaE2EDuration k) + (if produce_e2e e then 1 else 0)"
  "length (kafkaProduceLatency (kafka_step e k)) = length (kafkaProduceLatency k) + (if produce_e2e e then 1 else 0)"
  by (cases e; simp add: OnBrokerConnect_def OnBrokerDisconnect_def OnBrokerWrite_def OnBrokerE2E_def
      OnProduceBatchWritten_def write_error_def)+

text \<open>
  Requests other than produce leave the producer's measurements alone, and the
  two latency histograms are observed together.
\<close>

theorem kafka_produce_only:
  "kafkaBytesWritten (fold kafka_step evs k) = kafkaBytesWritten k + sum_list (map produce_bytes evs) \<and>
   length (kafkaE2EDuration (fold kafka_step evs k)) = length (kafkaE2EDuration k) + length (filter produce_e2e evs) \<and>
   length (kafkaProduceLatency (fold kafka_step evs k)) =
     length (kafkaProduceLatency k) + length (filter produce_e2e evs)"
  by (induction evs arbitrary: k) (simp_all add: kafka_step_adds del: kafka_step.simps)

end
