(* ===== verification/Process.thy ===== *)
theory Process
  imports Complex_Main Startup Metrics Lifecycle Obs
begin

text \<open>
  The process as a whole: the flags' defaults, tracing, the recorder's host
  facts, its registry and its endpoint, and the group of goroutines
  \<open>main\<close> starts on the parts the startup built.  The lemmas compose the
  startup with the life of the bridge.
\<close>

section \<open>Flag defaults\<close>

definition default_pipe_flags :: pipe_Config where
  "default_pipe_flags = \<lparr> Endpoints = [], BatchTxs = 512, BatchBytes = 8 * 2 ^ 20, Linger = 2 * millisecond, Inflight = 4,
     RetryAttempts = 6, Timeout = 0, Queue = 8192, Builders = 4 \<rparr>"

definition default_flags :: flags where
  "default_flags = \<lparr> f_mode = ''all'', f_propagation = [], f_brokers = [], f_advertise = [], f_apiPrefix = ''/api/v1'',
     f_subtreeTopic = ''subtrees-teranode1'', f_blockTopic = ''blocks-teranode1'', f_peerID = [], f_blockchain = [],
     f_localAsset = [], f_edgeIngress = [], f_subtreePort = 8726, f_blockPort = 8727, f_submitter = True,
     f_tls = \<lparr> SecurityLevel = 0, CertFile = [], KeyFile = [], CACertFile = [] \<rparr>, f_mineTag = [],
     f_cacheBytes = 2 ^ 30, f_cacheTTL = 10 * minute, f_txCache = - 1, f_maxObject = 0, f_drainFor = 5 * second,
     f_pipe = default_pipe_flags \<rparr>"

text \<open>The flags that the recorder, the tracer, the profilers and the group read.\<close>

record run_flags =
  r_submitProbe :: string
  r_statsEvery :: duration
  r_metricsAddr :: string
  r_legacyPrefix :: bool
  r_healthStrict :: bool
  r_clusterPoll :: duration
  r_blockProfile :: int
  r_mutexProfile :: int
  r_traceEnabled :: bool
  r_traceCollector :: string
  r_traceSample :: rat
  r_instanceID :: string

definition default_run_flags :: run_flags where
  "default_run_flags = \<lparr> r_submitProbe = [], r_statsEvery = minute, r_metricsAddr = ''[::]:9146'', r_legacyPrefix = False,
     r_healthStrict = False, r_clusterPoll = 15 * second, r_blockProfile = 0, r_mutexProfile = 0, r_traceEnabled = False,
     r_traceCollector = ''http://localhost:4318'', r_traceSample = 1 / 100, r_instanceID = [] \<rparr>"

section \<open>Tracing\<close>

record trace_Config =
  tr_Enabled :: bool
  tr_CollectorURL :: string
  tr_SampleRate :: rat
  tr_ServiceName :: string
  tr_Version :: string
  tr_Instance :: string

datatype trace_error = BadCollectorURL | NoCollectorHost | ExporterRefused | ResourceRefused

text \<open>What the exporter and the provider are configured with.\<close>

record tracer =
  tc_endpoint :: string
  tc_insecure :: bool
  tc_rate :: rat
  tc_attributes :: "(string \<times> string) list"

text \<open>
  \<open>Init\<close>.  \<open>parse\<close> stands for \<open>url.Parse\<close>, giving scheme and host; the two
  flags for the exporter's and the resource's constructors.  The propagator
  is installed first, on every path; the outcome is an error, nothing when
  tracing is off, or the tracer.
\<close>

definition tracing_Init :: "(string \<Rightarrow> (string \<times> string) option) \<Rightarrow> bool \<Rightarrow> bool \<Rightarrow> trace_Config \<Rightarrow>
    bool \<times> (trace_error, tracer option) res" where
  "tracing_Init parse exporter_ok resource_ok cfg =
     (True,
      if \<not> tr_Enabled cfg then Inr None
      else case parse (tr_CollectorURL cfg) of
        None \<Rightarrow> Inl BadCollectorURL
      | Some (scheme, host) \<Rightarrow>
          if host = [] then Inl NoCollectorHost
          else if \<not> exporter_ok then Inl ExporterRefused
          else if \<not> resource_ok then Inl ResourceRefused
          else let rate = tr_SampleRate cfg;
                   rate = (if rate < 0 then 0 else rate);
                   rate = (if rate > 1 then 1 else rate)
               in Inr (Some \<lparr> tc_endpoint = host, tc_insecure = (scheme = ''http''), tc_rate = rate,
                    tc_attributes = [(''service.name'', tr_ServiceName cfg), (''service.version'', tr_Version cfg),
                      (''service.instance.id'', tr_Instance cfg)] \<rparr>))"

section \<open>Host facts and profilers\<close>

record iface =
  if_Name :: string
  if_OperState :: string
  if_IPv4 :: "string list"
  if_IPv6 :: "string list"
  if_SpeedMbps :: int

record inventory =
  inv_Hostname :: string
  inv_KernelVersion :: string
  inv_CPULogical :: int
  inv_MemTotalBytes :: u64
  inv_Version :: string
  inv_Interfaces :: "iface list"

definition newHostLabels :: "inventory \<Rightarrow> string \<Rightarrow> string \<Rightarrow> string list" where
  "newHostLabels iv nic speed =
     [inv_Hostname iv, inv_KernelVersion iv, Itoa (inv_CPULogical iv), digits (unat (inv_MemTotalBytes iv)),
      nic, speed, inv_Version iv]"

definition iface_up :: "iface \<Rightarrow> bool" where
  "iface_up i \<longleftrightarrow> if_OperState i = ''up'' \<and> (if_IPv4 i \<noteq> [] \<or> if_IPv6 i \<noteq> [])"

definition SetHostInfo :: "inventory \<Rightarrow> Recorder \<Rightarrow> Recorder" where
  "SetHostInfo iv r =
     (case find iface_up (inv_Interfaces iv) of
        None \<Rightarrow> r \<lparr> rec_host := Some (newHostLabels iv [] []) \<rparr>
      | Some i \<Rightarrow> r \<lparr> rec_host := Some (newHostLabels iv (if_Name i)
          (if if_SpeedMbps i > 0 then Itoa (if_SpeedMbps i) else [])) \<rparr>)"

text \<open>The two runtime settings, where set.\<close>

definition ProfileRates :: "int \<Rightarrow> int \<Rightarrow> int option \<times> int option" where
  "ProfileRates blockRate mutexFraction =
     (if blockRate > 0 then Some blockRate else None, if mutexFraction > 0 then Some mutexFraction else None)"

section \<open>The HTTP servers\<close>

text \<open>
  \<open>Serve\<close> of the retrieval plane and of the recorder: the error returned, and
  for the retrieval plane the values its bound flag takes.  The server is
  closed by the shutdown that follows the context, or fails by itself.
\<close>

datatype http_end = ListenError | ClosedByShutdown | ServerError

fun http_Serve :: "http_end \<Rightarrow> bool" where
  "http_Serve ListenError = True"
| "http_Serve ClosedByShutdown = False"
| "http_Serve ServerError = True"

fun bound_trace :: "http_end \<Rightarrow> bool list" where
  "bound_trace ListenError = [False]"
| "bound_trace _ = [False, True, False]"

section \<open>What the recorder reads\<close>

text \<open>
  \<open>Pipe.Stats\<close>: the queue gauge is floored at zero.  The seal counters are an
  argument, since the running pipe keeps its sealed batches and not their
  reasons.
\<close>

definition pipe_Stats_of :: "(seal_reason \<Rightarrow> nat) \<Rightarrow> pipe \<Rightarrow> pipe_Stats" where
  "pipe_Stats_of seals p =
     (let k = stats p in
      \<lparr> ps_Enqueued = enqueued k, ps_Accepted = accepted k, ps_Rejected = rejected k, ps_Failed = failed k,
        ps_Retried = retried k, ps_RetryAccepted = retryAccepted k, ps_Unattributed = unattributed k,
        ps_Batches = batches k, ps_RateLimited = rateLimited k,
        ps_SealSize = seals SealSize, ps_SealBytes = seals SealBytes, ps_SealLinger = seals SealLinger,
        ps_SealDep = seals SealDep, ps_Queue = max (queued p) 0 \<rparr>)"

text \<open>The live subsystems at the moment of a scrape, by the variables of \<open>main\<close>.\<close>

record moment =
  mo_lane :: "string \<Rightarrow> lane_counts"
  mo_objects :: Cache
  mo_txs :: "Generational option"
  mo_seen :: Registry
  mo_seals :: "seal_reason \<Rightarrow> nat"
  mo_pipe :: pipe
  mo_buffered :: int
  mo_producer :: Producer
  mo_retrieval :: retrieval_Stats
  mo_rev :: Subscriber

text \<open>
  The argument of \<open>SetSources\<close>, read at that moment: a part that was not built
  contributes nothing, except the transaction cache, whose nil pointer is a
  value of the interface.  The tunnels are the reverse path's.
\<close>

definition sources_of :: "'l parts \<Rightarrow> moment \<Rightarrow> Sources" where
  "sources_of p m =
     \<lparr> src_Lanes = map (\<lambda>l. (lf_Name l, lane_Stats_of (mo_lane m (lf_Name l)))) (pt_lanes p),
       src_Objects = Some (cache_Stats_of (mo_objects m)), src_Txs = Some (gen_Stats_of (mo_txs m)),
       src_Seen = Some (registry_Stats_of (mo_seen m)),
       src_Tx = map_option (\<lambda>_. pipe_Stats_of (mo_seals m) (mo_pipe m)) (pt_pipe p),
       src_Announce = map_option (\<lambda>_. announce_Stats_of (mo_buffered m) (mo_producer m)) (pt_producer p),
       src_Retrieval = map_option (\<lambda>_. mo_retrieval m) (pt_retrieval p),
       src_Reverse = map_option (\<lambda>_. reverse_Stats_of (mo_rev m)) (pt_rev p),
       src_UpTunnels = (if pt_rev p = None then [None, None]
          else [map_option UpTunnel_Stats (rv_Subtrees (mo_rev m)), map_option UpTunnel_Stats (rv_Blocks (mo_rev m))]) \<rparr>"

section \<open>From the command line to the group\<close>

definition group_flags_of :: "'l parts \<Rightarrow> flags \<Rightarrow> run_flags \<Rightarrow> group_flags" where
  "group_flags_of p f r = \<lparr> has_retrieval = (pt_retrieval p \<noteq> None), has_reverse = (pt_rev p \<noteq> None),
     cluster_poll = r_clusterPoll r, submit_probe = r_submitProbe r, is_submitter = f_submitter f,
     metrics_addr = r_metricsAddr r, stats_every = r_statsEvery r \<rparr>"

text \<open>
  What the world outside \<open>startup\<close> answers: the tracing libraries, the host's
  inventory, the build's version, and the state the health checks probe.
\<close>

record main_env =
  me_parse :: "string \<Rightarrow> (string \<times> string) option"
  me_exporter :: bool
  me_resource :: bool
  me_inventory :: inventory
  me_version :: string
  me_probes :: probes

text \<open>What runs once the group is started.\<close>

record 'l running =
  ru_tracer :: "tracer option"
  ru_parts :: "'l parts"
  ru_rec :: Recorder
  ru_inst :: instruments
  ru_profiles :: "int option \<times> int option"
  ru_tasks :: "task list"

definition ServiceName :: string where
  "ServiceName = ''teranode-bridge''"

definition trace_cfg :: "main_env \<Rightarrow> run_flags \<Rightarrow> trace_Config" where
  "trace_cfg E r = \<lparr> tr_Enabled = r_traceEnabled r, tr_CollectorURL = r_traceCollector r, tr_SampleRate = r_traceSample r,
     tr_ServiceName = ServiceName, tr_Version = me_version E, tr_Instance = r_instanceID r \<rparr>"

text \<open>
  \<open>main\<close> up to the group: an exit status, or what was built.  The recorder's
  sources are pointers to the parts and are read at each scrape, so here it
  still holds the empty ones.
\<close>

definition main_start :: "main_env \<Rightarrow> 'l world \<Rightarrow> flags \<Rightarrow> run_flags \<Rightarrow> (int, 'l running) res" where
  "main_start E w f r =
     (case snd (tracing_Init (me_parse E) (me_exporter E) (me_resource E) (trace_cfg E r)) of
        Inl e \<Rightarrow> Inl 1
      | Inr tc \<Rightarrow>
          (case startup w f of
             Inl e \<Rightarrow> Inl (exit_code e)
           | Inr p \<Rightarrow>
               let rc = metrics_New (me_version E) (r_instanceID r) (r_legacyPrefix r) (r_healthStrict r);
                   rc = SetLevelVar (SetHostInfo (me_inventory E) rc);
                   laneNames = map lf_Name (pt_lanes p);
                   I = Preset (w_start w) laneNames (pt_rev p \<noteq> None) no_series;
                   rc = SetChecks (buildChecks (me_probes E) (f_propagation f) (f_localAsset f) (f_mode f = ''sink'')
                     (r_clusterPoll r > 0)) rc
               in Inr \<lparr> ru_tracer = tc, ru_parts = p, ru_rec = rc, ru_inst = I,
                    ru_profiles = ProfileRates (r_blockProfile r) (r_mutexProfile r),
                    ru_tasks = group_tasks (group_flags_of p f r) \<rparr>))"

text \<open>One scrape of the running process.\<close>

definition scrape_at :: "'l running \<Rightarrow> moment \<Rightarrow> sample list" where
  "scrape_at R m = Collect_metrics (SetSources (sources_of (ru_parts R) m) (ru_rec R))"

text \<open>
  The life reached from a successful start.  A sink builds no pipe: its group
  is the one of a pipe without builders, on which no step is possible.
\<close>

definition no_pipe :: pipe_Config where
  "no_pipe = (pipe_defaults default_pipe_flags) \<lparr> Builders := 0 \<rparr>"

definition pipe_of :: "'l parts \<Rightarrow> pipe_Config" where
  "pipe_of p = (case pt_pipe p of Some c \<Rightarrow> c | None \<Rightarrow> no_pipe)"

definition process_step :: "'l running \<Rightarrow> life \<Rightarrow> life \<Rightarrow> bool" where
  "process_step R = life_step (pipe_of (ru_parts R))"

definition process_reach :: "'l running \<Rightarrow> life \<Rightarrow> bool" where
  "process_reach R L \<longleftrightarrow> life_reach (pipe_of (ru_parts R)) (length (pt_lanes (ru_parts R))) (ru_tasks R) L"

lemma main_start_Inr:
  assumes "main_start E w f r = Inr R"
  shows "startup w f = Inr (ru_parts R)" "ru_tasks R = group_tasks (group_flags_of (ru_parts R) f r)"
    "ru_inst R = Preset (w_start w) (map lf_Name (pt_lanes (ru_parts R))) (pt_rev (ru_parts R) \<noteq> None) no_series"
    "rec_legacy (ru_rec R) = r_legacyPrefix r"
  using assms
  by (auto simp: main_start_def Let_def SetChecks_def SetLevelVar_def SetHostInfo_def metrics_New_def split: sum.splits option.splits)

lemma pipe_New_ok:
  assumes "pipe_New c0 = Some c"
  shows "config_ok c" "Builders c \<in> {1, 2, 4, 8, 16}" "0 < Inflight c"
proof -
  have c: "c = (pipe_defaults c0) \<lparr> Endpoints := map (trim_right (CHR ''/'')) (Endpoints (pipe_defaults c0)) \<rparr>"
    using assms by (auto simp: pipe_New_def Let_def split: if_splits)
  show "config_ok c" using config_ok_defaults [of c0] by (simp add: c config_ok_def)
  show "Builders c \<in> {1, 2, 4, 8, 16}" using pipe_defaults_builders [of c0] by (simp add: c)
  show "0 < Inflight c" using pipe_defaults_inflight [of c0] by (simp add: c)
qed

lemma no_pipe_ok: "config_ok no_pipe" "0 < Inflight no_pipe" "nat (Builders no_pipe) = 0"
  using config_ok_defaults [of default_pipe_flags] pipe_defaults_inflight [of default_pipe_flags]
  by (simp_all add: no_pipe_def config_ok_def)

lemma process_facts:
  assumes "main_start E w f r = Inr R"
  shows "0 < length (pt_lanes (ru_parts R))" "config_ok (pipe_of (ru_parts R))" "0 < Inflight (pipe_of (ru_parts R))"
proof -
  define p where "p = ru_parts R"
  obtain pipe held where q: "build_pipe (f_mode f = ''sink'') f = Inr pipe" "pt_pipe p = pipe"
    "pt_lanes p = lane_set (f_mode f = ''tx'') (pipe \<noteq> None) f held"
    using main_start_Inr(1) [OF assms] by (rule startup_Inr) (auto simp: p_def)
  show "0 < length (pt_lanes (ru_parts R))" using q(3) by (simp add: p_def lane_set_def Let_def)
  have "config_ok (pipe_of p) \<and> 0 < Inflight (pipe_of p)"
  proof (cases pipe)
    case (Some c)
    then obtain c0 where "pipe_New c0 = Some c" using q(1) by (auto simp: build_pipe_def split: if_splits option.splits)
    then show ?thesis using pipe_New_ok Some q(2) by (auto simp: pipe_of_def)
  qed (use q(2) no_pipe_ok in \<open>simp add: pipe_of_def\<close>)
  then show "config_ok (pipe_of (ru_parts R))" "0 < Inflight (pipe_of (ru_parts R))" by (simp_all add: p_def)
qed

lemma process_inv:
  assumes "main_start E w f r = Inr R" and "process_reach R L"
  shows "life_inv (pipe_of (ru_parts R)) (length (pt_lanes (ru_parts R))) L"
  using life_inv_reach assms(2) process_facts [OF assms(1)] by (simp add: process_reach_def)

lemma pipeless_facts:
  assumes "life_inv c n L" and "nat (Builders c) = 0"
  shows "senders (the_pipe L) = [] \<and> held (the_pipe L) = 0 \<and> queued (the_pipe L) = 0 \<and>
    enqueued (stats (the_pipe L)) = 0 \<and> booked (stats (the_pipe L)) = 0"
proof -
  have "the_pipe L = pipe_init c" using assms reachable_no_builders by (simp add: life_inv_def)
  then show ?thesis by (simp add: pipe_init_def held_def booked_def counters_zero_def assms(2))
qed

lemma process_settled:
  assumes "main_start E w f r = Inr R" and "process_reach R L" and "bridge_stopped L" and "\<not> lane_err L ! tx_lane_index"
  shows "let p = the_pipe L; k = stats p in
    senders p = [] \<and> held p = 0 \<and> queued p = 0 \<and>
    accepted k + rejected k + failed k \<le> enqueued k \<and>
    enqueued k \<le> accepted k + rejected k + failed k + unattributed k"
proof (cases "nat (Builders (pipe_of (ru_parts R))) = 0")
  case True
  then show ?thesis using pipeless_facts [OF process_inv [OF assms(1,2)]] by (simp add: booked_def Let_def)
next
  case False
  then show ?thesis using graceful_facts assms(2-4) process_facts [OF assms(1)] by (simp add: process_reach_def)
qed

section \<open>Properties\<close>

text \<open>
  C9: From the command line to the last transaction.  Whatever flags started the
  bridge, in any mode, when the process has stopped no lane that ended in
  order has a connection left; and if the transaction lane is one of them,
  nothing is left in the pipe and every transaction the lane handed over is
  booked, up to the unattributed lines.
\<close>

theorem process_lossless:
  assumes "main_start E w f r = Inr R" and "process_reach R L" and "bridge_stopped L"
  shows "(\<forall>l < length (pt_lanes (ru_parts R)). \<not> lane_err L ! l \<longrightarrow> conns L ! l = 0) \<and>
    (\<not> lane_err L ! tx_lane_index \<longrightarrow>
      (let p = the_pipe L; k = stats p in
       senders p = [] \<and> held p = 0 \<and> queued p = 0 \<and>
       accepted k + rejected k + failed k \<le> enqueued k \<and>
       enqueued k \<le> accepted k + rejected k + failed k + unattributed k))"
proof -
  note inv = process_inv [OF assms(1,2)]
  have "conns L ! l = 0" if "l < length (pt_lanes (ru_parts R))" "\<not> lane_err L ! l" for l
    using inv that assms(3) by (auto simp: life_inv_def lanes_inv_def bridge_stopped_def True_notin_iff)
  then show ?thesis using process_settled [OF assms] by blast
qed

definition tx_flags :: flags where
  "tx_flags = sample_flags \<lparr> f_mode := ''tx'', f_blockchain := [] \<rparr>"

definition quiet_run :: run_flags where
  "quiet_run = default_run_flags \<lparr> r_clusterPoll := 0, r_metricsAddr := [], r_statsEvery := 0 \<rparr>"

definition sample_env :: main_env where
  "sample_env = \<lparr> me_parse = (\<lambda>_. None), me_exporter = True, me_resource = True,
     me_inventory = \<lparr> inv_Hostname = ''h'', inv_KernelVersion = ''6'', inv_CPULogical = 4, inv_MemTotalBytes = 1,
       inv_Version = ''v'', inv_Interfaces = [] \<rparr>, me_version = ''v'',
     me_probes = \<lparr> pb_ready = True, pb_lanes = 1, pb_listening = None, pb_kafka = None, pb_get = undefined, pb_rev = None \<rparr> \<rparr>"

lemma sample_start: "startup w f = Inr p \<Longrightarrow> \<exists>R. main_start sample_env w f quiet_run = Inr R \<and> ru_parts R = p"
  by (simp add: main_start_def tracing_Init_def trace_cfg_def quiet_run_def default_run_flags_def Let_def)

lemma tx_startup:
  "\<exists>p c. startup sample_world tx_flags = Inr p \<and> pt_pipe p = Some c \<and> length (pt_lanes p) = 1 \<and>
     group_tasks (group_flags_of p tx_flags quiet_run) = [TReady] \<and> Builders c = 4"
  by (simp add: startup_def tx_flags_def sample_flags_def sample_world_def modeFlagsErr_def build_pipe_def pipe_New_def
      build_producer_def held_sockets_def Listeners_def fromEnv_def build_reverse_def res_bind_def Let_def lane_set_def
      group_tasks_def group_flags_of_def quiet_run_def default_run_flags_def pipe_defaults_def sample_config_def
      round_pow2.simps)

lemma tx_process:
  obtains R where "main_start sample_env sample_world tx_flags quiet_run = Inr R" "Builders (pipe_of (ru_parts R)) = 4"
    "length (pt_lanes (ru_parts R)) = 1" "process_reach R (fed_life (pipe_of (ru_parts R)))"
proof -
  obtain p c where p: "startup sample_world tx_flags = Inr p" "pt_pipe p = Some c" "length (pt_lanes p) = 1"
    "group_tasks (group_flags_of p tx_flags quiet_run) = [TReady]" "Builders c = 4"
    using tx_startup by blast
  obtain R where R: "main_start sample_env sample_world tx_flags quiet_run = Inr R" "ru_parts R = p"
    using sample_start [OF p(1)] by blast
  have "ru_tasks R = [TReady]" using main_start_Inr(2) [OF R(1)] R(2) p(4) by simp
  moreover have "life_reach c 1 [TReady] (fed_life c)" using p(5) by (intro fed_life_reach) simp
  ultimately show thesis using that [OF R(1)] p R(2) by (simp add: process_reach_def pipe_of_def)
qed

theorem process_lossless_witness:
  "\<exists>R L. main_start sample_env sample_world tx_flags quiet_run = Inr R \<and> process_reach R L \<and> bridge_stopped L \<and>
     conns L = [0] \<and> enqueued (stats (the_pipe L)) = 2 \<and> held (the_pipe L) = 0"
proof -
  obtain R where R: "main_start sample_env sample_world tx_flags quiet_run = Inr R" "length (pt_lanes (ru_parts R)) = 1"
    "process_reach R (fed_life (pipe_of (ru_parts R)))"
    by (rule tx_process)
  define c where "c = pipe_of (ru_parts R)"
  note facts = process_facts [OF R(1), folded c_def] and inv = process_inv [OF R(1,3), folded c_def]
  obtain L where L: "(life_step c)\<^sup>*\<^sup>* (fed_life c) L" "bridge_stopped L" "lane_err L = lane_err (fed_life c)"
    "enqueued (stats (the_pipe L)) = enqueued (stats (the_pipe (fed_life c)))"
    using drain_to_end [OF inv facts(1-3)] by (auto simp: fed_life_def)
  have reach: "process_reach R L"
    using life_reach_run L(1) R(3) by (simp add: process_reach_def c_def)
  have e: "enqueued (stats (the_pipe L)) = 2" "\<not> lane_err L ! 0" "tx_lane_index = 0"
    using L by (simp_all add: fed_life_def fed_pipe_def life_init_def tx_lane_index_def)
  have "length (conns L) = 1" using process_inv [OF R(1) reach] R(2) by (simp add: life_inv_def lanes_inv_def)
  then have "conns L = [0]" "held (the_pipe L) = 0"
    using process_lossless [OF R(1) reach L(2)] R(2) e by (auto simp: Let_def length_Suc_conv)
  with R(1) reach L(2) e show ?thesis by blast
qed

text \<open>
  C11: The bridge can always be stopped.  In any mode and in every state a running
  process reaches after a signal or a member's error, whatever its peers,
  servers and connections have done so far, there is a run of its goroutines
  that ends with every member of the group returned and adds no error to it:
  stopped by a signal alone, the process can exit with status 0.
\<close>

theorem process_can_stop:
  assumes "main_start E w f r = Inr R" and "process_reach R L" and "gctx_done L"
  shows "\<exists>L'. (process_step R)\<^sup>*\<^sup>* L L' \<and> process_reach R L' \<and> bridge_stopped L' \<and> group_exit L' = group_exit L"
proof -
  obtain L' where "(process_step R)\<^sup>*\<^sup>* L L'" "bridge_stopped L'" "group_exit L' = group_exit L"
    using stop_possible [OF process_inv [OF assms(1,2)] process_facts(1-3) [OF assms(1)] assms(3)]
    by (auto simp: process_step_def group_exit_def)
  moreover from this have "process_reach R L'"
    using life_reach_run assms(2) by (simp add: process_reach_def process_step_def)
  ultimately show ?thesis by blast
qed

theorem process_can_stop_witness:
  "\<exists>R L. main_start sample_env sample_world tx_flags quiet_run = Inr R \<and>
     \<not> bridge_stopped (fed_life (pipe_of (ru_parts R))) \<and>
     (process_step R)\<^sup>*\<^sup>* (fed_life (pipe_of (ru_parts R))) L \<and> bridge_stopped L \<and> group_exit L = 0"
proof -
  obtain R where R: "main_start sample_env sample_world tx_flags quiet_run = Inr R"
    "process_reach R (fed_life (pipe_of (ru_parts R)))"
    by (rule tx_process)
  have "gctx_done (fed_life c)" "\<not> bridge_stopped (fed_life c)" "group_exit (fed_life c) = 0" for c
    by (simp_all add: fed_life_def life_init_def bridge_stopped_def group_exit_def)
  then show ?thesis using process_can_stop [OF R] R(1) by metis
qed

text \<open>
  C31: A running bridge can always be scraped.  However it was started and whatever
  its subsystems have counted since, as long as the two tunnels keep their
  class no two samples of a scrape share a name and labels, and every name is
  one the collector described: the lanes' names and the tunnels' classes are
  distinct because \<open>main\<close> makes them so.
\<close>

theorem process_scrape:
  assumes "main_start E w f r = Inr R"
    and "map_option up_Class (rv_Subtrees (mo_rev m)) = Some ''subtree''"
    and "map_option up_Class (rv_Blocks (mo_rev m)) = Some ''block''"
  shows "distinct (map (\<lambda>s. (sm_desc s, sm_labels s)) (scrape_at R m)) \<and>
    sm_desc ` set (scrape_at R m) \<subseteq> set (Describe (r_legacyPrefix r))"
proof -
  define src where "src = sources_of (ru_parts R) m"
  have st: "startup w f = Inr (ru_parts R)" by (rule main_start_Inr(1) [OF assms(1)])
  have "distinct (map lf_Name (pt_lanes (ru_parts R)))" by (rule startup_Inr [OF st]) (simp add: lane_set_names)
  then have "distinct (map fst (src_Lanes src))" by (simp add: src_def sources_of_def comp_def)
  moreover have "distinct (map us_Class (List.map_filter id (src_UpTunnels src)))"
    using assms(2,3) by (auto simp: src_def sources_of_def List.map_filter_def UpTunnel_Stats_def)
  moreover have "rec_src (SetSources src (ru_rec R)) = Some src" by (simp add: SetSources_def)
  ultimately show ?thesis
    using scrape_well_formed [of "SetSources src (ru_rec R)" src] main_start_Inr(4) [OF assms(1)]
    by (simp add: scrape_at_def src_def SetSources_def)
qed

definition sample_moment :: "Subscriber \<Rightarrow> moment" where
  "sample_moment rv = \<lparr> mo_lane = (\<lambda>_. lane_counts_zero), mo_objects = undefined, mo_txs = None, mo_seen = undefined,
     mo_seals = (\<lambda>_. 0), mo_pipe = undefined, mo_buffered = 0, mo_producer = undefined, mo_retrieval = undefined, mo_rev = rv \<rparr>"

theorem process_scrape_witness:
  "\<exists>R rv. main_start sample_env sample_world sample_flags quiet_run = Inr R \<and> pt_rev (ru_parts R) = Some rv \<and>
     distinct (map (\<lambda>s. (sm_desc s, sm_labels s)) (scrape_at R (sample_moment rv)))"
proof -
  obtain p rv where p: "startup sample_world sample_flags = Inr p" "pt_rev p = Some rv" using sample_startup by auto
  obtain R where R: "main_start sample_env sample_world sample_flags quiet_run = Inr R" "ru_parts R = p"
    using sample_start [OF p(1)] by blast
  have "map_option up_Class (rv_Subtrees rv) = Some ''subtree''" "map_option up_Class (rv_Blocks rv) = Some ''block''"
    using p by (auto simp: build_reverse_def reverse_New_def SetActive_def nilIfNil_def UpTunnel_new_def Let_def
        elim!: startup_Inr split: if_splits sum.splits)
  then show ?thesis using process_scrape [OF R(1), of "sample_moment rv"] R p(2) by (auto simp: sample_moment_def)
qed

text \<open>
  C33: No alert can match an absent series.  Over every run of a started bridge,
  with objects arriving on the lanes it built, the histogram series are
  exactly those seeded before the group started, no gauge seeded then is ever
  missing, and the only one that may appear later is the block height.
\<close>

theorem process_seeded:
  assumes "main_start E w f r = Inr R"
    and "list_all (event_ok (map lf_Name (pt_lanes (ru_parts R))) (pt_rev (ru_parts R) \<noteq> None)) evs"
  shows "let I = inst (fold obs_step evs \<lparr> inst = ru_inst R, lastStamps = (\<lambda>_. 0) \<rparr>) in
    dom (histograms I) = dom (histograms (ru_inst R)) \<and> dom (gauges (ru_inst R)) \<subseteq> dom (gauges I) \<and>
    dom (gauges I) \<subseteq> insert (ClusterBlockHeight, []) (dom (gauges (ru_inst R)))"
  using obs_run_series [OF assms(2), of "w_start w"] main_start_Inr(3) [OF assms(1)]
  by (simp add: obs_run_def obs_start_def Preset_hists Preset_gauges_dom Let_def)

theorem process_seeded_witness:
  "\<exists>R. main_start sample_env sample_world sample_flags quiet_run = Inr R \<and>
     dom (histograms (inst (fold obs_step [EObject 0 ''block'' True 5 300, EPost 1 2 (Some 202), EPoll None (Some 7)]
       \<lparr> inst = ru_inst R, lastStamps = (\<lambda>_. 0) \<rparr>))) = dom (histograms (ru_inst R))"
proof -
  obtain p where p: "startup sample_world sample_flags = Inr p" "pt_rev p \<noteq> None" using sample_startup by auto
  obtain R where R: "main_start sample_env sample_world sample_flags quiet_run = Inr R" "ru_parts R = p"
    using sample_start [OF p(1)] by blast
  have "map lf_Name (pt_lanes p) = [''tx'', ''subtree'', ''block'']"
    by (rule startup_Inr [OF p(1)]) (simp add: lane_set_names sample_flags_def)
  then show ?thesis
    using process_seeded [OF R(1), of "[EObject 0 ''block'' True 5 300, EPost 1 2 (Some 202), EPoll None (Some 7)]"] R p(2)
    by (auto simp: Let_def)
qed

text \<open>
  The flags' defaults are consistent with the pipe: they lie within its
  clamps, so the pipe runs with the documented values, the default retry
  ladder waits eight and a half seconds in all, and a bridge started with no
  flag at all is refused with exit status 2.
\<close>

theorem flag_defaults:
  "pipe_defaults default_pipe_flags = default_pipe_flags \<lparr> Timeout := 30 * second \<rparr> \<and>
   sum_list (map (\<lambda>a. retry_delays ! min a (length retry_delays - 1)) [0..<nat (RetryAttempts default_pipe_flags)])
     = 8525 * millisecond \<and>
   startup w default_flags = Inl (BadFlags AnnounceFlagsMissing) \<and> exit_code (BadFlags AnnounceFlagsMissing) = 2"
proof (intro conjI)
  show "pipe_defaults default_pipe_flags = default_pipe_flags \<lparr> Timeout := 30 * second \<rparr>"
    by (simp add: pipe_defaults_def default_pipe_flags_def or_default_def maxServerBatchTxs_def round_pow2.simps)
  show "sum_list (map (\<lambda>a. retry_delays ! min a (length retry_delays - 1)) [0..<nat (RetryAttempts default_pipe_flags)])
     = 8525 * millisecond"
    by (simp add: default_pipe_flags_def retry_delays_def upt_rec)
  show "startup w default_flags = Inl (BadFlags AnnounceFlagsMissing)"
    by (simp add: startup_def default_flags_def modeFlagsErr_def announceFlagsErr_def)
qed simp

text \<open>
  Tracing never breaks a trace: the propagator is installed on every path,
  tracing that is off cannot refuse the start, and an enabled tracer exports
  to the host of the collector's URL, in clear exactly for the scheme http,
  with a sampling ratio between 0 and 1.
\<close>

theorem tracing_outcome:
  "fst (tracing_Init parse ex rs cfg) \<and>
   (snd (tracing_Init parse ex rs cfg) = Inr None \<longleftrightarrow> \<not> tr_Enabled cfg) \<and>
   (\<forall>t. snd (tracing_Init parse ex rs cfg) = Inr (Some t) \<longrightarrow>
      (\<exists>scheme. parse (tr_CollectorURL cfg) = Some (scheme, tc_endpoint t) \<and> tc_insecure t = (scheme = ''http'')) \<and>
      tc_endpoint t \<noteq> [] \<and> 0 \<le> tc_rate t \<and> tc_rate t \<le> 1)"
  by (auto simp: tracing_Init_def Let_def split: option.splits)

text \<open>
  Registering the recorder's collectors cannot panic: the names described by
  the scrape-time collector, with the legacy prefix or without, are distinct
  from the instruments' and the Kafka client's.
\<close>

theorem registry_names_disjoint:
  "set (Describe legacyOn) \<inter> set (obs_Collectors @ kafka_each) = {}"
proof -
  have "list_all (\<lambda>n. n \<notin> set (obs_Collectors @ kafka_each)) (Describe True)" by code_simp
  moreover have "set (Describe legacyOn) \<subseteq> set (Describe True)" by (auto simp: Describe_def descs_def)
  ultimately show ?thesis unfolding list_all_iff by blast
qed

text \<open>The host's label values are as many as the descriptor's label names, whatever the inventory.\<close>

theorem host_labels_arity: "map_option length (rec_host (SetHostInfo iv r)) = Some 7"
  by (simp add: SetHostInfo_def newHostLabels_def split: option.splits)

end
