(* ===== verification/Statslog.thy ===== *)
theory Statslog
  imports Process
begin

text \<open>
  The statistics lines \<open>main\<close> writes to its log every \<open>-stats\<close> interval and
  once more after the group has returned.  They read the counters a scrape
  reads; the lemmas say where a logged number and its series part ways and
  what the last submission line has settled.
\<close>

section \<open>The lines\<close>

datatype log_value = LNum int | LText string

type_synonym log_line = "string \<times> (string \<times> log_value) list"

abbreviation count_field :: "string \<Rightarrow> nat \<Rightarrow> string \<times> log_value" where
  "count_field k n \<equiv> (k, LNum (int n))"

definition lane_line :: "string \<Rightarrow> lane_Stats \<Rightarrow> log_line" where
  "lane_line name st = (''lane stats'', [(''lane'', LText name), count_field ''conns'' (lst_Conns st),
     count_field ''objects'' (lst_Objects st), count_field ''bytes'' (lst_Bytes st), count_field ''errors'' (lst_Errors st),
     count_field ''dropped'' (lst_Dropped st), count_field ''rejected'' (lst_Rejected st)])"

definition cache_line :: "cache_Stats \<Rightarrow> cache_Stats \<Rightarrow> log_line" where
  "cache_line objStats txStats = (''cache stats'', [count_field ''objects'' (cst_Entries objStats),
     (''object_bytes'', LNum (cst_Bytes objStats)), count_field ''txs'' (cst_Entries txStats),
     (''tx_bytes'', LNum (cst_Bytes txStats)), count_field ''evicted'' (cst_Evicted objStats + cst_Evicted txStats)])"

definition registry_line :: "registry_Stats \<Rightarrow> registry_Stats \<Rightarrow> log_line" where
  "registry_line rs announced = (''registry stats'', [count_field ''entries'' (rst_Entries rs),
     count_field ''duplicates'' (rst_Hits rs), count_field ''announced'' (rst_Entries announced)])"

definition submit_line :: "pipe_Stats \<Rightarrow> log_line" where
  "submit_line s = (''submit stats'', [count_field ''accepted'' (ps_Accepted s), count_field ''rejected'' (ps_Rejected s),
     count_field ''failed'' (ps_Failed s), count_field ''batches'' (ps_Batches s), count_field ''retried'' (ps_Retried s),
     count_field ''retry_ok'' (ps_RetryAccepted s), (''queue'', LNum (ps_Queue s)),
     count_field ''seals_dep'' (ps_SealDep s), count_field ''seals_linger'' (ps_SealLinger s)])"

definition announce_line :: "announce_Stats \<Rightarrow> log_line" where
  "announce_line a = (''announce stats'', [count_field ''subtrees'' (as_Subtrees a), count_field ''blocks'' (as_Blocks a),
     count_field ''failures'' (as_Failures a), (''buffered'', LNum (as_Buffered a)),
     count_field ''awaiting_pull'' (as_AwaitingPull a)])"

definition retrieval_line :: "retrieval_Stats \<Rightarrow> log_line" where
  "retrieval_line r = (''retrieval stats'', [count_field ''subtree'' (rt_Subtree r),
     count_field ''subtree_data'' (rt_SubtreeData r), count_field ''txs'' (rt_Txs r), count_field ''block'' (rt_Block r),
     count_field ''miss'' (rt_Miss r), count_field ''errors'' (rt_Errors r)])"

definition reverse_line :: "reverse_Stats \<Rightarrow> log_line" where
  "reverse_line v = (''reverse stats'', [count_field ''subtrees_up'' (rs_SubtreesUp v), count_field ''blocks_up'' (rs_BlocksUp v),
     count_field ''remote_skipped'' (rs_RemoteSkipped v), count_field ''skipped'' (rs_Skipped v),
     count_field ''failures'' (rs_Failures v), count_field ''reconnects'' (rs_Reconnects v)])"

definition cluster_lines :: "Subscriber \<Rightarrow> log_line list" where
  "cluster_lines rv = (case ClusterState rv of (state, height) \<Rightarrow>
     if state \<noteq> [] then [(''cluster stats'', [(''fsm_state'', LText state), (''height'', LNum (uint height))])] else [])"

definition uptunnel_line :: "UpStats \<Rightarrow> log_line" where
  "uptunnel_line us = (''up-tunnel stats'', [(''class'', LText (us_Class us)), count_field ''sent'' (us_Sent us),
     count_field ''bytes'' (us_Bytes us), count_field ''failures'' (us_Failures us), count_field ''redials'' (us_Redials us)])"

text \<open>
  \<open>logStats\<close> on the parts that were built, read at that moment; \<open>announced\<close> is
  the announce gate's registry.  A bridge without a reverse path passes nil
  for both tunnels.
\<close>

definition logStats :: "'l parts \<Rightarrow> moment \<Rightarrow> Registry \<Rightarrow> log_line list" where
  "logStats p m announced =
     map (\<lambda>l. lane_line (lf_Name l) (lane_Stats_of (mo_lane m (lf_Name l)))) (pt_lanes p)
     @ [cache_line (cache_Stats_of (mo_objects m)) (gen_Stats_of (mo_txs m)),
        registry_line (registry_Stats_of (mo_seen m)) (registry_Stats_of announced)]
     @ (case pt_pipe p of None \<Rightarrow> [] | Some _ \<Rightarrow> [submit_line (pipe_Stats_of (mo_seals m) (mo_pipe m))])
     @ (case pt_producer p of None \<Rightarrow> [] | Some _ \<Rightarrow> [announce_line (announce_Stats_of (mo_buffered m) (mo_producer m))])
     @ (case pt_retrieval p of None \<Rightarrow> [] | Some _ \<Rightarrow> [retrieval_line (mo_retrieval m)])
     @ (case pt_rev p of None \<Rightarrow> []
        | Some _ \<Rightarrow> reverse_line (reverse_Stats_of (mo_rev m)) # cluster_lines (mo_rev m) @
            map (\<lambda>u. uptunnel_line (UpTunnel_Stats u)) (List.map_filter id [rv_Subtrees (mo_rev m), rv_Blocks (mo_rev m)]))"

text \<open>
  What follows \<open>g.Wait\<close>: the exit status and the statistics lines written last.
  The exit on an error skips them.
\<close>

definition main_end :: "'l running \<Rightarrow> moment \<Rightarrow> Registry \<Rightarrow> life \<Rightarrow> int \<times> log_line list" where
  "main_end R m announced L = (if group_err L then (group_exit L, []) else (0, logStats (ru_parts R) m announced))"

section \<open>Properties\<close>

text \<open>Every item a group of the collector emits is a sample of the scrape.\<close>

lemma emitted_sample:
  assumes "(t, s, n, labels) \<in> set (concat (item_groups (SetSources (sources_of (ru_parts R) m) (ru_rec R)) (sources_of (ru_parts R) m)))"
  shows "\<exists>x \<in> set (scrape_at R m). sm_desc x = modernPrefix @ series_name s \<and> sm_labels x = labels \<and> sm_value x = n"
proof -
  define x where "x = \<lparr> sm_desc = modernPrefix @ series_name s, sm_type = t, sm_value = n, sm_labels = labels \<rparr>"
  have "x \<in> set (emit d (t, s, n, labels))" for d by (simp add: emit_def x_def)
  then have "x \<in> set (scrape_at R m)"
    using assms by (force simp: scrape_at_def Collect_metrics_def SetSources_def)
  then show ?thesis by (intro bexI [of _ x]) (simp_all add: x_def)
qed

text \<open>
  A key that reads like a series and is not it: the line's \<open>duplicates\<close> are the
  registry's re-deliveries alone, the series adds those the transaction cache
  suppressed, so the two differ as soon as one transaction is redelivered.
\<close>

theorem log_duplicates_differ:
  "\<exists>fields n. (''registry stats'', fields) \<in> set (logStats (ru_parts R) m announced) \<and> (''duplicates'', LNum n) \<in> set fields \<and>
     (\<exists>x \<in> set (scrape_at R m). sm_desc x = ''teranode_bridge_registry_duplicates_total'' \<and>
        sm_value x = n + int (cst_Duplicates (gen_Stats_of (mo_txs m))))"
proof -
  define rs where "rs = registry_Stats_of (mo_seen m)"
  have "(CounterValue, RegistryDups, int (rst_Hits rs) + int (cst_Duplicates (gen_Stats_of (mo_txs m))), []) \<in>
      set (concat (item_groups (SetSources (sources_of (ru_parts R) m) (ru_rec R)) (sources_of (ru_parts R) m)))"
    by (simp add: item_groups_def sources_of_def optional_def registry_items_def rs_def)
  from emitted_sample [OF this] have "\<exists>x \<in> set (scrape_at R m). sm_desc x = ''teranode_bridge_registry_duplicates_total'' \<and>
      sm_value x = int (rst_Hits rs) + int (cst_Duplicates (gen_Stats_of (mo_txs m)))"
    by (auto simp: modernPrefix_def)
  moreover have "registry_line rs (registry_Stats_of announced) \<in> set (logStats (ru_parts R) m announced)"
    by (simp add: logStats_def rs_def)
  ultimately show ?thesis unfolding registry_line_def by fastforce
qed

text \<open>
  The last line tells the whole story.  A submitting bridge that exits with
  status 0 has logged, as its last word on submission, a queue of zero and
  outcomes that cover every transaction enqueued, up to the unattributed
  lines; one whose group returned an error exits with 1 and logs no statistics.
\<close>

theorem last_line_settled:
  assumes "main_start E w f r = Inr R" and "process_reach R L" and "bridge_stopped L"
    and "pt_pipe (ru_parts R) \<noteq> None" and "mo_pipe m = the_pipe L"
  shows "if group_err L then main_end R m announced L = (1, [])
    else fst (main_end R m announced L) = 0 \<and>
      (\<exists>s. submit_line s \<in> set (snd (main_end R m announced L)) \<and> ps_Queue s = 0 \<and>
         ps_Accepted s + ps_Rejected s + ps_Failed s \<le> ps_Enqueued s \<and>
         ps_Enqueued s \<le> ps_Accepted s + ps_Rejected s + ps_Failed s + ps_Unattributed s)"
proof (cases "group_err L")
  case False
  define s where "s = pipe_Stats_of (mo_seals m) (mo_pipe m)"
  have "lanes_inv (length (pt_lanes (ru_parts R))) L" using process_inv [OF assms(1,2)] by (simp add: life_inv_def)
  then have "\<not> lane_err L ! tx_lane_index"
    using False process_facts(1) [OF assms(1)] by (auto simp: lanes_inv_def tx_lane_index_def True_notin_iff)
  note settled = process_settled [OF assms(1-3) this]
  have "submit_line s \<in> set (logStats (ru_parts R) m announced)" using assms(4) by (auto simp: logStats_def s_def)
  then show ?thesis using settled False
    by (auto simp: main_end_def Let_def pipe_Stats_of_def s_def assms(5) intro!: exI [of _ s])
qed (simp add: main_end_def group_exit_def)

theorem last_line_settled_witness:
  "\<exists>R L m s. main_start sample_env sample_world tx_flags quiet_run = Inr R \<and> process_reach R L \<and> bridge_stopped L \<and>
     submit_line s \<in> set (snd (main_end R m undefined L)) \<and> ps_Queue s = 0"
proof -
  obtain R where R: "main_start sample_env sample_world tx_flags quiet_run = Inr R" "Builders (pipe_of (ru_parts R)) = 4"
    "process_reach R (fed_life (pipe_of (ru_parts R)))"
    by (rule tx_process)
  define c where "c = pipe_of (ru_parts R)"
  have "pipe_stopped (fed_life c)" by (simp add: fed_life_def)
  then obtain L where L: "(life_step c)\<^sup>*\<^sup>* (fed_life c) L" "bridge_stopped L" "group_err L = group_err (fed_life c)"
    using drain_to_end [OF process_inv [OF R(1,3)] process_facts [OF R(1)]] by (auto simp: c_def)
  have reach: "process_reach R L" using life_reach_run L(1) R(3) by (simp add: process_reach_def c_def)
  have ok: "\<not> group_err L" using L(3) by (simp add: fed_life_def life_init_def)
  have "pt_pipe (ru_parts R) \<noteq> None" using R(2) by (auto simp: pipe_of_def no_pipe_def split: option.splits)
  from last_line_settled [OF R(1) reach L(2) this, of "sample_moment undefined \<lparr> mo_pipe := the_pipe L \<rparr>" undefined]
  show ?thesis using R(1) reach L(2) ok by auto
qed

end
