(* ===== verification/Tnbench.thy ===== *)
theory Tnbench
  imports Txsubmit
begin

text \<open>
  The benchmark client \<open>hack/tnbench\<close>: its own copies of the CompactSize
  reader, the input walk, the txid and the display form, the two stand-ins
  for a propagation server, and the transactions the feeder emits.  The
  copies are proved equal to the code they mirror; the faithful stand-in
  accepts every batch a builder seals, and its error report is attributed
  exactly by the pipe's settlement.
\<close>

section \<open>The copies of the codec\<close>

datatype bench_error = BenchErr string | BenchPanic

text \<open>The loop \<open>x |= uint64(b[off+1+i]) << (8 * i)\<close>, and the unrolled forms for two and four bytes.\<close>

fun le_loop :: "nat \<Rightarrow> u64 \<Rightarrow> bytes \<Rightarrow> u64" where
  "le_loop i x [] = x"
| "le_loop i x (b # bs) = le_loop (Suc i) (x OR push_bit (8 * i) (ucast b)) bs"

definition bench_varInt :: "bytes \<Rightarrow> int \<Rightarrow> (bench_error, u64 \<times> nat) res" where
  "bench_varInt b off =
     (if off \<ge> int (length b) then Inl (BenchErr ''short varint'')
      else if off < 0 then Inl BenchPanic
      else let v = b ! nat off; at = (\<lambda>k. ucast (b ! (nat off + k)) :: u64) in
        if v < 0xfd then Inr (ucast v, 1)
        else if v = 0xfd then
          if off + 3 > int (length b) then Inl (BenchErr ''short varint16'')
          else Inr (at 1 OR push_bit 8 (at 2), 3)
        else if v = 0xfe then
          if off + 5 > int (length b) then Inl (BenchErr ''short varint32'')
          else Inr (at 1 OR push_bit 8 (at 2) OR push_bit 16 (at 3) OR push_bit 24 (at 4), 5)
        else
          if off + 9 > int (length b) then Inl (BenchErr ''short varint64'')
          else Inr (le_loop 0 0 (take 8 (drop (nat off + 1) b)), 9))"

fun bench_walk :: "nat \<Rightarrow> bool \<Rightarrow> bytes \<Rightarrow> int \<Rightarrow> hash list \<times> bench_error option" where
  "bench_walk 0 ef tx off = ([], None)"
| "bench_walk (Suc n) ef tx off =
     (if off + 36 > int (length tx) then ([], Some (BenchErr ''truncated input''))
      else case slice tx off (off + 32) of
        None \<Rightarrow> ([], Some BenchPanic)
      | Some h \<Rightarrow>
          (case bench_varInt tx (off + 36) of
             Inl e \<Rightarrow> ([h], Some e)
           | Inr (sLen, k) \<Rightarrow>
               let off1 = skip_script (off + 36) k sLen 4 in
               (if ef then
                  (let off2 = wrap_int (off1 + 8) in
                   if off2 > int (length tx) then ([h], Some (BenchErr ''truncated EF input''))
                   else case bench_varInt tx off2 of
                     Inl e \<Rightarrow> ([h], Some e)
                   | Inr (lLen, k2) \<Rightarrow>
                       let off3 = skip_script off2 k2 lLen 0 in
                       if off3 > int (length tx) then ([h], Some (BenchErr ''input overruns tx''))
                       else (case bench_walk n ef tx off3 of (hs, e) \<Rightarrow> (h # hs, e)))
                else
                  if off1 > int (length tx) then ([h], Some (BenchErr ''input overruns tx''))
                  else (case bench_walk n ef tx off1 of (hs, e) \<Rightarrow> (h # hs, e)))))"

definition bench_inputRefs :: "bytes \<Rightarrow> hash list \<times> bench_error option" where
  "bench_inputRefs tx =
     (if length tx < 10 then ([], Some (BenchErr ''short tx''))
      else let ef = (tx ! 4 = 0 \<and> tx ! 5 = 0 \<and> tx ! 6 = 0 \<and> tx ! 7 = 0 \<and> tx ! 8 = 0 \<and> tx ! 9 = 0xEF);
               off = (if ef then 10 else 4) in
        case bench_varInt tx off of
          Inl e \<Rightarrow> ([], Some (if e = BenchPanic then BenchPanic else BenchErr ''bad input count''))
        | Inr (inCount, n) \<Rightarrow>
            if inCount = 0 then ([], Some (BenchErr ''bad input count''))
            else bench_walk (unat inCount) ef tx (off + int n))"

definition bench_txid :: "bytes \<Rightarrow> hash" where
  "bench_txid tx = (let first = Sum256 tx in Sum256 first)"

definition displayHex :: "hash \<Rightarrow> string" where
  "displayHex h = hex_encode (map (\<lambda>i. h ! (31 - i)) [0..<32])"

definition txFrame :: "bytes \<Rightarrow> bytes" where
  "txFrame tx = tx"

section \<open>The copies agree with the code under test\<close>

lemma get_le_Cons: "get_le (b # bs) = ucast b OR push_bit 8 (get_le bs)"
proof -
  have "get_le (b # bs) = ucast b + push_bit 8 (get_le bs)"
    by (simp add: get_le_def push_bit_eq_mult)
  also have "\<dots> = ucast b OR push_bit 8 (get_le bs)"
    by (intro disjunctive_add) (auto simp: bit_simps dest: bit_imp_le_length)
  finally show ?thesis .
qed

lemma le_loop_get_le: "le_loop i x bs = x OR push_bit (8 * i) (get_le bs)"
proof (induction bs arbitrary: i x)
  case (Cons b bs)
  then show ?case by (simp add: get_le_Cons push_bit_or push_bit_push_bit or.assoc add.commute)
qed (simp add: get_le_def)

lemma get_le_two: "get_le [a, b] = ucast a OR push_bit 8 (ucast b)"
  by (simp add: get_le_Cons) (simp add: get_le_def)

lemma get_le_four:
  "get_le [a, b, c, d] = ucast a OR push_bit 8 (ucast b) OR push_bit 16 (ucast c) OR push_bit 24 (ucast d)"
  by (simp add: get_le_Cons push_bit_or push_bit_push_bit or.assoc) (simp add: get_le_def)

lemma take_after_nth:
  "n + 3 \<le> length b \<Longrightarrow> take 2 (drop (n + 1) b) = [b ! (n + 1), b ! (n + 2)]"
  "n + 5 \<le> length b \<Longrightarrow> take 4 (drop (n + 1) b) = [b ! (n + 1), b ! (n + 2), b ! (n + 3), b ! (n + 4)]"
  by (simp_all add: eval_nat_numeral take_Suc_conv_app_nth)

text \<open>Results that agree: the same value, or an error on both sides, a panic matching a panic.\<close>

definition same_result :: "(bench_error, 'a) res \<Rightarrow> (walk_error, 'a) res \<Rightarrow> bool" where
  "same_result r r' \<longleftrightarrow>
     (case r of
        Inr x \<Rightarrow> r' = Inr x
      | Inl e \<Rightarrow> \<exists>e'. r' = Inl e' \<and> (e = BenchPanic \<longleftrightarrow> e' = WalkPanic))"

definition same_error :: "bench_error option \<Rightarrow> walk_error option \<Rightarrow> bool" where
  "same_error e e' \<longleftrightarrow> (e = None \<longleftrightarrow> e' = None) \<and> (e = Some BenchPanic \<longleftrightarrow> e' = Some WalkPanic)"

lemma same_error_simps [simp]:
  "same_error None None" "same_error (Some (BenchErr s)) (Some e') \<longleftrightarrow> e' \<noteq> WalkPanic"
  "same_error (Some e) (Some e') \<longleftrightarrow> (e = BenchPanic \<longleftrightarrow> e' = WalkPanic)"
  by (simp_all add: same_error_def)

lemma bench_varInt_same: "same_result (bench_varInt b off) (varInt b off)"
proof (cases "off \<ge> int (length b) \<or> off < 0")
  case False
  define n where "n = nat off"
  have off: "off = int n" "n < length b" using False by (auto simp: n_def)
  show ?thesis
    by (auto simp: bench_varInt_def varInt_def same_result_def Let_def off take_after_nth [simplified]
        get_le_two get_le_four le_loop_get_le)
qed (auto simp: bench_varInt_def varInt_def same_result_def)

lemma bench_varInt_cases:
  obtains (val) x k where "bench_varInt b off = Inr (x, k)" "varInt b off = Inr (x, k)"
  | (err) e e' where "bench_varInt b off = Inl e" "varInt b off = Inl e'" "e = BenchPanic \<longleftrightarrow> e' = WalkPanic"
  using bench_varInt_same [of b off] by (cases "bench_varInt b off") (auto simp: same_result_def)

lemma bench_walk_same:
  "fst (bench_walk n ef tx off) = fst (walk_inputs n ef tx off) \<and>
   same_error (snd (bench_walk n ef tx off)) (snd (walk_inputs n ef tx off))"
proof (induction n arbitrary: off)
  case (Suc n)
  note rest = Suc.IH
  have IH: "fst (case bench_walk n ef tx o' of (hs, e) \<Rightarrow> (h # hs, e)) = fst (case walk_inputs n ef tx o' of (hs, e) \<Rightarrow> (h # hs, e))"
    "same_error (snd (case bench_walk n ef tx o' of (hs, e) \<Rightarrow> (h # hs, e)))
      (snd (case walk_inputs n ef tx o' of (hs, e) \<Rightarrow> (h # hs, e)))" for o' h
    using rest [of o'] by (simp_all add: case_prod_unfold)
  show ?case
  proof (cases "off + 36 > int (length tx) \<or> slice tx off (off + 32) = None")
    case True
    then show ?thesis by (auto simp: same_error_def)
  next
    case False
    then obtain h where g: "\<not> off + 36 > int (length tx)" "slice tx off (off + 32) = Some h" by auto
    show ?thesis
    proof (cases rule: bench_varInt_cases [of tx "off + 36"])
      case (err e e')
      then show ?thesis using g by (simp add: same_error_def)
    next
      case (val x k)
      define o2 where "o2 = wrap_int (skip_script (off + 36) k x 4 + 8)"
      show ?thesis
      proof (cases rule: bench_varInt_cases [of tx o2])
        case (val y k2)
        then show ?thesis using g \<open>bench_varInt tx (off + 36) = _\<close> \<open>varInt tx (off + 36) = _\<close> IH
          by (cases ef) (simp_all add: o2_def Let_def)
      next
        case (err e e')
        then show ?thesis using g val IH
          by (cases ef) (simp_all add: o2_def Let_def)
      qed
    qed
  qed
qed (simp add: same_error_def)

lemma bench_marker:
  "10 \<le> length tx \<Longrightarrow> ef_marker tx \<longleftrightarrow>
     tx ! 4 = 0 \<and> tx ! 5 = 0 \<and> tx ! 6 = 0 \<and> tx ! 7 = 0 \<and> tx ! 8 = 0 \<and> tx ! 9 = 0xEF"
  by (simp add: ef_marker_def eval_nat_numeral take_Suc_conv_app_nth)

lemma bench_inputRefs_same:
  "fst (bench_inputRefs tx) = fst (inputRefs tx) \<and> same_error (snd (bench_inputRefs tx)) (snd (inputRefs tx))"
proof (cases "length tx < 10")
  case False
  define off :: int where "off = (if ef_marker tx then 10 else 4)"
  have off: "0 \<le> off" by (simp add: off_def)
  have ge: "10 \<le> length tx" using False by simp
  have m: "bench_inputRefs tx = (case bench_varInt tx off of
          Inl e \<Rightarrow> ([], Some (if e = BenchPanic then BenchPanic else BenchErr ''bad input count''))
        | Inr (inCount, n) \<Rightarrow>
            if inCount = 0 then ([], Some (BenchErr ''bad input count''))
            else bench_walk (unat inCount) (ef_marker tx) tx (off + int n))"
    using bench_marker [of tx, symmetric, OF ge] False
    by (simp only: bench_inputRefs_def off_def Let_def if_False)
  have w: "inputRefs tx = (case varInt tx off of
          Inl e \<Rightarrow> ([], Some BadInputCount)
        | Inr (inCount, n) \<Rightarrow>
            if inCount = 0 then ([], Some BadInputCount)
            else walk_inputs (unat inCount) (ef_marker tx) tx (off + int n))"
    using False by (simp only: inputRefs_def off_def Let_def if_False)
  show ?thesis
  proof (cases rule: bench_varInt_cases [of tx off])
    case (val x k)
    then show ?thesis using bench_walk_same by (simp add: m w same_error_def)
  next
    case (err e e')
    moreover have "e' \<noteq> WalkPanic" using err(2) off by (auto simp: varInt_def Let_def split: if_splits)
    ultimately show ?thesis by (simp add: m w same_error_def)
  qed
qed (simp add: bench_inputRefs_def inputRefs_def same_error_def)

section \<open>The stand-ins for a propagation server\<close>

text \<open>The counters of the mock and its memory of accepted txids.\<close>

record mock =
  mk_batches :: u64
  mk_bytes :: u64
  mk_txs :: u64
  mk_rejected :: u64
  mk_seen :: "hash set"

definition mock_init :: mock where
  "mock_init = \<lparr> mk_batches = 0, mk_bytes = 0, mk_txs = 0, mk_rejected = 0, mk_seen = {} \<rparr>"

definition seenSet_add :: "hash \<Rightarrow> mock \<Rightarrow> mock" where
  "seenSet_add h m = m \<lparr> mk_seen := insert h (mk_seen m) \<rparr>"

definition count_request :: "bytes \<Rightarrow> mock \<Rightarrow> mock" where
  "count_request b m = m \<lparr> mk_batches := mk_batches m + 1, mk_bytes := mk_bytes m + u64_of_len b \<rparr>"

definition blind :: "bytes \<Rightarrow> mock \<Rightarrow> response \<times> mock" where
  "blind b m = (Status 200 ''OK'', count_request b m)"

definition missing_line :: "hash \<Rightarrow> string" where
  "missing_line h = ''[ProcessTransaction]['' @ displayHex h @ ''] missing parent''"

text \<open>
  One member of the body: its parents among the members before it decide
  between an error line and an accepted transaction.
\<close>

definition strict_member :: "hash \<Rightarrow> hash list \<Rightarrow> hash set \<Rightarrow> string list \<Rightarrow> mock \<Rightarrow> hash set \<times> string list \<times> mock" where
  "strict_member h refs inBatch bad m =
     (if list_ex (\<lambda>r. r \<in> inBatch) refs
      then (insert h inBatch, bad @ [missing_line h], m \<lparr> mk_rejected := mk_rejected m + 1 \<rparr>)
      else (insert h inBatch, bad, (seenSet_add h m) \<lparr> mk_txs := mk_txs m + 1 \<rparr>))"

text \<open>
  The loop over the body, given the part not yet read.  It ends with the
  error lines, with a bad body, or in a panic, which the server turns into
  a dropped connection.  The codec is a parameter and so might not advance;
  the fuel bounds the loop by the bytes of the body.
\<close>

datatype strict_end = Walked "string list" | BadBody | Panicked | Unfinished

fun strict_loop :: "objfmt \<Rightarrow> nat \<Rightarrow> bytes \<Rightarrow> hash set \<Rightarrow> string list \<Rightarrow> mock \<Rightarrow> strict_end \<times> mock" where
  "strict_loop F 0 rest inBatch bad m = (if rest = [] then (Walked bad, m) else (Unfinished, m))"
| "strict_loop F (Suc fuel) rest inBatch bad m =
     (if rest = [] then (Walked bad, m)
      else case TxSize F rest of
        None \<Rightarrow> (BadBody, m)
      | Some n \<Rightarrow>
          if n > length rest then (Panicked, m)
          else let tx = take n rest in
            case TxID F tx of
              None \<Rightarrow> (BadBody, m)
            | Some h \<Rightarrow>
                (case bench_inputRefs tx of (refs, e) \<Rightarrow>
                 if e = Some BenchPanic then (Panicked, m)
                 else (case strict_member h refs inBatch bad m of (inBatch, bad, m) \<Rightarrow>
                   strict_loop F fuel (drop n rest) inBatch bad m)))"

fun join_lines :: "string list \<Rightarrow> string" where
  "join_lines [] = []"
| "join_lines [l] = l"
| "join_lines (l # ls) = l @ [CHR 0x0A] @ join_lines ls"

definition report_head :: string where
  "report_head = ''Failed to process transactions:''"

definition report_of :: "string list \<Rightarrow> string" where
  "report_of bad = report_head @ [CHR 0x0A] @ join_lines bad @ [CHR 0x0A]"

text \<open>\<open>errText\<close> is the text of the codec's error, which the mock quotes in its answer.\<close>

definition strict :: "objfmt \<Rightarrow> (bytes \<Rightarrow> string) \<Rightarrow> bytes \<Rightarrow> mock \<Rightarrow> response option \<times> mock" where
  "strict F errText b m =
     (case strict_loop F (length b) b {} [] (count_request b m) of (r, m) \<Rightarrow>
      (case r of
         Walked bad \<Rightarrow>
           (if bad \<noteq> [] then Some (Status 500 (report_of bad)) else Some (Status 200 ''OK''), m)
       | BadBody \<Rightarrow> (Some (Status 400 (''Invalid request body: '' @ errText b @ [CHR 0x0A])), m)
       | Panicked \<Rightarrow> (Some TransportError, m)
       | Unfinished \<Rightarrow> (None, m)))"

definition mock_route :: "bool \<Rightarrow> objfmt \<Rightarrow> (bytes \<Rightarrow> string) \<Rightarrow> string \<Rightarrow> bytes \<Rightarrow> mock \<Rightarrow> response option \<times> mock" where
  "mock_route faithful F errText path b m =
     (if path = ''/txs'' \<or> path = ''/tx'' then
        (if faithful then strict F errText b m else (case blind b m of (r, m) \<Rightarrow> (Some r, m)))
      else if path = ''/health'' then (Some (Status 200 []), m)
      else (Some (Status 404 (''404 page not found'' @ [CHR 0x0A])), m))"

section \<open>The feeder\<close>

text \<open>Writing \<open>bs\<close> over \<open>tx\<close> from an offset, as \<open>copy\<close>, \<open>PutUint64\<close> and an indexed store do.\<close>

definition put_at :: "nat \<Rightarrow> bytes \<Rightarrow> bytes \<Rightarrow> bytes" where
  "put_at off bs tx = take off tx @ bs @ drop (off + length bs) tx"

definition feed_template :: bytes where
  "feed_template =
     (replicate 86 0)[0 := 1, 9 := 0xEF, 10 := 1, 47 := 9, 57 := 0xFF, 58 := 0xFF, 59 := 0xFF, 60 := 0xFF,
       61 := 1, 69 := 1, 70 := 0x51, 71 := 1, 72 := 1, 80 := 1, 81 := 0x51]"

record feeder =
  f_tx :: bytes
  f_ctr :: u64
  f_prev :: hash

definition feeder_init :: feeder where
  "feeder_init = \<lparr> f_tx = feed_template, f_ctr = 0, f_prev = replicate 32 0 \<rparr>"

text \<open>One pass of the inner loop: the frame written and the state after it.\<close>

definition feed_one :: "bool \<Rightarrow> byte \<Rightarrow> feeder \<Rightarrow> bytes \<times> feeder" where
  "feed_one chain cid s =
     (let ctr = f_ctr s + 1;
          tx = (if chain \<and> ctr > 1 then put_at 11 (f_prev s) (f_tx s)
                else put_at 19 [cid] (put_at 11 (put_le 8 ctr) (f_tx s)));
          tx = put_at 56 [cid] (put_at 48 (put_le 8 ctr) tx)
      in (txFrame tx, \<lparr> f_tx = tx, f_ctr = ctr, f_prev = (if chain then bench_txid tx else f_prev s) \<rparr>))"

fun feed_run :: "bool \<Rightarrow> byte \<Rightarrow> nat \<Rightarrow> feeder \<Rightarrow> bytes list \<times> feeder" where
  "feed_run chain cid 0 s = ([], s)"
| "feed_run chain cid (Suc n) s =
     (case feed_one chain cid s of (tx, s) \<Rightarrow>
      case feed_run chain cid n s of (txs, s) \<Rightarrow> (tx # txs, s))"

text \<open>The layout the template keeps: everything is fixed but the prevout and the script.\<close>

definition feed_input :: "hash \<Rightarrow> bytes \<Rightarrow> tx_input" where
  "feed_input h script = \<lparr> prev = h, vout = [0, 0, 0, 0], unlock = script, seqno = [0xFF, 0xFF, 0xFF, 0xFF],
     spent = [1, 0, 0, 0, 0, 0, 0, 0], lock = [0x51] \<rparr>"

definition feed_layout :: "hash \<Rightarrow> bytes \<Rightarrow> bytes" where
  "feed_layout h script =
     enc_tx True [1, 0, 0, 0] [feed_input h script] ([1] @ [1, 0, 0, 0, 0, 0, 0, 0] @ [1, 0x51] @ [0, 0, 0, 0])"

lemma feed_layout_bytes:
  assumes "length script = 9"
  shows "feed_layout h script =
    [1, 0, 0, 0, 0, 0, 0, 0, 0, 0xEF, 1] @ h @ [0, 0, 0, 0, 9] @ script @
    [0xFF, 0xFF, 0xFF, 0xFF, 1, 0, 0, 0, 0, 0, 0, 0, 1, 0x51, 1, 1, 0, 0, 0, 0, 0, 0, 0, 1, 0x51, 0, 0, 0, 0]"
  using assms by (simp add: feed_layout_def enc_tx_def enc_input_def feed_input_def u64_of_len_def AppendVarInt_def)

lemma feed_template_layout: "feed_template = feed_layout (replicate 32 0) (replicate 9 0)"
  by (simp add: feed_layout_bytes) (simp add: feed_template_def eval_nat_numeral)

lemma put_at_middle:
  assumes "off = length pre + k" and "k + length bs \<le> length mid"
  shows "put_at off bs (pre @ mid @ suf) = pre @ put_at k bs mid @ suf"
  using assms by (simp add: put_at_def)

lemma length_put_at: "k + length bs \<le> length mid \<Longrightarrow> length (put_at k bs mid) = length mid"
  by (simp add: put_at_def)

lemma feed_put_prev:
  assumes "length script = 9" and "length h = 32" and "k + length bs \<le> 32" and "off = 11 + k"
  shows "put_at off bs (feed_layout h script) = feed_layout (put_at k bs h) script"
  using assms by (simp only: feed_layout_bytes) (subst put_at_middle [where k = k], simp_all)

lemma feed_put_script:
  assumes "length script = 9" and "length h = 32" and "k + length bs \<le> 9" and "off = 48 + k"
  shows "put_at off bs (feed_layout h script) = feed_layout h (put_at k bs script)"
proof -
  define hd where "hd = [1, 0, 0, 0, 0, 0, 0, 0, 0, 0xEF, 1] @ h @ [0, 0, 0, 0, 9 :: byte]"
  have b: "feed_layout h sc = hd @ sc @ [0xFF, 0xFF, 0xFF, 0xFF, 1, 0, 0, 0, 0, 0, 0, 0, 1, 0x51, 1, 1, 0, 0, 0, 0, 0, 0, 0, 1, 0x51, 0, 0, 0, 0]"
    if "length sc = 9" for sc
    using feed_layout_bytes [OF that] by (simp add: hd_def)
  have "length hd = 48" using assms(2) by (simp add: hd_def)
  then show ?thesis using assms length_put_at [of k bs script] put_at_middle [of off hd k bs script] by (simp add: b)
qed

definition feeder_ok :: "feeder \<Rightarrow> bool" where
  "feeder_ok s \<longleftrightarrow> (\<exists>h script. f_tx s = feed_layout h script \<and> length h = 32 \<and> length script = 9) \<and>
     length (f_prev s) = 32"

lemma feeder_okI:
  "f_tx s = feed_layout h script \<Longrightarrow> length h = 32 \<Longrightarrow> length script = 9 \<Longrightarrow> length (f_prev s) = 32 \<Longrightarrow> feeder_ok s"
  by (auto simp: feeder_ok_def)

lemma feeder_init_ok: "feeder_ok feeder_init"
  unfolding feeder_ok_def feeder_init_def feeder.simps
  by (intro conjI exI) (rule feed_template_layout, simp_all)

text \<open>The input one pass spends: the previous transaction when chaining, else a made-up hash.\<close>

definition feed_spends :: "bool \<Rightarrow> byte \<Rightarrow> feeder \<Rightarrow> hash \<Rightarrow> bool" where
  "feed_spends chain cid s h \<longleftrightarrow>
     (if chain \<and> f_ctr s + 1 > 1 then h = f_prev s
      else take 9 h = put_le 8 (f_ctr s + 1) @ [cid])"

lemma feed_one_layout:
  assumes "feeder_ok s" and "feed_one chain cid s = (frame, s')"
  shows "\<exists>h. frame = feed_layout h (put_le 8 (f_ctr s + 1) @ [cid]) \<and> length h = 32 \<and> feed_spends chain cid s h \<and>
    feeder_ok s' \<and> f_ctr s' = f_ctr s + 1 \<and> f_prev s' = (if chain then bench_txid frame else f_prev s)"
proof -
  define ctr where "ctr = f_ctr s + 1"
  obtain h0 sc0 where s: "f_tx s = feed_layout h0 sc0" "length h0 = 32" "length sc0 = 9" "length (f_prev s) = 32"
    using assms(1) by (auto simp: feeder_ok_def)
  define h where "h = (if chain \<and> ctr > 1 then f_prev s else put_le 8 ctr @ [cid] @ drop 9 h0)"
  have h: "length h = 32" using s by (simp add: h_def)
  have "put_at 0 (f_prev s) h0 = f_prev s" "put_at 8 [cid] (put_at 0 (put_le 8 ctr) h0) = put_le 8 ctr @ [cid] @ drop 9 h0"
    using s by (simp_all add: put_at_def)
  then have tx: "(if chain \<and> ctr > 1 then put_at 11 (f_prev s) (f_tx s)
      else put_at 19 [cid] (put_at 11 (put_le 8 ctr) (f_tx s))) = feed_layout h sc0"
    using s by (simp add: h_def feed_put_prev [where k = 0] feed_put_prev [where k = 8] length_put_at)
  have "put_at 8 [cid] (put_at 0 (put_le 8 ctr) sc0) = put_le 8 ctr @ [cid]" using s by (simp add: put_at_def)
  then have tx2: "put_at 56 [cid] (put_at 48 (put_le 8 ctr) (feed_layout h sc0)) = feed_layout h (put_le 8 ctr @ [cid])"
    using s h by (simp add: feed_put_script [where k = 0] feed_put_script [where k = 8] length_put_at)
  have "frame = feed_layout h (put_le 8 ctr @ [cid])" "s' = \<lparr> f_tx = frame, f_ctr = ctr,
      f_prev = (if chain then bench_txid frame else f_prev s) \<rparr>"
    using assms(2) unfolding feed_one_def Let_def ctr_def [symmetric] txFrame_def tx tx2 by auto
  moreover have "feed_spends chain cid s h" by (simp add: feed_spends_def h_def ctr_def [symmetric])
  moreover have "feeder_ok s'" using calculation(1,2) h s(4)
    by (intro feeder_okI [where h = h and script = "put_le 8 ctr @ [cid]"]) (simp_all add: bench_txid_def)
  ultimately show ?thesis using h by (intro exI [of _ h]) (simp add: ctr_def)
qed

text \<open>The walk reads the one prevout of an emitted transaction.\<close>

lemma feed_layout_refs:
  assumes "length h = 32" and "length script = 9"
  shows "inputRefs (feed_layout h script) = ([h], None)"
proof -
  have "length (feed_layout h script) < 2 ^ 63" using feed_layout_bytes [OF assms(2)] assms by simp
  moreover have "wf_input (feed_input h script)" using assms(1) by (simp add: wf_input_def feed_input_def)
  ultimately show ?thesis
    using inputRefs_enc_tx [of "[1, 0, 0, 0]" "[feed_input h script]" True] unfolding feed_layout_def
    by (simp del: append_Cons append.simps) (simp add: feed_input_def)
qed

section \<open>The faithful mock on a batch of the pipe\<close>

text \<open>A member the lane admitted: the codec delimits it exactly and gives it its id, and the walk reads it.\<close>

definition job_valid :: "objfmt \<Rightarrow> job \<Rightarrow> bool" where
  "job_valid F j \<longleftrightarrow> TxSize F (raw j) = Some (length (raw j)) \<and> TxID F (raw j) = Some (jid j) \<and>
     snd (inputRefs (raw j)) \<noteq> Some WalkPanic"

text \<open>The members that spend an output of an earlier member, or of the set \<open>S\<close>.\<close>

fun late_children :: "hash set \<Rightarrow> job list \<Rightarrow> job list" where
  "late_children S [] = []"
| "late_children S (j # js) =
     (if dependsOnBatch (raw j) S then [j] else []) @ late_children (insert (jid j) S) js"


lemma late_children_free:
  "dep_free js \<Longrightarrow> (\<forall>j \<in> set js. \<not> dependsOnBatch (raw j) S) \<Longrightarrow> late_children S js = []"
proof (induction js arbitrary: S)
  case (Cons j js)
  then have "late_children (insert (jid j) S) js = []"
    by (intro Cons.IH) (auto simp: dep_free_def dependsOnBatch_iff)
  with Cons.prems show ?case by simp
qed simp


lemma late_children_length: "length (late_children S js) \<le> length js"
  by (induction js arbitrary: S) (auto intro: le_SucI)

text \<open>The loop over such a body names exactly the late children.\<close>

lemma strict_loop_jobs:
  assumes F: "tx_delimited F"
  shows "\<lbrakk>\<forall>j \<in> set js. job_valid F j; length (concat (map raw js)) \<le> fuel\<rbrakk> \<Longrightarrow>
    \<exists>m'. strict_loop F fuel (concat (map raw js)) S bad m =
      (Walked (bad @ map (\<lambda>j. missing_line (jid j)) (late_children S js)), m') \<and>
      mk_batches m' = mk_batches m \<and>
      mk_rejected m' = mk_rejected m + of_nat (length (late_children S js)) \<and>
      mk_txs m' = mk_txs m + of_nat (length js - length (late_children S js))"
proof (induction js arbitrary: fuel S bad m)
  case Nil
  then show ?case by (cases fuel) auto
next
  case (Cons j js)
  define rest where "rest = concat (map raw js)"
  have v: "TxSize F (raw j) = Some (length (raw j))" "TxID F (raw j) = Some (jid j)"
    "snd (inputRefs (raw j)) \<noteq> Some WalkPanic" using Cons.prems by (simp_all add: job_valid_def)
  have sz: "TxSize F (raw j @ rest) = Some (length (raw j))" using tx_delimited_exact [OF F v(1)] .
  have ten: "10 \<le> length (raw j)" using tx_delimitedD [OF F v(1)] by simp
  then obtain n where fuel: "fuel = Suc n" "length rest \<le> n"
    using Cons.prems(2) by (cases fuel) (auto simp: rest_def)
  obtain refs e where r: "bench_inputRefs (raw j) = (refs, e)" by fastforce
  have np: "e \<noteq> Some BenchPanic" and refs: "refs = fst (inputRefs (raw j))"
    using bench_inputRefs_same [of "raw j"] r v(3) by (auto simp: same_error_def)
  have dep: "list_ex (\<lambda>r. r \<in> S) refs \<longleftrightarrow> dependsOnBatch (raw j) S" by (simp add: refs dependsOnBatch_def)
  obtain bad1 m1 where step: "strict_member (jid j) refs S bad m = (insert (jid j) S, bad1, m1)"
    and bad1: "bad1 = bad @ map (\<lambda>j. missing_line (jid j)) (if dependsOnBatch (raw j) S then [j] else [])"
    and m1: "mk_batches m1 = mk_batches m"
      "mk_rejected m1 = mk_rejected m + (if dependsOnBatch (raw j) S then 1 else 0)"
      "mk_txs m1 = mk_txs m + (if dependsOnBatch (raw j) S then 0 else 1)"
    using that by (cases "dependsOnBatch (raw j) S") (auto simp: strict_member_def dep seenSet_add_def)
  have loop: "strict_loop F fuel (raw j @ rest) S bad m = strict_loop F n rest (insert (jid j) S) bad1 m1"
    using ten sz v(2) r np step by (simp add: fuel) (auto simp: Let_def)
  show ?case
    using Cons.IH [of n "insert (jid j) S" bad1 m1] Cons.prems(1) fuel(2) m1 bad1
      late_children_length [of "insert (jid j) S" js]
    by (auto simp: rest_def [symmetric] loop Suc_diff_le)
qed

section \<open>Reading the mock's report\<close>






lemma displayHex_Display: "displayHex h = Display h"
  by (simp add: displayHex_def Display_def)











section \<open>Properties\<close>

text \<open>
  The client's copies mirror the code under test: on every byte string and at
  every offset its CompactSize reader, written with shifts, agrees with the
  pipe's, its input walk yields the same prevouts and stops on the same
  inputs, and its display form and its hash are those of \<open>hashid\<close>.
\<close>

theorem bench_mirrors_bridge:
  "same_result (bench_varInt tx off) (varInt tx off) \<and>
   fst (bench_inputRefs tx) = fst (inputRefs tx) \<and>
   same_error (snd (bench_inputRefs tx)) (snd (inputRefs tx)) \<and>
   displayHex h = Display h \<and> bench_txid tx = DoubleSHA256 tx"
  using bench_varInt_same bench_inputRefs_same [of tx]
  by (simp add: displayHex_Display bench_txid_def DoubleSHA256_def)

lemma strict_jobs:
  assumes "tx_delimited F" and "\<forall>j \<in> set js. job_valid F j" and "late = late_children {} js"
  shows "\<exists>m'. strict F errText (concat (map raw js)) m =
      (Some (if late = [] then Status 200 ''OK''
             else Status 500 (report_of (map (\<lambda>j. missing_line (jid j)) late))), m') \<and>
      mk_batches m' = mk_batches m + 1 \<and> mk_rejected m' = mk_rejected m + of_nat (length late) \<and>
      mk_txs m' = mk_txs m + of_nat (length js - length late)"
  using strict_loop_jobs [OF assms(1,2) le_refl, of "{}" "[]" "count_request (concat (map raw js)) m"] assms(3)
  by (auto simp: strict_def count_request_def)

text \<open>
  C26: The faithful stand-in accepts every batch a builder seals: with any runs and
  any timer, a sealed batch whose members the codec delimits is answered 200,
  every member counted and none rejected.
\<close>

theorem mock_accepts_sealed:
  assumes "tx_delimited F"
    and "(r, b) \<in> set (sealed (run_wakes (pipe_defaults c0) ws builder_init))"
    and "\<forall>j \<in> set (jobs b). job_valid F j"
  shows "fst (strict F errText (body b) m) = Some (Status 200 ''OK'') \<and>
    mk_txs (snd (strict F errText (body b) m)) = mk_txs m + of_nat (length (jobs b)) \<and>
    mk_rejected (snd (strict F errText (body b) m)) = mk_rejected m"
proof -
  have "builder_ok (pipe_defaults c0) (run_wakes (pipe_defaults c0) ws builder_init)"
    using run_wakes_ok [OF config_ok_defaults builder_init_ok [OF config_ok_defaults]] by blast
  then have "sealed_batch (pipe_defaults c0) b" using assms(2) by (force simp: builder_ok_def)
  then have b: "body b = concat (map raw (jobs b))" "dep_free (jobs b)"
    by (simp_all add: sealed_batch_def batch_linked_def)
  have "late_children {} (jobs b) = []" using late_children_free [OF b(2), of "{}"] by simp
  then show ?thesis using strict_jobs [OF assms(1,3) refl, of errText m] by (auto simp: b(1))
qed

text \<open>A concrete codec for the feeder's 86-byte transactions, whose id is a field of the transaction.\<close>

definition bench_objfmt :: objfmt where
  "bench_objfmt = sample_objfmt \<lparr>
     TxSize := (\<lambda>b. if 86 \<le> length b then Some 86 else None),
     TxID := (\<lambda>b. if 80 \<le> length b then Some (take 32 (drop 48 b)) else None) \<rparr>"

lemma bench_objfmt_ok: "tx_delimited bench_objfmt" "txid_wf bench_objfmt"
  by (auto simp: tx_delimited_def txid_wf_def bench_objfmt_def split: if_splits)

definition bench_job :: "hash \<Rightarrow> byte \<Rightarrow> job" where
  "bench_job h x = (let tx = feed_layout h (replicate 9 x) in \<lparr> raw = tx, jid = take 32 (drop 48 tx) \<rparr>)"

lemma bench_job_fields:
  assumes "length h = 32"
  shows "length (raw (bench_job h x)) = 86" "wf_hash (jid (bench_job h x))"
    "inputRefs (raw (bench_job h x)) = ([h], None)" "job_valid bench_objfmt (bench_job h x)"
proof -
  show l: "length (raw (bench_job h x)) = 86" "wf_hash (jid (bench_job h x))"
    and i: "inputRefs (raw (bench_job h x)) = ([h], None)"
    using assms feed_layout_bytes [of "replicate 9 x" h] feed_layout_refs [of h "replicate 9 x"]
    by (simp_all add: bench_job_def Let_def)
  show "job_valid bench_objfmt (bench_job h x)"
    using l i by (simp add: job_valid_def bench_objfmt_def) (simp add: bench_job_def Let_def)
qed

theorem mock_accepts_sealed_witness:
  "\<exists>b. (SealLinger, b) \<in> set (sealed (run_wakes (pipe_defaults sample_config)
       [Runs 0 [[bench_job (replicate 32 7) 1]], LingerFires (10 * second)] builder_init)) \<and>
     fst (strict bench_objfmt (\<lambda>_. []) (body b) mock_init) = Some (Status 200 ''OK'')"
proof -
  define j where "j = bench_job (replicate 32 7) 1"
  define b where "b = push_job j (newBatch \<lparr> born := 0 \<rparr>)"
  have j: "job_valid bench_objfmt j" "length (raw j) = 86"
    using bench_job_fields [of "replicate 32 7" 1] by (simp_all add: j_def)
  have c: "BatchTxs (pipe_defaults sample_config) > 1" "BatchBytes (pipe_defaults sample_config) > 86"
    "Linger (pipe_defaults sample_config) \<le> 10 * second"
    by (simp_all add: pipe_defaults_def sample_config_def or_default_def maxServerBatchTxs_def)
  have "sealed (run_wakes (pipe_defaults sample_config) [Runs 0 [[j]], LingerFires (10 * second)] builder_init)
      = [(SealLinger, b)]"
    using c j(2) by (simp add: run_wakes_def builder_step_def addRun_def add_job_def builder_init_def seal_def
        newBatch_def push_job_def b_def)
  moreover have "jobs b = [j]" by (simp add: b_def push_job_def newBatch_def)
  ultimately show ?thesis
    using mock_accepts_sealed [OF bench_objfmt_ok(1), of SealLinger b sample_config
        "[Runs 0 [[j]], LingerFires (10 * second)]" "\<lambda>_. []" mock_init] j(1)
    by (auto simp: j_def [symmetric])
qed



text \<open>
  The identifier of an extended-format transaction is that of its standard
  form, which the txid hashes.
\<close>

definition txid_standard :: "objfmt \<Rightarrow> bool" where
  "txid_standard F \<longleftrightarrow>
     (\<forall>tx s. IsEF F tx \<longrightarrow> ToStandard F tx = Some s \<longrightarrow> TxID F tx = Some (DoubleSHA256 s))"

lemma feed_run_spends:
  "feeder_ok s \<Longrightarrow> feed_run True cid n s = (txs, s') \<Longrightarrow> unat (f_ctr s) + n < 2 ^ 64 \<Longrightarrow> Suc i < n \<Longrightarrow>
   \<exists>script. length script = 9 \<and> txs ! Suc i = feed_layout (bench_txid (txs ! i)) script"
proof (induction n arbitrary: s txs s' i)
  case (Suc n)
  obtain tx s1 where one: "feed_one True cid s = (tx, s1)" by fastforce
  obtain txs1 s2 where run: "feed_run True cid n s1 = (txs1, s2)" by fastforce
  have txs: "txs = tx # txs1" using Suc.prems(2) one run by simp
  have s1: "feeder_ok s1" "f_ctr s1 = f_ctr s + 1" "f_prev s1 = bench_txid tx"
    using feed_one_layout [OF Suc.prems(1) one] by auto
  have u: "unat (f_ctr s1) = Suc (unat (f_ctr s))"
    using Suc.prems(3) s1(2) unat_word_ariths(1) [of "f_ctr s" 1] by simp
  show ?case
  proof (cases i)
    case 0
    then obtain k where k: "n = Suc k" using Suc.prems(4) by (cases n) auto
    obtain tx2 s3 where two: "feed_one True cid s1 = (tx2, s3)" by fastforce
    have "unat (f_ctr s1 + 1) = Suc (Suc (unat (f_ctr s)))"
      using Suc.prems(3) u k unat_word_ariths(1) [of "f_ctr s1" 1] by simp
    then have gt: "f_ctr s1 + 1 > 1" by (simp add: word_less_nat_alt)
    from feed_one_layout [OF s1(1) two] obtain h where
      "tx2 = feed_layout h (put_le 8 (f_ctr s1 + 1) @ [cid])" "feed_spends True cid s1 h" by auto
    moreover have "h = bench_txid tx" using calculation(2) gt s1(3) by (simp add: feed_spends_def)
    moreover have "txs1 ! 0 = tx2" using run two k by (auto split: prod.splits)
    ultimately show ?thesis using 0
      by (intro exI [of _ "put_le 8 (f_ctr s1 + 1) @ [cid]"]) (simp add: txs)
  next
    case (Suc i')
    then have "\<exists>script. length script = 9 \<and> txs1 ! Suc i' = feed_layout (bench_txid (txs1 ! i')) script"
      using \<open>Suc i < Suc n\<close> \<open>unat (f_ctr s) + Suc n < 2 ^ 64\<close> u by (intro Suc.IH [OF s1(1) run]) auto
    then show ?thesis by (simp add: txs \<open>i = Suc i'\<close>)
  qed
qed simp

text \<open>
  Chain mode does not chain.  Each transaction after the first spends the
  double hash of the previous one's extended-format bytes, while that
  transaction's id, on the wire and in the cluster, is the double hash of its
  standard form: the dependency test sees a parent in the next transaction
  only if the two hashes collide.
\<close>

theorem feed_chain_unlinked:
  assumes "txid_standard F" and "feed_run True cid n feeder_init = (txs, s')" and "n < 2 ^ 64" and "Suc i < n"
    and "IsEF F (txs ! i)" and "ToStandard F (txs ! i) = Some std" and "TxID F (txs ! i) = Some txid"
  shows "dependsOnBatch (txs ! Suc i) {txid} \<longleftrightarrow> DoubleSHA256 (txs ! i) = DoubleSHA256 std"
proof -
  have id: "txid = DoubleSHA256 std" using assms(1,5,6,7) by (simp add: txid_standard_def)
  obtain script where l: "length script = 9" "txs ! Suc i = feed_layout (bench_txid (txs ! i)) script"
    using feed_run_spends [OF feeder_init_ok assms(2) _ assms(4)] assms(3) by (auto simp: feeder_init_def)
  have "bench_txid (txs ! i) = DoubleSHA256 (txs ! i)" by (simp add: bench_txid_def DoubleSHA256_def)
  then show ?thesis using feed_layout_refs [OF _ l(1), of "DoubleSHA256 (txs ! i)"] l(2)
    by (auto simp: dependsOnBatch_iff id)
qed

text \<open>A codec with the documented identifier.\<close>

definition ef_objfmt :: objfmt where
  "ef_objfmt = sample_objfmt \<lparr> TxID := (\<lambda>b. if IsEF sample_objfmt b
     then map_option DoubleSHA256 (ToStandard sample_objfmt b) else Some (DoubleSHA256 b)) \<rparr>"

theorem feed_chain_unlinked_witness:
  "let txs = fst (feed_run True 3 2 feeder_init); std = take 4 (txs ! 0) @ drop 10 (txs ! 0) in
   dependsOnBatch (txs ! 1) {DoubleSHA256 std} \<longleftrightarrow> DoubleSHA256 (txs ! 0) = DoubleSHA256 std"
proof -
  obtain txs s' where run: "feed_run True 3 2 feeder_init = (txs, s')" by fastforce
  obtain tx s1 where one: "feed_one True 3 feeder_init = (tx, s1)" by fastforce
  have tx: "txs ! 0 = tx" using run one by (auto simp: numeral_2_eq_2 split: prod.splits)
  obtain h where h: "tx = feed_layout h (put_le 8 1 @ [3])"
    using feed_one_layout [OF feeder_init_ok one] by (auto simp: feeder_init_def)
  have ef: "take 6 (drop 4 tx) = [0, 0, 0, 0, 0, 0xEF]"
    unfolding h by (subst feed_layout_bytes) simp_all
  have "txid_standard ef_objfmt" by (simp add: txid_standard_def ef_objfmt_def sample_objfmt_def)
  then show ?thesis
    using feed_chain_unlinked [OF _ run, of ef_objfmt 0 "take 4 tx @ drop 10 tx" "DoubleSHA256 (take 4 tx @ drop 10 tx)"]
      ef tx by (simp add: run ef_objfmt_def sample_objfmt_def)
qed

end
