(* ===== verification/Feed.thy ===== *)
theory Feed
  imports Tnbench
begin

text \<open>
  The feeder of the benchmark client as a whole: the connections, their rounds
  of 4096 transactions, the write and flush errors, and the count it prints.
  The lemmas show when the transactions of a run are pairwise different and
  what the printed count says.
\<close>

section \<open>One connection\<close>

text \<open>
  What happens to one connection: whether it is dialled, which writes and
  flushes succeed, and at how many rounds the clock still reads before the
  end.  The number of rounds bounds the loop.
\<close>

record feed_env =
  fe_dial :: bool
  fe_write :: "nat \<Rightarrow> bool"
  fe_flush :: "nat \<Rightarrow> bool"
  fe_rounds :: nat

definition feed_round :: nat where
  "feed_round = 4096"

text \<open>The inner loop, \<open>k\<close> writes having been made before: whether it ended, and the frames handed to the writer.\<close>

fun feed_writes :: "bool \<Rightarrow> byte \<Rightarrow> (nat \<Rightarrow> bool) \<Rightarrow> nat \<Rightarrow> nat \<Rightarrow> feeder \<Rightarrow> bool \<times> bytes list \<times> feeder" where
  "feed_writes chain cid wr k 0 s = (True, [], s)"
| "feed_writes chain cid wr k (Suc n) s =
     (case feed_one chain cid s of (tx, s) \<Rightarrow>
        if \<not> wr k then (False, [], s)
        else case feed_writes chain cid wr (Suc k) n s of (ok, txs, s) \<Rightarrow> (ok, tx # txs, s))"

text \<open>The outer loop: the frames and what the connection added to \<open>sent\<close>.\<close>

fun feed_rounds :: "bool \<Rightarrow> byte \<Rightarrow> feed_env \<Rightarrow> nat \<Rightarrow> nat \<Rightarrow> feeder \<Rightarrow> bytes list \<times> nat" where
  "feed_rounds chain cid E r 0 s = ([], 0)"
| "feed_rounds chain cid E r (Suc n) s =
     (case feed_writes chain cid (fe_write E) (r * feed_round) feed_round s of (ok, txs, s) \<Rightarrow>
        if \<not> ok then (txs, 0)
        else if \<not> fe_flush E r then (txs, feed_round)
        else case feed_rounds chain cid E (Suc r) n s of (txs', sent) \<Rightarrow> (txs @ txs', feed_round + sent))"

definition feed_conn :: "bool \<Rightarrow> (nat \<Rightarrow> feed_env) \<Rightarrow> nat \<Rightarrow> bytes list \<times> nat" where
  "feed_conn chain Es c =
     (if \<not> fe_dial (Es c) then ([], 0) else feed_rounds chain (of_nat c) (Es c) 0 (fe_rounds (Es c)) feeder_init)"

text \<open>The command: the frames of all connections, and the number printed at the end.\<close>

definition feed :: "bool \<Rightarrow> (nat \<Rightarrow> feed_env) \<Rightarrow> nat \<Rightarrow> bytes list \<times> u64" where
  "feed chain Es conns =
     (concat (map (\<lambda>c. fst (feed_conn chain Es c)) [0..<conns]),
      of_nat (sum_list (map (\<lambda>c. snd (feed_conn chain Es c)) [0..<conns])))"

section \<open>The scripts of a connection\<close>

definition script_of :: "bytes \<Rightarrow> bytes" where
  "script_of tx = take 9 (drop 48 tx)"

definition feed_script :: "byte \<Rightarrow> nat \<Rightarrow> bytes" where
  "feed_script cid i = put_le 8 (of_nat (Suc i) :: u64) @ [cid]"

lemma script_of_layout: "length h = 32 \<Longrightarrow> length script = 9 \<Longrightarrow> script_of (feed_layout h script) = script"
  by (simp add: script_of_def feed_layout_bytes)

lemma feed_writes_scripts:
  assumes "feeder_ok s" and "f_ctr s = of_nat a" and "feed_writes chain cid wr k n s = (ok, txs, s')"
  shows "feeder_ok s' \<and> map script_of txs = map (feed_script cid) [a..<a + length txs] \<and> length txs \<le> n \<and>
    (ok \<longrightarrow> length txs = n \<and> f_ctr s' = of_nat (a + n)) \<and> (\<not> ok \<longrightarrow> length txs < n)"
  using assms
proof (induction n arbitrary: s a k ok txs s')
  case (Suc n)
  obtain tx s1 where one: "feed_one chain cid s = (tx, s1)" by fastforce
  obtain h where h: "tx = feed_layout h (put_le 8 (f_ctr s + 1) @ [cid])" "length h = 32" "feeder_ok s1" "f_ctr s1 = f_ctr s + 1"
    using feed_one_layout [OF Suc.prems(1) one] by blast
  have sc: "script_of tx = feed_script cid a"
    using h Suc.prems(2) by (simp add: script_of_layout feed_script_def add.commute)
  show ?case
  proof (cases "wr k")
    case False
    then show ?thesis using Suc.prems(3) one h by auto
  next
    case True
    obtain ok1 txs1 s2 where run: "feed_writes chain cid wr (Suc k) n s1 = (ok1, txs1, s2)" by (metis prod_cases3)
    have r: "ok = ok1" "txs = tx # txs1" "s' = s2" using Suc.prems(3) one True run by auto
    have "f_ctr s1 = of_nat (Suc a)" using h Suc.prems(2) by simp
    from Suc.IH [OF h(3) this run] show ?thesis using sc
      by (auto simp: r upt_rec [of a])
  qed
qed simp

lemma map_upt_glue: "map f [a..<a + n] @ map f [a + n..<a + (n + m)] = map f [a..<a + (n + m)]"
  using upt_add_eq_append [of a "a + n" m] by (simp add: add.assoc flip: map_append)

lemma feed_rounds_scripts:
  assumes "feeder_ok s" and "f_ctr s = of_nat a" and "feed_rounds chain cid E r n s = (txs, sent)"
  shows "map script_of txs = map (feed_script cid) [a..<a + length txs] \<and>
    sent \<le> length txs \<and> length txs < sent + feed_round \<and> length txs \<le> n * feed_round"
  using assms
proof (induction n arbitrary: s a r txs sent)
  case (Suc n)
  obtain ok txs1 s1 where w: "feed_writes chain cid (fe_write E) (r * feed_round) feed_round s = (ok, txs1, s1)"
    by (metis prod_cases3)
  note one = feed_writes_scripts [OF Suc.prems(1,2) w]
  obtain txs2 sent2 where rest: "feed_rounds chain cid E (Suc r) n s1 = (txs2, sent2)" by fastforce
  show ?case
  proof (cases "ok \<and> fe_flush E r")
    case True
    then have "f_ctr s1 = of_nat (a + feed_round)" "feeder_ok s1" using one by auto
    from Suc.IH [OF this(2,1) rest] show ?thesis
      using Suc.prems(3) w rest True one
      by (auto simp: map_upt_glue add.assoc)
  next
    case False
    then show ?thesis using Suc.prems(3) w one by (auto simp: feed_round_def split: if_splits)
  qed
qed (simp add: feed_round_def)

lemma feed_conn_scripts:
  "map script_of (fst (feed_conn chain Es c)) = map (feed_script (of_nat c)) [0..<length (fst (feed_conn chain Es c))]"
  "snd (feed_conn chain Es c) \<le> length (fst (feed_conn chain Es c))"
  "length (fst (feed_conn chain Es c)) < snd (feed_conn chain Es c) + feed_round"
  "length (fst (feed_conn chain Es c)) \<le> fe_rounds (Es c) * feed_round"
  using feed_rounds_scripts [OF feeder_init_ok, of 0 chain "of_nat c" "Es c" 0 "fe_rounds (Es c)"]
  by (cases "feed_rounds chain (of_nat c) (Es c) 0 (fe_rounds (Es c)) feeder_init";
      simp add: feed_conn_def feeder_init_def feed_round_def)+

lemma feed_script_inject:
  assumes "feed_script x i = feed_script y j" and "Suc i < 2 ^ 64" and "Suc j < 2 ^ 64"
  shows "x = y \<and> i = j"
proof -
  have "put_le 8 (of_nat (Suc i) :: u64) = put_le 8 (of_nat (Suc j))" "x = y"
    using assms(1) by (simp_all add: feed_script_def)
  moreover have "get_le (put_le 8 w) = w" for w :: u64 using unsigned_less [of w] by (intro get_put_le) simp
  ultimately have "(of_nat (Suc i) :: u64) = of_nat (Suc j)" by metis
  then have "Suc i = Suc j" using assms(2,3) by (simp only: word_of_nat_eq_iff take_bit_eq_mod) simp
  then show ?thesis using \<open>x = y\<close> by simp
qed

lemma distinct_connection:
  assumes "length (fst (feed_conn chain Es c)) < 2 ^ 64"
  shows "distinct (fst (feed_conn chain Es c))"
proof -
  have "inj_on (feed_script (of_nat c)) {0..<length (fst (feed_conn chain Es c))}"
    using assms feed_script_inject by (intro inj_onI) auto
  then have "distinct (map script_of (fst (feed_conn chain Es c)))"
    unfolding feed_conn_scripts(1) by (simp add: distinct_map)
  then show ?thesis by (rule distinct_map [THEN iffD1, THEN conjunct1])
qed

lemma frame_script:
  assumes "tx \<in> set (fst (feed_conn chain Es c))"
  shows "\<exists>i < length (fst (feed_conn chain Es c)). script_of tx = feed_script (of_nat c) i"
proof -
  have "script_of tx \<in> set (map script_of (fst (feed_conn chain Es c)))" using assms by simp
  then show ?thesis unfolding feed_conn_scripts(1) by auto
qed

lemma disjoint_connections:
  assumes "length (fst (feed_conn chain Es c)) < 2 ^ 64" and "length (fst (feed_conn chain Es d)) < 2 ^ 64"
    and "c < 256" and "d < 256" and "c \<noteq> d"
  shows "set (fst (feed_conn chain Es c)) \<inter> set (fst (feed_conn chain Es d)) = {}"
proof -
  have "(of_nat c :: byte) \<noteq> of_nat d"
    using assms(3-5) by (simp add: word_of_nat_eq_iff take_bit_eq_mod)
  then have "feed_script (of_nat c) i \<noteq> feed_script (of_nat d) j"
    if "i < length (fst (feed_conn chain Es c))" "j < length (fst (feed_conn chain Es d))" for i j
    using feed_script_inject [of "of_nat c" i "of_nat d" j] that assms(1,2) by auto
  then show ?thesis using frame_script [of _ chain Es c] frame_script [of _ chain Es d] by (metis disjoint_iff)
qed

section \<open>Properties\<close>

text \<open>
  The rig feeds distinct transactions: with at most 256 connections, in both
  modes and however dials, writes and flushes fail, no two transactions of a
  run are equal, so none is suppressed as a re-delivery; and the count of
  each connection falls short of the transactions it wrote by less than one
  round.
\<close>

theorem feed_unique:
  assumes "conns \<le> 256" and "\<forall>c < conns. fe_rounds (Es c) < 2 ^ 52"
  shows "distinct (fst (feed chain Es conns)) \<and>
    (\<forall>c < conns. snd (feed_conn chain Es c) \<le> length (fst (feed_conn chain Es c)) \<and>
       length (fst (feed_conn chain Es c)) < snd (feed_conn chain Es c) + 4096)"
proof -
  have len: "length (fst (feed_conn chain Es c)) < 2 ^ 64" if "c < conns" for c
    using feed_conn_scripts(4) [of chain Es c] assms(2) that by (fastforce simp: feed_round_def)
  have "n \<le> conns \<Longrightarrow> distinct (concat (map (\<lambda>c. fst (feed_conn chain Es c)) [0..<n]))" for n
  proof (induction n)
    case (Suc n)
    then have "set (fst (feed_conn chain Es c)) \<inter> set (fst (feed_conn chain Es n)) = {}" if "c < n" for c
      using that assms(1) len by (intro disjoint_connections) auto
    then show ?case using Suc distinct_connection [OF len, of n] by (auto simp: disjoint_iff)
  qed simp
  then show ?thesis using feed_conn_scripts(2,3) by (simp add: feed_def feed_round_def)
qed

definition healthy_conn :: feed_env where
  "healthy_conn = \<lparr> fe_dial = True, fe_write = (\<lambda>_. True), fe_flush = (\<lambda>_. True), fe_rounds = 1 \<rparr>"

theorem feed_unique_witness:
  "distinct (fst (feed True (\<lambda>_. healthy_conn) 2)) \<and> distinct (fst (feed False (\<lambda>_. healthy_conn) 256))"
  using feed_unique [of 2 "\<lambda>_. healthy_conn" True] feed_unique [of 256 "\<lambda>_. healthy_conn" False]
  by (simp add: healthy_conn_def)

lemma healthy_writes: "\<exists>txs s'. feed_writes chain cid (\<lambda>_. True) k (Suc n) s = (True, txs, s') \<and> txs \<noteq> []"
proof (induction n arbitrary: k s)
  case (Suc n)
  obtain tx s1 where "feed_one chain cid s = (tx, s1)" by fastforce
  then show ?case using Suc.IH [of "Suc k" s1] by auto
qed (simp split: prod.splits)

text \<open>
  The connection's number is cut to a byte, so from the 257th connection on
  the rig repeats itself: that connection writes the very transactions of the
  first one.
\<close>

theorem feed_repeats: "\<not> distinct (fst (feed chain (\<lambda>_. healthy_conn) 257))"
proof -
  define f where "f = (\<lambda>c. fst (feed_conn chain (\<lambda>_. healthy_conn) c))"
  have "(of_nat 256 :: byte) = of_nat 0" by code_simp
  then have eq: "f 256 = f 0" by (simp only: f_def feed_conn_def)
  obtain txs s' where "feed_writes chain 0 (\<lambda>_. True) 0 feed_round feeder_init = (True, txs, s')" "txs \<noteq> []"
    using healthy_writes [of chain 0 0 4095 feeder_init] by (auto simp: feed_round_def)
  then have "f 0 \<noteq> []" by (simp add: f_def feed_conn_def healthy_conn_def)
  moreover have "[0..<257::nat] = 0 # [1..<256] @ [256]" using upt_Suc [of 1 256] by (simp add: upt_rec [of 0])
  ultimately show ?thesis using eq unfolding feed_def f_def [symmetric] by (auto simp: neq_Nil_conv)
qed

end
