(* ===== verification/Pool.thy ===== *)
theory Pool
  imports Pipeline
begin

text \<open>
  The pipe as it runs on recycled memory.  The value model of the running pipe
  passes job lists and batches around; the code passes slices and pointers,
  takes them from a \<open>sync.Pool\<close> and puts them back when it believes nobody
  refers to them any more.  Here runs and batches are addresses of two stores,
  appended to in place, and the body of a batch is a buffer over an array of
  bytes: a write that fits the capacity is made in place, another moves the
  content to a new array.  The lemmas show that no address has two owners, so
  that the recycling pipe refines the value model step by step, that no array
  of a submission under way is written to, and what can happen to an array that
  the HTTP transport still reads after the submission has settled.
\<close>

section \<open>Stores with a pool\<close>

type_synonym addr = nat

record 'v store =
  at :: "addr \<Rightarrow> 'v"
  free :: "addr list"

text \<open>
  \<open>Get\<close>, with the allocation that follows when it gives nothing: which object
  is returned, and whether a new one is, is the pool's choice.
\<close>

definition pool_get :: "'v \<Rightarrow> addr \<Rightarrow> 'v store \<Rightarrow> 'v store" where
  "pool_get blank a H =
     (if a \<in> set (free H) then H \<lparr> free := remove1 a (free H) \<rparr> else H \<lparr> at := (at H)(a := blank) \<rparr>)"

definition pool_put :: "addr \<Rightarrow> 'v \<Rightarrow> 'v store \<Rightarrow> 'v store" where
  "pool_put a v H = H \<lparr> at := (at H)(a := v), free := a # free H \<rparr>"

definition mutate :: "addr \<Rightarrow> ('v \<Rightarrow> 'v) \<Rightarrow> 'v store \<Rightarrow> 'v store" where
  "mutate a f H = H \<lparr> at := (at H)(a := f (at H a)) \<rparr>"

section \<open>Byte buffers\<close>

text \<open>
  \<open>bytes.Buffer\<close>, as far as the pipe uses it: nothing is ever read from it, so
  its content starts at the front of its array.  How far an allocation is
  rounded up is the runtime's choice, a parameter of the model.
\<close>

record buffer =
  barr :: nat
  bcap :: nat

definition write_at :: "nat \<Rightarrow> bytes \<Rightarrow> bytes \<Rightarrow> bytes" where
  "write_at n bs m = take n m @ bs @ drop (n + length bs) m"

text \<open>The capacity \<open>Grow\<close> gives an empty buffer, and the one a write that does not fit gives.\<close>

definition grow_empty :: "(nat \<Rightarrow> nat) \<Rightarrow> nat \<Rightarrow> nat" where
  "grow_empty rnd n = (if n \<le> 64 then 64 else rnd n)"

definition grow_cap :: "(nat \<Rightarrow> nat) \<Rightarrow> nat \<Rightarrow> nat \<Rightarrow> nat" where
  "grow_cap rnd len cap = rnd (max len (2 * cap))"

definition fresh_cap :: "pipe_Config \<Rightarrow> (nat \<Rightarrow> nat) \<Rightarrow> nat" where
  "fresh_cap c rnd = grow_empty rnd (nat (min (BatchBytes c) (BatchTxs c * bodyHintPerTx)))"

section \<open>The pipe over the stores\<close>

record pbuilder =
  pcur :: addr
  ptimer :: "time option"
  psealed :: "(seal_reason \<times> addr) list"

text \<open>
  \<open>opened\<close> are the runs lane sessions are filling; a builder's current run is
  its address with the number of jobs already added.  \<open>bufs\<close> is the body of
  each batch, \<open>mem\<close> the content of the arrays and \<open>anext\<close> the next unused one.
  \<open>reading\<close> are the requests of submissions under way whose body the HTTP
  transport still reads: the batch, the array and the bytes the request was made
  with; \<open>late\<close> are those it still reads although the submission has settled.
  Runs kept for a retry are copies and need no address.
\<close>

record ppipe =
  runs :: "job list store"
  rcap :: "addr \<Rightarrow> nat"
  bats :: "batch store"
  bufs :: "addr \<Rightarrow> buffer"
  mem :: "nat \<Rightarrow> bytes"
  anext :: nat
  opened :: "addr list"
  pqueues :: "addr list list"
  psenders :: "nat list"
  pqueued :: int
  pbuilders :: "pbuilder list"
  ptodo :: "(addr \<times> nat) option list"
  plive :: "bool list"
  pinflight :: "addr list"
  pretrying :: "job list list"
  pstats :: counters
  reading :: "(addr \<times> nat \<times> bytes) list"
  late :: "(nat \<times> bytes) list"

definition pool_init :: "pipe_Config \<Rightarrow> (nat \<Rightarrow> nat) \<Rightarrow> ppipe" where
  "pool_init c rnd =
     (let n = nat (Builders c) in
      \<lparr> runs = \<lparr> at = (\<lambda>_. []), free = [] \<rparr>, rcap = (\<lambda>_. 0), bats = \<lparr> at = (\<lambda>_. newBatch), free = [] \<rparr>,
        bufs = (\<lambda>a. \<lparr> barr = a, bcap = fresh_cap c rnd \<rparr>), mem = (\<lambda>_. replicate (fresh_cap c rnd) 0), anext = n, opened = [],
        pqueues = replicate n [], psenders = [], pqueued = 0,
        pbuilders = map (\<lambda>i. \<lparr> pcur = i, ptimer = None, psealed = [] \<rparr>) [0..<n], ptodo = replicate n None,
        plive = replicate n True, pinflight = [], pretrying = [], pstats = counters_zero, reading = [], late = [] \<rparr>)"

fun todo_refs :: "(addr \<times> nat) option \<Rightarrow> addr list" where
  "todo_refs None = []"
| "todo_refs (Some (a, k)) = [a]"

definition builder_refs :: "pbuilder \<Rightarrow> addr list" where
  "builder_refs b = pcur b # map snd (psealed b)"

definition run_refs :: "ppipe \<Rightarrow> addr list" where
  "run_refs s = free (runs s) @ opened s @ concat (pqueues s) @ concat (map todo_refs (ptodo s))"

definition bat_refs :: "ppipe \<Rightarrow> addr list" where
  "bat_refs s = free (bats s) @ concat (map builder_refs (pbuilders s)) @ pinflight s"

text \<open>What a \<open>Get\<close> may return: a pooled object, or memory nothing refers to.\<close>

definition run_pick :: "ppipe \<Rightarrow> addr \<Rightarrow> bool" where
  "run_pick s a \<longleftrightarrow> a \<in> set (free (runs s)) \<or> a \<notin> set (run_refs s)"

definition bat_pick :: "ppipe \<Rightarrow> addr \<Rightarrow> bool" where
  "bat_pick s a \<longleftrightarrow> a \<in> set (free (bats s)) \<or> a \<notin> set (bat_refs s)"

text \<open>The two slice operations: an emptied slice of the pool, and its return unless it is a single-transaction run.\<close>

definition getJobs :: "addr \<Rightarrow> job list store \<Rightarrow> job list store" where
  "getJobs a R = mutate a (\<lambda>_. []) (pool_get [] a R)"

definition putJobs :: "nat \<Rightarrow> addr \<Rightarrow> job list store \<Rightarrow> job list store" where
  "putJobs cap a R = (if cap < BatchCap then R else pool_put a [] R)"

text \<open>The builder's closures, on the builder \<open>i\<close> of the pipe: \<open>x\<close> is what \<open>newBatch\<close> gets.\<close>

definition pmut :: "nat \<Rightarrow> (batch \<Rightarrow> batch) \<Rightarrow> ppipe \<Rightarrow> ppipe" where
  "pmut i f s = s \<lparr> bats := mutate (pcur (pbuilders s ! i)) f (bats s) \<rparr>"

definition ptime :: "nat \<Rightarrow> time option \<Rightarrow> ppipe \<Rightarrow> ppipe" where
  "ptime i t s = s \<lparr> pbuilders := (pbuilders s)[i := (pbuilders s ! i) \<lparr> ptimer := t \<rparr>] \<rparr>"

abbreviation pcell :: "ppipe \<Rightarrow> nat \<Rightarrow> batch" where
  "pcell s i \<equiv> at (bats s) (pcur (pbuilders s ! i))"

text \<open>
  \<open>newBatch\<close>: a pooled batch with the body it grew to, or a new one whose body
  has a new array.
\<close>

definition pnewBatch :: "pipe_Config \<Rightarrow> (nat \<Rightarrow> nat) \<Rightarrow> addr \<Rightarrow> ppipe \<Rightarrow> ppipe" where
  "pnewBatch c rnd x s =
     (let pooled = (x \<in> set (free (bats s))) in
      s \<lparr> bats := pool_get newBatch x (bats s),
          bufs := (if pooled then bufs s else (bufs s)(x := \<lparr> barr = anext s, bcap = fresh_cap c rnd \<rparr>)),
          mem := (if pooled then mem s else (mem s)(anext s := replicate (fresh_cap c rnd) 0)),
          anext := (if pooled then anext s else Suc (anext s)) \<rparr>)"

definition pseal :: "pipe_Config \<Rightarrow> (nat \<Rightarrow> nat) \<Rightarrow> seal_reason \<Rightarrow> nat \<Rightarrow> addr \<Rightarrow> ppipe \<Rightarrow> ppipe" where
  "pseal c rnd r i x s =
     (if jobs (pcell s i) = [] then s
      else let b = pbuilders s ! i in
        (pnewBatch c rnd x s) \<lparr>
            pbuilders := (pbuilders s)[i := b \<lparr> pcur := x, ptimer := None, psealed := psealed b @ [(r, pcur b)] \<rparr>] \<rparr>)"

text \<open>\<open>body.Write\<close> on the open batch, then the job in its list.\<close>

definition pwrite :: "(nat \<Rightarrow> nat) \<Rightarrow> nat \<Rightarrow> bytes \<Rightarrow> ppipe \<Rightarrow> ppipe" where
  "pwrite rnd i bs s =
     (let a = pcur (pbuilders s ! i); n = length (body (at (bats s) a)); b = bufs s a in
      if n + length bs \<le> bcap b then s \<lparr> mem := (mem s)(barr b := write_at n bs (mem s (barr b))) \<rparr>
      else let cap = grow_cap rnd (n + length bs) (bcap b) in
        s \<lparr> mem := (mem s)(anext s := take n (mem s (barr b)) @ bs @ replicate (cap - (n + length bs)) 0),
            bufs := (bufs s)(a := \<lparr> barr = anext s, bcap = cap \<rparr>), anext := Suc (anext s) \<rparr>)"

definition pput :: "(nat \<Rightarrow> nat) \<Rightarrow> (job \<Rightarrow> batch \<Rightarrow> batch) \<Rightarrow> job \<Rightarrow> nat \<Rightarrow> ppipe \<Rightarrow> ppipe" where
  "pput rnd push j i s = pmut i (push j) (pwrite rnd i (raw j) s)"

definition padd :: "pipe_Config \<Rightarrow> (nat \<Rightarrow> nat) \<Rightarrow> time \<Rightarrow> job \<Rightarrow> nat \<Rightarrow> addr \<Rightarrow> addr \<Rightarrow> ppipe \<Rightarrow> ppipe" where
  "padd c rnd now j i x y s =
     (let s = (if dependsOnBatch (raw j) (ids (pcell s i)) then pseal c rnd SealDep i x s else s);
          s = (if jobs (pcell s i) = []
               then ptime i (Some (now + Linger c)) (pmut i (\<lambda>b. b \<lparr> born := now \<rparr>) s) else s);
          s = pput rnd push_job j i s
      in if int (length (jobs (pcell s i))) \<ge> BatchTxs c then pseal c rnd SealSize i y s
         else if int (length (body (pcell s i))) \<ge> BatchBytes c then pseal c rnd SealBytes i y s
         else s)"

definition pdrain :: "pipe_Config \<Rightarrow> (nat \<Rightarrow> nat) \<Rightarrow> nat \<Rightarrow> addr \<Rightarrow> ppipe \<Rightarrow> ppipe" where
  "pdrain c rnd i x s =
     pseal c rnd SealLinger i x (fold (\<lambda>js s. fold (\<lambda>j s. pput rnd drain_job j i s) js s) (map (at (runs s)) (pqueues s ! i)) s)"

text \<open>A settled batch goes back to the pool unless its body grew too far.\<close>

definition precycle :: "pipe_Config \<Rightarrow> int \<Rightarrow> addr \<Rightarrow> batch store \<Rightarrow> batch store" where
  "precycle c cap a H = (case recycle c cap (at H a) of None \<Rightarrow> H | Some b \<Rightarrow> pool_put a b H)"

definition pidle :: "ppipe \<Rightarrow> nat \<Rightarrow> bool" where
  "pidle s i \<longleftrightarrow> i < length (pbuilders s) \<and> plive s ! i \<and> psealed (pbuilders s ! i) = [] \<and> ptodo s ! i = None"

text \<open>
  The steps, with the label of the value model's step they are, or none for
  those it does not see.  The transport may read a request's body when the
  request has returned: the client library says that a response or an error may
  come before the body is closed.
\<close>

inductive pool_step :: "pipe_Config \<Rightarrow> (nat \<Rightarrow> nat) \<Rightarrow> pipe_act option \<Rightarrow> ppipe \<Rightarrow> ppipe \<Rightarrow> bool"
  for c :: pipe_Config and rnd :: "nat \<Rightarrow> nat" where
  OpenRun: "run_pick s a \<Longrightarrow>
    pool_step c rnd None s (s \<lparr> runs := getJobs a (runs s),
      rcap := (if a \<in> set (free (runs s)) then rcap s else (rcap s)(a := BatchCap)), opened := a # opened s \<rparr>)"
| AppendJob: "a \<in> set (opened s) \<Longrightarrow>
    pool_step c rnd None s (s \<lparr> runs := mutate a (\<lambda>js. js @ [j]) (runs s),
      rcap := (rcap s)(a := max (rcap s a) (Suc (length (at (runs s) a)))) \<rparr>)"
| FlushRun: "a \<in> set (opened s) \<Longrightarrow> at (runs s) a \<noteq> [] \<Longrightarrow> i < length (pqueues s) \<Longrightarrow>
    int (length (pqueues s ! i)) < queue_depth c \<Longrightarrow>
    pool_step c rnd (Some (ASend i (at (runs s) a))) s (s \<lparr> opened := remove1 a (opened s),
      pqueues := (pqueues s)[i := pqueues s ! i @ [a]], psenders := psenders s @ [length (at (runs s) a)] \<rparr>)"
| EnqueueOne: "a \<notin> set (run_refs s) \<Longrightarrow> i < length (pqueues s) \<Longrightarrow> int (length (pqueues s ! i)) < queue_depth c \<Longrightarrow>
    pool_step c rnd (Some (ASend i [j])) s (s \<lparr> runs := mutate a (\<lambda>_. [j]) (runs s), rcap := (rcap s)(a := 1),
      pqueues := (pqueues s)[i := pqueues s ! i @ [a]], psenders := psenders s @ [1] \<rparr>)"
| CountRun: "psenders s = ns1 @ n # ns2 \<Longrightarrow>
    pool_step c rnd (Some ACount) s (s \<lparr> psenders := ns1 @ ns2, pqueued := pqueued s + int n,
      pstats := (pstats s) \<lparr> enqueued := enqueued (pstats s) + n \<rparr> \<rparr>)"
| TakeRun: "pidle s i \<Longrightarrow> pqueues s ! i = a # rest \<Longrightarrow>
    pool_step c rnd (Some AWork) s (s \<lparr> pqueues := (pqueues s)[i := rest],
      pqueued := pqueued s - int (length (at (runs s) a)), ptodo := (ptodo s)[i := Some (a, 0)] \<rparr>)"
| AddNext: "i < length (pbuilders s) \<Longrightarrow> plive s ! i \<Longrightarrow> psealed (pbuilders s ! i) = [] \<Longrightarrow>
    ptodo s ! i = Some (a, k) \<Longrightarrow> k < length (at (runs s) a) \<Longrightarrow> bat_pick s x \<Longrightarrow> bat_pick s y \<Longrightarrow> x \<noteq> y \<Longrightarrow>
    pool_step c rnd (Some AWork) s
      (padd c rnd now (at (runs s) a ! k) i x y (s \<lparr> ptodo := (ptodo s)[i := Some (a, Suc k)] \<rparr>))"
| PutRun: "i < length (pbuilders s) \<Longrightarrow> plive s ! i \<Longrightarrow> psealed (pbuilders s ! i) = [] \<Longrightarrow>
    ptodo s ! i = Some (a, length (at (runs s) a)) \<Longrightarrow>
    pool_step c rnd None s (s \<lparr> runs := putJobs (rcap s a) a (runs s), ptodo := (ptodo s)[i := None] \<rparr>)"
| LingerFire: "pidle s i \<Longrightarrow> ptimer (pbuilders s ! i) = Some t \<Longrightarrow> t \<le> now \<Longrightarrow> bat_pick s x \<Longrightarrow>
    pool_step c rnd (Some AWork) s (pseal c rnd SealLinger i x s)"
| LaunchBatch: "i < length (pbuilders s) \<Longrightarrow> psealed (pbuilders s ! i) = (r, a) # rest \<Longrightarrow>
    int (length (pinflight s)) < Inflight c \<Longrightarrow>
    pool_step c rnd (Some AWork) s (s \<lparr> pbuilders := (pbuilders s)[i := (pbuilders s ! i) \<lparr> psealed := rest \<rparr>],
      pinflight := pinflight s @ [a] \<rparr>)"
| Post: "a \<in> set (pinflight s) \<Longrightarrow>
    pool_step c rnd None s (s \<lparr> reading := (a, barr (bufs s a), take (length (body (at (bats s) a))) (mem s (barr (bufs s a)))) # reading s \<rparr>)"
| BodyClosed: "reading s = rs1 @ r # rs2 \<Longrightarrow> pool_step c rnd None s (s \<lparr> reading := rs1 @ rs2 \<rparr>)"
| LateClosed: "late s = ls1 @ l # ls2 \<Longrightarrow> pool_step c rnd None s (s \<lparr> late := ls1 @ ls2 \<rparr>)"
| SettleBatch: "pinflight s = as1 @ a # as2 \<Longrightarrow> submit c E (at (bats s) a) (pstats s) = (k, rt) \<Longrightarrow>
    pool_step c rnd (Some AWork) s (s \<lparr> bats := precycle c (int (bcap (bufs s a))) a (bats s), pinflight := as1 @ as2,
      pretrying := add_retry rt (pretrying s), pstats := k,
      reading := filter (\<lambda>(b, arr, bs). b \<noteq> a) (reading s),
      late := map snd (filter (\<lambda>(b, arr, bs). b = a) (reading s)) @ late s \<rparr>)"
| RetryRun: "pretrying s = rs1 @ rt # rs2 \<Longrightarrow>
    pool_step c rnd (Some AWork) s (s \<lparr> pretrying := rs1 @ rs2, pstats := retryBatch c E rt (pstats s) \<rparr>)"
| ShutdownBuilder: "pidle s i \<Longrightarrow> bat_pick s x \<Longrightarrow>
    pool_step c rnd (Some (AShutdown i)) s ((pdrain c rnd i x s) \<lparr> pqueues := (pqueues s)[i := []],
      pqueued := pqueued s - int (length (concat (map (at (runs s)) (pqueues s ! i)))),
      plive := (plive s)[i := False] \<rparr>)"

inductive pool_reach :: "pipe_Config \<Rightarrow> (nat \<Rightarrow> nat) \<Rightarrow> ppipe \<Rightarrow> bool" for c :: pipe_Config and rnd :: "nat \<Rightarrow> nat" where
  Init: "pool_reach c rnd (pool_init c rnd)"
| Step: "pool_reach c rnd s \<Longrightarrow> pool_step c rnd l s s' \<Longrightarrow> pool_reach c rnd s'"

section \<open>The value it stands for\<close>

definition babs :: "batch store \<Rightarrow> pbuilder \<Rightarrow> builder" where
  "babs H b = \<lparr> cur = at H (pcur b), timer = ptimer b, sealed = map (map_prod id (at H)) (psealed b) \<rparr>"

fun tabs :: "job list store \<Rightarrow> (addr \<times> nat) option \<Rightarrow> job list" where
  "tabs R None = []"
| "tabs R (Some (a, k)) = drop k (at R a)"

definition p_abs :: "ppipe \<Rightarrow> pipe" where
  "p_abs s = \<lparr> queues = map (map (at (runs s))) (pqueues s), senders = psenders s, queued = pqueued s,
     builders = map (babs (bats s)) (pbuilders s), todo = map (tabs (runs s)) (ptodo s), live = plive s,
     inflight = map (at (bats s)) (pinflight s), retrying = pretrying s, stats = pstats s \<rparr>"

definition pool_inv :: "ppipe \<Rightarrow> bool" where
  "pool_inv s \<longleftrightarrow>
     length (pqueues s) = length (pbuilders s) \<and> length (ptodo s) = length (pbuilders s) \<and>
     length (plive s) = length (pbuilders s) \<and> distinct (run_refs s) \<and> distinct (bat_refs s) \<and>
     (\<forall>a \<in> set (free (runs s)). at (runs s) a = []) \<and> (\<forall>a \<in> set (free (bats s)). at (bats s) a = newBatch)"


section \<open>One owner per address\<close>

lemma map_update_same [simp]: "i < length xs \<Longrightarrow> (map f xs)[i := f (xs ! i)] = map f xs"
  by (metis length_map list_update_id nth_map)

lemma distinct_count_list: "distinct xs \<longleftrightarrow> (\<forall>a. count_list xs a \<le> 1)"
proof (induction xs)
  case (Cons x xs)
  show ?case
  proof (cases "x \<in> set xs")
    case True
    then have "\<not> count_list (x # xs) x \<le> 1" using count_list_0_iff [of xs x] by simp
    with True show ?thesis by auto
  next
    case False
    then have "count_list xs x = 0" by (simp add: count_list_0_iff)
    then have "count_list (x # xs) a \<le> 1 \<longleftrightarrow> count_list xs a \<le> 1" for a by (cases "x = a") simp_all
    with False Cons show ?thesis by simp
  qed
qed simp

lemma count_concat: "count_list (concat xss) a = total (\<lambda>xs. count_list xs a) xss"
  by (induction xss) simp_all

lemma total_map: "total f (map g xs) = total (\<lambda>x. f (g x)) xs"
  by (simp add: total_def comp_def)

lemma count_remove1: "a \<in> set xs \<Longrightarrow> count_list (remove1 a xs) b = count_list xs b - (if a = b then 1 else 0)"
  by (induction xs) auto

lemma count_pos: "a \<in> set xs \<longleftrightarrow> 0 < count_list xs a"
  using count_list_0_iff [of xs a] by auto

lemma total_two:
  "i < length xs \<Longrightarrow> j < length xs \<Longrightarrow> i \<noteq> j \<Longrightarrow> f (xs ! i) + f (xs ! j) \<le> total f xs" for f :: "'a \<Rightarrow> nat"
proof -
  assume a: "i < length xs" "j < length xs" "i \<noteq> j"
  have "f (xs ! i) + f (xs ! j) = (\<Sum>k \<in> {i, j}. f (xs ! k))" using a(3) by simp
  also have "\<dots> \<le> (\<Sum>k < length xs. f (xs ! k))" using a by (intro sum_mono2) auto
  finally show ?thesis by (simp add: total_def sum_list_sum_nth atLeast0LessThan)
qed

lemma total_nth: "i < length xs \<Longrightarrow> f (xs ! i) \<le> total f xs" for f :: "'a \<Rightarrow> nat"
  using elem_le_sum_list [of i "map f xs"] by (simp add: total_def)

lemmas counts = distinct_count_list count_concat total_map

text \<open>A builder's open batch is nobody else's: not pooled, sealed, in flight or another builder's.\<close>

lemma own_cur:
  assumes "distinct (bat_refs s)" and "i < length (pbuilders s)"
  defines "a \<equiv> pcur (pbuilders s ! i)"
  shows "a \<notin> set (free (bats s))" "a \<notin> snd ` set (psealed (pbuilders s ! i))" "a \<notin> set (pinflight s)"
    "j < length (pbuilders s) \<Longrightarrow> j \<noteq> i \<Longrightarrow> a \<notin> set (builder_refs (pbuilders s ! j))"
proof -
  let ?f = "\<lambda>b. count_list (builder_refs b) a"
  have c: "count_list (free (bats s)) a + total ?f (pbuilders s) + count_list (pinflight s) a \<le> 1"
    using assms(1) by (simp add: bat_refs_def counts add.assoc)
  have i: "?f (pbuilders s ! i) = Suc (count_list (map snd (psealed (pbuilders s ! i))) a)"
    by (simp add: builder_refs_def a_def)
  note t = total_nth [OF assms(2), of ?f]
  show "a \<notin> set (free (bats s))" "a \<notin> set (pinflight s)" using c i t by (simp_all add: count_pos)
  have "count_list (map snd (psealed (pbuilders s ! i))) a = 0" using c i t by linarith
  then show "a \<notin> snd ` set (psealed (pbuilders s ! i))" by (simp add: count_list_0_iff)
  assume j: "j < length (pbuilders s)" "j \<noteq> i"
  then show "a \<notin> set (builder_refs (pbuilders s ! j))"
    using total_two [OF assms(2) j(1), of ?f] c i by (simp add: count_pos)
qed

lemma mutate_simps [simp]: "free (mutate a f H) = free H" "at (mutate a f H) = (at H)(a := f (at H a))"
  by (simp_all add: mutate_def)

lemma pool_get_at:
  "\<forall>a \<in> set (free H). at H a = blank \<Longrightarrow> at (pool_get blank a H) = (at H)(a := blank)"
  by (auto simp: pool_get_def)

lemma pool_get_count:
  "count_list (free (pool_get blank a H)) b = count_list (free H) b - (if a \<in> set (free H) \<and> a = b then 1 else 0)"
  by (simp add: pool_get_def count_remove1)

lemma babs_cong:
  assumes "\<And>a. a \<in> set (builder_refs b) \<Longrightarrow> at H a = at H' a"
  shows "babs H b = babs H' b"
proof -
  have "at H (snd x) = at H' (snd x)" if "x \<in> set (psealed b)" for x
    using assms [of "snd x"] that by (simp add: builder_refs_def)
  then have "map (map_prod id (at H)) (psealed b) = map (map_prod id (at H')) (psealed b)"
    by (intro map_cong refl) (metis prod.collapse map_prod_simp)
  then show ?thesis using assms by (simp add: babs_def builder_refs_def)
qed

text \<open>The effect on the value model: the builder \<open>i\<close> alone changes.\<close>

definition at_builder :: "nat \<Rightarrow> (builder \<Rightarrow> builder) \<Rightarrow> pipe \<Rightarrow> pipe" where
  "at_builder i f p = p \<lparr> builders := (builders p)[i := f (builders p ! i)] \<rparr>"

lemma at_builder_at [simp]:
  "i < length (builders p) \<Longrightarrow> at_builder i f (at_builder i g p) = at_builder i (\<lambda>b. f (g b)) p"
  by (simp add: at_builder_def)

lemma p_abs_builders [simp]: "builders (p_abs s) = map (babs (bats s)) (pbuilders s)"
  by (simp add: p_abs_def)

text \<open>What the primitive operations of a builder keep, and what they are in the value model.\<close>

definition frame_of :: "ppipe \<Rightarrow> _" where
  "frame_of s = (runs s, rcap s, opened s, pqueues s, psenders s, pqueued s, ptodo s, plive s, pinflight s,
     pretrying s, pstats s, reading s, late s)"

definition builder_op :: "nat \<Rightarrow> (builder \<Rightarrow> builder) \<Rightarrow> ppipe \<Rightarrow> ppipe \<Rightarrow> bool" where
  "builder_op i f s s' \<longleftrightarrow>
     (pool_inv s \<and> i < length (pbuilders s) \<longrightarrow>
       pool_inv s' \<and> length (pbuilders s') = length (pbuilders s) \<and> p_abs s' = at_builder i f (p_abs s)) \<and>
     frame_of s' = frame_of s"

lemma pmut_op: "builder_op i (\<lambda>b. b \<lparr> cur := f (cur b) \<rparr>) s (pmut i f s)"
proof -
  let ?a = "pcur (pbuilders s ! i)"
  have "pool_inv (pmut i f s) \<and> p_abs (pmut i f s) = at_builder i (\<lambda>b. b \<lparr> cur := f (cur b) \<rparr>) (p_abs s)"
    if inv: "pool_inv s" and i: "i < length (pbuilders s)"
  proof
    have d: "distinct (bat_refs s)" using inv by (simp add: pool_inv_def)
    note o = own_cur [OF d i]
    show "pool_inv (pmut i f s)" using inv o(1) by (auto simp: pool_inv_def pmut_def run_refs_def bat_refs_def)
    have "map (babs (mutate ?a f (bats s))) (pbuilders s) =
        (map (babs (bats s)) (pbuilders s))[i := (babs (bats s) (pbuilders s ! i)) \<lparr> cur := f (at (bats s) ?a) \<rparr>]"
    proof (rule nth_equalityI)
      fix j
      assume "j < length (map (babs (mutate ?a f (bats s))) (pbuilders s))"
      then have j: "j < length (pbuilders s)" by simp
      show "map (babs (mutate ?a f (bats s))) (pbuilders s) ! j =
          (map (babs (bats s)) (pbuilders s))[i := (babs (bats s) (pbuilders s ! i)) \<lparr> cur := f (at (bats s) ?a) \<rparr>] ! j"
      proof (cases "j = i")
        case True
        have "map (map_prod id ((at (bats s))(?a := v))) (psealed (pbuilders s ! i)) =
            map (map_prod id (at (bats s))) (psealed (pbuilders s ! i))" for v
          using o(2) by (auto simp: map_prod_def image_iff)
        then show ?thesis using True i by (simp add: babs_def)
      next
        case False
        then have "babs (mutate ?a f (bats s)) (pbuilders s ! j) = babs (bats s) (pbuilders s ! j)"
          using o(4) [OF j False] by (intro babs_cong) auto
        then show ?thesis using False j by simp
      qed
    qed simp
    then show "p_abs (pmut i f s) = at_builder i (\<lambda>b. b \<lparr> cur := f (cur b) \<rparr>) (p_abs s)"
      using o(3) i by (simp add: p_abs_def at_builder_def pmut_def babs_def)
  qed
  then show ?thesis by (simp add: builder_op_def pmut_def frame_of_def)
qed

text \<open>What a \<open>Get\<close> returns is nobody's.\<close>

lemma pick_other:
  assumes "distinct (bat_refs s)" and "bat_pick s x"
  shows "x \<notin> set (concat (map builder_refs (pbuilders s)))" "x \<notin> set (pinflight s)"
    "i < length (pbuilders s) \<Longrightarrow> x \<notin> set (builder_refs (pbuilders s ! i))"
proof -
  show a: "x \<notin> set (concat (map builder_refs (pbuilders s)))" "x \<notin> set (pinflight s)"
    using assms by (auto simp: bat_pick_def bat_refs_def)
  show "x \<notin> set (builder_refs (pbuilders s ! i))" if "i < length (pbuilders s)" using a(1) that by auto
qed

lemma seal_refs_distinct:
  assumes d: "distinct (bat_refs s)" and x: "bat_pick s x" and i: "i < length (pbuilders s)"
    and b: "builder_refs b' = x # map snd (psealed (pbuilders s ! i)) @ [pcur (pbuilders s ! i)]"
  shows "distinct (bat_refs (s \<lparr> bats := pool_get newBatch x (bats s), pbuilders := (pbuilders s)[i := b'] \<rparr>))"
  unfolding distinct_count_list
proof
  fix y
  let ?f = "\<lambda>b. count_list (builder_refs b) y"
  have "?f b' = ?f (pbuilders s ! i) + (if x = y then 1 else 0)" by (simp add: b) (simp add: builder_refs_def)
  then have t: "total ?f ((pbuilders s)[i := b']) = total ?f (pbuilders s) + (if x = y then 1 else 0)"
    using total_update [OF i, of ?f b'] by simp
  have c: "count_list (free (bats s)) y + total ?f (pbuilders s) + count_list (pinflight s) y \<le> 1"
    using d by (simp add: bat_refs_def counts add.assoc)
  have "x \<in> set (free (bats s)) \<longleftrightarrow> 0 < count_list (free (bats s)) x" by (rule count_pos)
  moreover have "x \<notin> set (free (bats s)) \<Longrightarrow> count_list (bat_refs s) x = 0"
    using x by (auto simp: bat_pick_def count_list_0_iff)
  ultimately show "count_list (bat_refs (s \<lparr> bats := pool_get newBatch x (bats s), pbuilders := (pbuilders s)[i := b'] \<rparr>)) y \<le> 1"
    using c t by (cases "x = y"; cases "x \<in> set (free (bats s))")
      (simp_all add: bat_refs_def count_concat total_map pool_get_count)
qed

lemma ptime_refs: "bat_refs (ptime i t s) = bat_refs s" "run_refs (ptime i t s) = run_refs s"
proof -
  let ?b = "pbuilders s ! i"
  have "builder_refs (?b \<lparr> ptimer := t \<rparr>) = builder_refs ?b" by (simp add: builder_refs_def)
  then have "map builder_refs ((pbuilders s)[i := ?b \<lparr> ptimer := t \<rparr>]) = map builder_refs (pbuilders s)"
    by (cases "i < length (pbuilders s)") (simp_all add: map_update list_update_beyond)
  then show "bat_refs (ptime i t s) = bat_refs s" "run_refs (ptime i t s) = run_refs s"
    by (simp_all add: bat_refs_def run_refs_def ptime_def)
qed

lemma ptime_op: "builder_op i (\<lambda>b. b \<lparr> timer := t \<rparr>) s (ptime i t s)"
proof -
  let ?b = "pbuilders s ! i"
  have "pool_inv (ptime i t s) = pool_inv s" using ptime_refs [of i t s] by (simp add: pool_inv_def ptime_def)
  moreover have "babs (bats s) (?b \<lparr> ptimer := t \<rparr>) = (babs (bats s) ?b) \<lparr> timer := t \<rparr>" by (simp add: babs_def)
  ultimately show ?thesis
    by (simp add: builder_op_def frame_of_def) (simp add: ptime_def p_abs_def at_builder_def map_update)
qed

lemma pseal_op:
  assumes x: "bat_pick s x"
  shows "builder_op i (seal r) s (pseal c rnd r i x s)"
proof -
  let ?b = "pbuilders s ! i" and ?H = "bats s" and ?H' = "pool_get newBatch x (bats s)"
  let ?b' = "?b \<lparr> pcur := x, ptimer := None, psealed := psealed ?b @ [(r, pcur ?b)] \<rparr>"
  have "pool_inv (pseal c rnd r i x s) \<and> length (pbuilders (pseal c rnd r i x s)) = length (pbuilders s) \<and>
      p_abs (pseal c rnd r i x s) = at_builder i (seal r) (p_abs s)"
    if inv: "pool_inv s" and i: "i < length (pbuilders s)"
  proof (cases "jobs (pcell s i) = []")
    case True
    then have "seal r (babs ?H ?b) = babs ?H ?b" by (simp add: seal_def babs_def)
    then show ?thesis using True inv i by (simp add: pseal_def at_builder_def) 
  next
    case False
    have d: "distinct (bat_refs s)" and bl: "\<forall>a \<in> set (free ?H). at ?H a = newBatch"
      using inv by (simp_all add: pool_inv_def)
    note po = pick_other [OF d x]
    have at: "at ?H' = (at ?H)(x := newBatch)" by (rule pool_get_at [OF bl])
    obtain B M n where s': "pseal c rnd r i x s = s \<lparr> bats := ?H', bufs := B, mem := M, anext := n, pbuilders := (pbuilders s)[i := ?b'] \<rparr>"
      using False by (simp add: pseal_def pnewBatch_def Let_def)
    have "distinct (bat_refs (pseal c rnd r i x s))"
      using seal_refs_distinct [OF d x i, of ?b'] by (simp add: s' bat_refs_def) (simp add: builder_refs_def)
    moreover have "\<forall>a \<in> set (free ?H'). at ?H' a = newBatch"
      using bl by (auto simp: at pool_get_def dest: subsetD [OF set_remove1_subset])
    ultimately have inv': "pool_inv (pseal c rnd r i x s)" using inv by (simp add: s' pool_inv_def run_refs_def)
    have same: "babs ?H' (pbuilders s ! j) = babs ?H (pbuilders s ! j)" if "j < length (pbuilders s)" for j
      using po(3) [OF that] by (intro babs_cong) (auto simp: at)
    then have m: "map (babs ?H') (pbuilders s) = map (babs ?H) (pbuilders s)" by (intro nth_equalityI) simp_all
    have "babs ?H' ?b = babs ?H ?b" using same i by blast
    then have "babs ?H' ?b' = seal r (babs ?H ?b)"
      using False po(3) [OF i] by (auto simp: babs_def seal_def at builder_refs_def)
    then have "p_abs (pseal c rnd r i x s) = at_builder i (seal r) (p_abs s)"
      using po(2) i by (simp add: s' p_abs_def at_builder_def map_update m at)
    with inv' show ?thesis by (simp add: s')
  qed
  then show ?thesis by (simp add: builder_op_def frame_of_def pseal_def pnewBatch_def Let_def)
qed

lemma pseal_pick:
  assumes "bat_pick s x" and "bat_pick s y" and "x \<noteq> y" and "i < length (pbuilders s)"
  shows "bat_pick (pseal c rnd r i x s) y"
proof (cases "jobs (pcell s i) = []")
  case False
  let ?b = "pbuilders s ! i"
  let ?b' = "?b \<lparr> pcur := x, ptimer := None, psealed := psealed ?b @ [(r, pcur ?b)] \<rparr>"
  have "set (builder_refs ?b) \<subseteq> set (concat (map builder_refs (pbuilders s)))"
    using nth_mem [OF assms(4)] by auto
  then have "set (builder_refs ?b') \<subseteq> insert x (set (concat (map builder_refs (pbuilders s))))"
    by (auto simp: builder_refs_def)
  moreover have "set (concat (map builder_refs ((pbuilders s)[i := ?b']))) \<subseteq>
      set (builder_refs ?b') \<union> set (concat (map builder_refs (pbuilders s)))"
    using set_update_subset_insert [of "pbuilders s" i ?b'] by auto
  ultimately have "set (concat (map builder_refs ((pbuilders s)[i := ?b']))) \<subseteq>
      insert x (set (concat (map builder_refs (pbuilders s))))" by blast
  then show ?thesis using False assms(1-3)
    by (auto simp: bat_pick_def pseal_def pnewBatch_def Let_def bat_refs_def pool_get_def simp del: set_concat dest: subsetD [OF set_remove1_subset])
qed (use assms in \<open>simp add: pseal_def\<close>)

text \<open>Chaining the primitives.\<close>

lemma builder_op_trans:
  "builder_op i f s s' \<Longrightarrow> builder_op i g s' s'' \<Longrightarrow> builder_op i (\<lambda>b. g (f b)) s s''"
  unfolding builder_op_def by (cases "i < length (pbuilders s)") (simp_all add: frame_of_def)

lemma builder_op_if:
  assumes "P (pcell s i) \<Longrightarrow> builder_op i f s s1" and "\<not> P (pcell s i) \<Longrightarrow> builder_op i g s s2"
  shows "builder_op i (\<lambda>b. if P (cur b) then f b else g b) s (if P (pcell s i) then s1 else s2)"
proof -
  have "i < length (pbuilders s) \<Longrightarrow> cur (builders (p_abs s) ! i) = pcell s i" by (simp add: babs_def)
  then show ?thesis using assms unfolding builder_op_def at_builder_def by (cases "P (pcell s i)") simp_all
qed

lemma builder_op_id: "builder_op i (\<lambda>b. b) s s"
  by (cases "i < length (pbuilders s)") (simp_all add: builder_op_def at_builder_def p_abs_def)

lemma pick_keep [simp]: "bat_pick (pmut i f s) y = bat_pick s y" "bat_pick (ptime i t s) y = bat_pick s y"
proof -
  show "bat_pick (pmut i f s) y = bat_pick s y" by (simp add: bat_pick_def pmut_def bat_refs_def)
  show "bat_pick (ptime i t s) y = bat_pick s y" unfolding bat_pick_def ptime_refs by (simp add: ptime_def)
qed

lemma pwrite_op: "builder_op i (\<lambda>b. b) s (pwrite rnd i bs s)"
  by (cases "length (body (pcell s i)) + length bs \<le> bcap (bufs s (pcur (pbuilders s ! i)))")
     (simp_all add: pwrite_def Let_def builder_op_def pool_inv_def frame_of_def at_builder_def p_abs_def run_refs_def bat_refs_def)

lemma pput_op: "builder_op i (\<lambda>b. b \<lparr> cur := push j (cur b) \<rparr>) s (pput rnd push j i s)"
  unfolding pput_def by (rule builder_op_trans [OF pwrite_op pmut_op])

lemma pput_pick [simp]: "bat_pick (pput rnd push j i s) y = bat_pick s y"
  by (simp add: pput_def) (simp add: bat_pick_def pwrite_def Let_def bat_refs_def)

text \<open>The three parts of \<open>add\<close> before its last seals.\<close>

definition padd_front :: "pipe_Config \<Rightarrow> (nat \<Rightarrow> nat) \<Rightarrow> time \<Rightarrow> job \<Rightarrow> nat \<Rightarrow> addr \<Rightarrow> ppipe \<Rightarrow> ppipe" where
  "padd_front c rnd now j i x s =
     (let s = (if dependsOnBatch (raw j) (ids (pcell s i)) then pseal c rnd SealDep i x s else s);
          s = (if jobs (pcell s i) = []
               then ptime i (Some (now + Linger c)) (pmut i (\<lambda>b. b \<lparr> born := now \<rparr>) s) else s)
      in pput rnd push_job j i s)"

definition padd_back :: "pipe_Config \<Rightarrow> (nat \<Rightarrow> nat) \<Rightarrow> nat \<Rightarrow> addr \<Rightarrow> ppipe \<Rightarrow> ppipe" where
  "padd_back c rnd i y s =
     (if int (length (jobs (pcell s i))) \<ge> BatchTxs c then pseal c rnd SealSize i y s
      else if int (length (body (pcell s i))) \<ge> BatchBytes c then pseal c rnd SealBytes i y s else s)"

lemma padd_split: "padd c rnd now j i x y s = padd_back c rnd i y (padd_front c rnd now j i x s)"
  by (simp add: padd_def padd_front_def padd_back_def Let_def)

lemma padd_front_op:
  assumes "bat_pick s x"
  shows "builder_op i (\<lambda>b. let b = (if dependsOnBatch (raw j) (ids (cur b)) then seal SealDep b else b);
        b = (if jobs (cur b) = [] then b \<lparr> cur := (cur b) \<lparr> born := now \<rparr> \<rparr> \<lparr> timer := Some (now + Linger c) \<rparr> else b)
      in b \<lparr> cur := push_job j (cur b) \<rparr>) s (padd_front c rnd now j i x s)"
proof -
  define s1 where "s1 = (if dependsOnBatch (raw j) (ids (pcell s i)) then pseal c rnd SealDep i x s else s)"
  define s2 where "s2 = (if jobs (pcell s1 i) = []
      then ptime i (Some (now + Linger c)) (pmut i (\<lambda>b. b \<lparr> born := now \<rparr>) s1) else s1)"
  have "builder_op i (\<lambda>b. if dependsOnBatch (raw j) (ids (cur b)) then seal SealDep b else b) s s1"
    unfolding s1_def by (rule builder_op_if) (rule pseal_op [OF assms], rule builder_op_id)
  moreover have "builder_op i (\<lambda>b. if jobs (cur b) = []
      then b \<lparr> cur := (cur b) \<lparr> born := now \<rparr> \<rparr> \<lparr> timer := Some (now + Linger c) \<rparr> else b) s1 s2"
    unfolding s2_def by (rule builder_op_if) (rule builder_op_trans [OF pmut_op ptime_op], rule builder_op_id)
  moreover have "builder_op i (\<lambda>b. b \<lparr> cur := push_job j (cur b) \<rparr>) s2 (pput rnd push_job j i s2)" by (rule pput_op)
  ultimately show ?thesis
    unfolding padd_front_def s1_def [symmetric] Let_def s2_def [symmetric] by (rule builder_op_trans [OF builder_op_trans])
qed

lemma padd_front_pick:
  assumes "bat_pick s x" and "bat_pick s y" and "x \<noteq> y" and "i < length (pbuilders s)"
  shows "bat_pick (padd_front c rnd now j i x s) y"
  using pseal_pick [OF assms] assms(2) by (simp add: padd_front_def Let_def)

lemma padd_back_op:
  assumes "bat_pick s y"
  shows "builder_op i (\<lambda>b. if int (length (jobs (cur b))) \<ge> BatchTxs c then seal SealSize b
      else if int (length (body (cur b))) \<ge> BatchBytes c then seal SealBytes b else b) s (padd_back c rnd i y s)"
  unfolding padd_back_def by (intro builder_op_if pseal_op [OF assms] builder_op_id)

lemma padd_op:
  assumes "bat_pick s x" and "bat_pick s y" and "x \<noteq> y" and "i < length (pbuilders s)"
  shows "builder_op i (add_job c now j) s (padd c rnd now j i x y s)"
proof -
  have "builder_op i (\<lambda>b. add_job c now j b) s (padd_back c rnd i y (padd_front c rnd now j i x s))"
    unfolding add_job_def Let_def
    by (rule builder_op_trans [OF padd_front_op [OF assms(1), unfolded Let_def] padd_back_op [OF padd_front_pick [OF assms]]])
  then show ?thesis by (simp add: padd_split)
qed

text \<open>The jobs the shutdown adds.\<close>

definition pdrain_jobs :: "(nat \<Rightarrow> nat) \<Rightarrow> nat \<Rightarrow> job list \<Rightarrow> ppipe \<Rightarrow> ppipe" where
  "pdrain_jobs rnd i js s = fold (\<lambda>j s. pput rnd drain_job j i s) js s"

lemma pdrain_jobs_op: "builder_op i (\<lambda>b. b \<lparr> cur := fold drain_job js (cur b) \<rparr>) s (pdrain_jobs rnd i js s)"
proof (induction js arbitrary: s)
  case Nil
  have "(\<lambda>b :: builder. b \<lparr> cur := cur b \<rparr>) = (\<lambda>b. b)" by simp
  then show ?case using builder_op_id by (simp add: pdrain_jobs_def)
next
  case (Cons j js)
  have "builder_op i (\<lambda>b. b \<lparr> cur := drain_job j (cur b) \<rparr>) s (pput rnd drain_job j i s)" by (rule pput_op)
  from builder_op_trans [OF this Cons.IH] show ?case by (simp add: pdrain_jobs_def)
qed

lemma pdrain_jobs_pick [simp]: "bat_pick (pdrain_jobs rnd i js s) y = bat_pick s y"
  by (induction js arbitrary: s) (simp_all add: pdrain_jobs_def)

lemma fold_concat_runs: "fold (\<lambda>js s. fold f js s) jss s = fold f (concat jss) s"
  by (induction jss arbitrary: s) simp_all

lemma pdrain_split:
  "pdrain c rnd i x s = pseal c rnd SealLinger i x (pdrain_jobs rnd i (concat (map (at (runs s)) (pqueues s ! i))) s)"
  by (simp add: pdrain_def pdrain_jobs_def fold_concat_runs)

lemma pdrain_op:
  assumes "bat_pick s x"
  shows "builder_op i (builder_shutdown (map (at (runs s)) (pqueues s ! i))) s (pdrain c rnd i x s)"
  unfolding pdrain_split builder_shutdown_def fold_concat_runs
  by (rule builder_op_trans [OF pdrain_jobs_op pseal_op]) (simp add: assms)

section \<open>Simulation\<close>

lemma pidle_idle: "pool_inv s \<Longrightarrow> pidle s i \<Longrightarrow> idle (p_abs s) i"
  by (simp add: pool_inv_def pidle_def idle_def p_abs_def babs_def)

lemma p_abs_runs:
  assumes "\<And>b. b \<noteq> a \<Longrightarrow> at R b = at (runs s) b" and "a \<notin> set (concat (pqueues s))"
    and "a \<notin> set (concat (map todo_refs (ptodo s)))"
  shows "map (map (at R)) (pqueues s) = map (map (at (runs s))) (pqueues s)"
    "map (tabs R) (ptodo s) = map (tabs (runs s)) (ptodo s)"
proof -
  have "at R b = at (runs s) b" if "b \<in> set q" "q \<in> set (pqueues s)" for b q
    using assms(2) that by (intro assms(1)) auto
  then show "map (map (at R)) (pqueues s) = map (map (at (runs s))) (pqueues s)" by simp
  have "tabs R t = tabs (runs s) t" if "t \<in> set (ptodo s)" for t
  proof (cases t rule: todo_refs.cases)
    case (2 b k)
    then have "b \<noteq> a" using assms(3) that by force
    with 2 show ?thesis using assms(1) by simp
  qed simp
  then show "map (tabs R) (ptodo s) = map (tabs (runs s)) (ptodo s)" by simp
qed

text \<open>Every step either moves an address from one owner to another, takes one nobody has, or lets one go.\<close>

lemma open_ok:
  assumes inv: "pool_inv s" and a: "run_pick s a"
    and s'_def: "s' = s \<lparr> runs := getJobs a (runs s), rcap := caps, opened := a # opened s \<rparr>"
  shows "pool_inv s' \<and> p_abs s' = p_abs s"
proof
  have d: "distinct (run_refs s)" "\<forall>a \<in> set (free (runs s)). at (runs s) a = []" using inv by (simp_all add: pool_inv_def)
  have at: "at (getJobs a (runs s)) = (at (runs s))(a := [])" by (simp add: getJobs_def pool_get_at [OF d(2)])
  have fr: "free (getJobs a (runs s)) = (if a \<in> set (free (runs s)) then remove1 a (free (runs s)) else free (runs s))"
    by (simp add: getJobs_def pool_get_def)
  have "distinct (run_refs s')"
    using d(1) a by (auto simp: s'_def run_refs_def run_pick_def fr split: if_splits)
  then show "pool_inv s'" using inv d(2) by (auto simp: pool_inv_def s'_def at fr bat_refs_def split: if_splits)
  have "a \<notin> set (concat (pqueues s))" "a \<notin> set (concat (map todo_refs (ptodo s)))"
    using d(1) a by (auto simp: run_refs_def run_pick_def)
  then show "p_abs s' = p_abs s"
    using p_abs_runs [of a "getJobs a (runs s)" s] by (simp add: p_abs_def s'_def at)
qed

lemma append_ok:
  assumes inv: "pool_inv s" and a: "a \<in> set (opened s)"
    and s'_def: "s' = s \<lparr> runs := mutate a f (runs s), rcap := caps \<rparr>"
  shows "pool_inv s' \<and> p_abs s' = p_abs s"
proof -
  have "a \<notin> set (free (runs s))" "a \<notin> set (concat (pqueues s))" "a \<notin> set (concat (map todo_refs (ptodo s)))"
    using inv a by (auto simp: pool_inv_def run_refs_def)
  moreover from this have "p_abs s' = p_abs s" using p_abs_runs [of a "mutate a f (runs s)" s] by (simp add: p_abs_def s'_def)
  ultimately show ?thesis using inv by (auto simp: s'_def pool_inv_def run_refs_def bat_refs_def)
qed

lemma settle_ok:
  assumes inv: "pool_inv s" and a: "pinflight s = as1 @ a # as2"
    and s'_def: "s' = s \<lparr> bats := precycle c cap a (bats s), pinflight := as1 @ as2, pretrying := rs, pstats := k, reading := rds, late := lts \<rparr>"
  shows "pool_inv s' \<and> p_abs s' = (p_abs s) \<lparr> inflight := map (at (bats s)) (as1 @ as2), retrying := rs, stats := k \<rparr>"
proof (cases "recycle c cap (at (bats s) a)")
  case None
  then have "precycle c cap a (bats s) = bats s" by (simp add: precycle_def)
  then show ?thesis using inv a by (auto simp: s'_def pool_inv_def p_abs_def run_refs_def bat_refs_def)
next
  case (Some b)
  then have "b = newBatch" by (auto simp: recycle_def newBatch_def intro!: batch.equality split: if_splits)
  with Some have H: "precycle c cap a (bats s) = pool_put a newBatch (bats s)" by (simp add: precycle_def)
  have n: "a \<notin> set (as1 @ as2)" "a \<notin> set (free (bats s))" "\<And>b. b \<in> set (pbuilders s) \<Longrightarrow> a \<notin> set (builder_refs b)"
    using inv a by (auto simp: pool_inv_def bat_refs_def)
  have "babs (pool_put a newBatch (bats s)) b = babs (bats s) b" if "b \<in> set (pbuilders s)" for b
    using n(3) [OF that] by (intro babs_cong) (auto simp: pool_put_def)
  then show ?thesis using inv a n
    by (auto simp: s'_def H pool_put_def pool_inv_def p_abs_def run_refs_def bat_refs_def)
qed

lemma move_run_distinct:
  assumes "distinct (run_refs s)" and "i < length (ptodo s)" and "i < length (pqueues s)"
    and "\<And>a. count_list (free R) a + count_list op a + count_list q a + count_list (todo_refs t) a
      \<le> count_list (free (runs s)) a + count_list (opened s) a + count_list (pqueues s ! i) a + count_list (todo_refs (ptodo s ! i)) a"
  shows "distinct (run_refs (s \<lparr> runs := R, opened := op, pqueues := (pqueues s)[i := q], ptodo := (ptodo s)[i := t] \<rparr>))"
  unfolding distinct_count_list
proof
  fix a
  have "count_list (run_refs s) a \<le> 1" using assms(1) by (simp add: distinct_count_list)
  then show "count_list (run_refs (s \<lparr> runs := R, opened := op, pqueues := (pqueues s)[i := q], ptodo := (ptodo s)[i := t] \<rparr>)) a \<le> 1"
    using assms(4) [of a] total_update [OF assms(3), of "\<lambda>xs. count_list xs a" q]
      total_update [OF assms(2), of "\<lambda>t. count_list (todo_refs t) a" t]
    by (simp add: run_refs_def count_concat total_map)
qed

lemma flush_ok:
  assumes inv: "pool_inv s" and a: "a \<in> set (opened s)" and i: "i < length (pqueues s)"
    and s'_def: "s' = s \<lparr> opened := remove1 a (opened s), pqueues := (pqueues s)[i := pqueues s ! i @ [a]], psenders := ns \<rparr>"
  shows "pool_inv s' \<and> p_abs s' = (p_abs s) \<lparr> queues := (queues (p_abs s))[i := queues (p_abs s) ! i @ [at (runs s) a]],
    senders := ns \<rparr>"
proof -
  have "distinct (run_refs (s \<lparr> runs := runs s, opened := remove1 a (opened s),
      pqueues := (pqueues s)[i := pqueues s ! i @ [a]], ptodo := (ptodo s)[i := ptodo s ! i] \<rparr>))"
    using inv i a by (intro move_run_distinct) (auto simp: pool_inv_def count_remove1 count_pos)
  then have "distinct (run_refs s')" by (simp add: s'_def run_refs_def)
  then show ?thesis using inv i by (simp add: s'_def pool_inv_def p_abs_def bat_refs_def map_update)
qed

lemma enqueue_ok:
  assumes inv: "pool_inv s" and a: "a \<notin> set (run_refs s)" and i: "i < length (pqueues s)"
    and s'_def: "s' = s \<lparr> runs := mutate a (\<lambda>_. [j]) (runs s), rcap := caps,
      pqueues := (pqueues s)[i := pqueues s ! i @ [a]], psenders := ns \<rparr>"
  shows "pool_inv s' \<and> p_abs s' = (p_abs s) \<lparr> queues := (queues (p_abs s))[i := queues (p_abs s) ! i @ [[j]]], senders := ns \<rparr>"
proof -
  have "count_list (run_refs s') b \<le> 1" for b
  proof -
    have "count_list (run_refs s) b \<le> 1" "a = b \<Longrightarrow> count_list (run_refs s) b = 0"
      using inv a by (simp_all add: pool_inv_def distinct_count_list count_list_0_iff)
    then show ?thesis using total_update [OF i, of "\<lambda>xs. count_list xs b" "pqueues s ! i @ [a]"]
      by (auto simp: s'_def run_refs_def count_concat total_map)
  qed
  then have d: "distinct (run_refs s')" by (simp add: distinct_count_list)
  have n: "a \<notin> set (free (runs s))" "a \<notin> set (concat (pqueues s))" "a \<notin> set (concat (map todo_refs (ptodo s)))"
    using a by (auto simp: run_refs_def)
  define R where "R = mutate a (\<lambda>_. [j]) (runs s)"
  have R: "at R a = [j]" "\<And>b. b \<noteq> a \<Longrightarrow> at R b = at (runs s) b" by (simp_all add: R_def)
  note abs = p_abs_runs [OF R(2) n(2,3)]
  from abs(1) have "map (at R) (pqueues s ! i) = map (at (runs s)) (pqueues s ! i)" using i by (metis nth_map)
  then have q: "map (map (at R)) ((pqueues s)[i := pqueues s ! i @ [a]]) =
      (map (map (at (runs s))) (pqueues s))[i := map (at (runs s)) (pqueues s ! i) @ [[j]]]"
    using abs(1) by (simp add: map_update R(1) del: map_eq_conv)
  have "p_abs s' = (p_abs s) \<lparr> queues := (queues (p_abs s))[i := queues (p_abs s) ! i @ [[j]]], senders := ns \<rparr>"
    using i by (simp add: s'_def R_def [symmetric] p_abs_def q abs(2) del: map_eq_conv)
  with inv d n show ?thesis by (auto simp: s'_def pool_inv_def bat_refs_def)
qed

lemma take_ok:
  assumes inv: "pool_inv s" and i: "i < length (pbuilders s)" and t: "ptodo s ! i = None" and q: "pqueues s ! i = a # rest"
    and s'_def: "s' = s \<lparr> pqueues := (pqueues s)[i := rest], pqueued := n, ptodo := (ptodo s)[i := Some (a, 0)] \<rparr>"
  shows "pool_inv s' \<and> p_abs s' = (p_abs s) \<lparr> queues := (queues (p_abs s))[i := map (at (runs s)) rest], queued := n,
    todo := (todo (p_abs s))[i := at (runs s) a] \<rparr>"
proof -
  have "distinct (run_refs (s \<lparr> runs := runs s, opened := opened s, pqueues := (pqueues s)[i := rest], ptodo := (ptodo s)[i := Some (a, 0)] \<rparr>))"
    using inv i t q by (intro move_run_distinct) (auto simp: pool_inv_def)
  then have "distinct (run_refs s')" by (simp add: s'_def run_refs_def)
  then show ?thesis using inv i by (simp add: s'_def pool_inv_def p_abs_def bat_refs_def map_update)
qed

lemma put_run_ok:
  assumes inv: "pool_inv s" and i: "i < length (pbuilders s)" and t: "ptodo s ! i = Some (a, length (at (runs s) a))"
    and s'_def: "s' = s \<lparr> runs := putJobs cap a (runs s), ptodo := (ptodo s)[i := None] \<rparr>"
  shows "pool_inv s' \<and> p_abs s' = p_abs s"
proof -
  have it: "i < length (ptodo s)" "i < length (pqueues s)" using inv i by (simp_all add: pool_inv_def)
  have "distinct (run_refs (s \<lparr> runs := putJobs cap a (runs s), opened := opened s, pqueues := (pqueues s)[i := pqueues s ! i], ptodo := (ptodo s)[i := None] \<rparr>))"
    using inv it t by (intro move_run_distinct) (auto simp: pool_inv_def putJobs_def pool_put_def)
  then have d: "distinct (run_refs s')" by (simp add: s'_def run_refs_def)
  let ?f = "\<lambda>t. count_list (todo_refs t) a"
  have c: "count_list (run_refs s) a \<le> 1" using inv by (simp add: pool_inv_def distinct_count_list)
  have o: "?f (ptodo s ! i) = 1" using t by simp
  have "count_list (free (runs s)) a + count_list (concat (pqueues s)) a + total ?f (ptodo s) \<le> 1"
    using c by (simp add: run_refs_def count_concat total_map)
  then have n: "a \<notin> set (free (runs s))" "a \<notin> set (concat (pqueues s))" and tot: "total ?f (ptodo s) \<le> 1"
    using total_nth [OF it(1), of ?f] o by (auto simp: count_pos simp del: set_concat)
  have "a \<notin> set (todo_refs (ptodo s ! j))" if "j < length (ptodo s)" "j \<noteq> i" for j
    using total_two [OF it(1) that(1), of ?f] that(2) tot o by (simp add: count_pos)
  moreover have at: "at (putJobs cap a (runs s)) b = at (runs s) b" if "b \<noteq> a" for b
    using that by (simp add: putJobs_def pool_put_def)
  ultimately have td: "tabs (putJobs cap a (runs s)) (ptodo s ! j) = tabs (runs s) (ptodo s ! j)"
    if "j < length (ptodo s)" "j \<noteq> i" for j
    using that by (cases "ptodo s ! j" rule: todo_refs.cases) force+
  have "map (tabs (putJobs cap a (runs s))) ((ptodo s)[i := None]) = map (tabs (runs s)) (ptodo s)"
    using td t it by (intro nth_equalityI) (auto simp: nth_list_update)
  moreover have "map (map (at (putJobs cap a (runs s)))) (pqueues s) = map (map (at (runs s))) (pqueues s)"
    using n(2) at by (auto intro!: map_cong) metis
  ultimately show ?thesis using inv d n(1)
    by (auto simp: s'_def pool_inv_def p_abs_def bat_refs_def putJobs_def pool_put_def)
qed

lemma builder_op_abs:
  assumes "builder_op i f s s'" and "pool_inv s" and "i < length (pbuilders s)"
  shows "pool_inv s'" "length (pbuilders s') = length (pbuilders s)" "p_abs s' = at_builder i f (p_abs s)" "frame_of s' = frame_of s"
  using assms by (simp_all add: builder_op_def)

lemma todo_ok:
  assumes inv: "pool_inv s" and i: "i < length (pbuilders s)" and t: "ptodo s ! i = Some (a, k)"
  shows "pool_inv (s \<lparr> ptodo := (ptodo s)[i := Some (a, k')] \<rparr>)"
    "p_abs (s \<lparr> ptodo := (ptodo s)[i := Some (a, k')] \<rparr>) = (p_abs s) \<lparr> todo := (todo (p_abs s))[i := drop k' (at (runs s) a)] \<rparr>"
proof -
  have it: "i < length (ptodo s)" using inv i by (simp add: pool_inv_def)
  have "map todo_refs ((ptodo s)[i := Some (a, k')]) = map todo_refs (ptodo s)"
    using map_update_same [OF it, of todo_refs] t by (simp add: map_update)
  then have "run_refs (s \<lparr> ptodo := (ptodo s)[i := Some (a, k')] \<rparr>) = run_refs s" by (simp add: run_refs_def)
  then show "pool_inv (s \<lparr> ptodo := (ptodo s)[i := Some (a, k')] \<rparr>)" using inv by (simp add: pool_inv_def bat_refs_def)
  show "p_abs (s \<lparr> ptodo := (ptodo s)[i := Some (a, k')] \<rparr>) = (p_abs s) \<lparr> todo := (todo (p_abs s))[i := drop k' (at (runs s) a)] \<rparr>"
    by (simp add: p_abs_def map_update)
qed

lemma launch_ok:
  assumes inv: "pool_inv s" and i: "i < length (pbuilders s)" and b: "psealed (pbuilders s ! i) = (r, a) # rest"
    and s'_def: "s' = s \<lparr> pbuilders := (pbuilders s)[i := (pbuilders s ! i) \<lparr> psealed := rest \<rparr>], pinflight := pinflight s @ [a] \<rparr>"
  shows "pool_inv s'" "p_abs s' = (p_abs s) \<lparr> builders := (builders (p_abs s))[i := (builders (p_abs s) ! i) \<lparr> sealed := map (map_prod id (at (bats s))) rest \<rparr>],
    inflight := inflight (p_abs s) @ [at (bats s) a] \<rparr>"
proof -
  let ?b = "(pbuilders s ! i) \<lparr> psealed := rest \<rparr>"
  have "count_list (bat_refs s') y = count_list (bat_refs s) y" for y
    using total_update [OF i, of "\<lambda>b. count_list (builder_refs b) y" ?b] b
    by (simp add: s'_def bat_refs_def count_concat total_map builder_refs_def split: if_splits)
  then have "distinct (bat_refs s') = distinct (bat_refs s)" by (simp add: distinct_count_list)
  then show "pool_inv s'" using inv by (simp add: s'_def pool_inv_def run_refs_def)
  have "babs (bats s) ?b = (babs (bats s) (pbuilders s ! i)) \<lparr> sealed := map (map_prod id (at (bats s))) rest \<rparr>"
    by (simp add: babs_def)
  then show "p_abs s' = (p_abs s) \<lparr> builders := (builders (p_abs s))[i := (builders (p_abs s) ! i) \<lparr> sealed := map (map_prod id (at (bats s))) rest \<rparr>],
    inflight := inflight (p_abs s) @ [at (bats s) a] \<rparr>"
    using i by (simp add: s'_def p_abs_def map_update)
qed

definition simulated :: "pipe_Config \<Rightarrow> pipe_act option \<Rightarrow> ppipe \<Rightarrow> ppipe \<Rightarrow> bool" where
  "simulated c l s s' \<longleftrightarrow> (case l of None \<Rightarrow> p_abs s' = p_abs s | Some a \<Rightarrow> pipe_step c a (p_abs s) (p_abs s'))"

lemma simulatedI:
  "p_abs s' = p_abs s \<Longrightarrow> simulated c None s s'"
  "pipe_step c a (p_abs s) p \<Longrightarrow> p_abs s' = p \<Longrightarrow> simulated c (Some a) s s'"
  by (simp_all add: simulated_def)

lemma pool_step_sim:
  assumes "pool_step c rnd l s s'" and "pool_inv s"
  shows "pool_inv s' \<and> simulated c l s s'"
  using assms
proof (induction rule: pool_step.induct)
  case (OpenRun s a)
  then show ?case using open_ok [OF OpenRun(2,1) refl] by (simp add: simulated_def)
next
  case (AppendJob a s j)
  then show ?case using append_ok [OF AppendJob(2,1) refl] by (simp add: simulated_def)
next
  case (FlushRun a s i)
  note f = flush_ok [OF FlushRun(5,1,3) refl, where ns = "psenders s @ [length (at (runs s) a)]"]
  have "pipe_step c (ASend i (at (runs s) a)) (p_abs s) ((p_abs s) \<lparr> queues := (queues (p_abs s))[i := queues (p_abs s) ! i @ [at (runs s) a]],
      senders := senders (p_abs s) @ [length (at (runs s) a)] \<rparr>)"
    using FlushRun by (intro pipe_step.Send) (simp_all add: p_abs_def)
  with f show ?case by (auto intro!: simulatedI(2) simp: p_abs_def)
next
  case (EnqueueOne a s i j)
  note f = enqueue_ok [OF EnqueueOne(4,1,2) refl, where j = j and caps = "(rcap s)(a := 1)" and ns = "psenders s @ [1]"]
  have "pipe_step c (ASend i [j]) (p_abs s) ((p_abs s) \<lparr> queues := (queues (p_abs s))[i := queues (p_abs s) ! i @ [[j]]],
      senders := senders (p_abs s) @ [length [j]] \<rparr>)"
    using EnqueueOne by (intro pipe_step.Send) (simp_all add: p_abs_def)
  with f show ?case by (auto intro!: simulatedI(2) simp: p_abs_def)
next
  case (CountRun s ns1 n ns2)
  have "pipe_step c ACount (p_abs s) ((p_abs s) \<lparr> senders := ns1 @ ns2, queued := queued (p_abs s) + int n,
      stats := (stats (p_abs s)) \<lparr> enqueued := enqueued (stats (p_abs s)) + n \<rparr> \<rparr>)"
    using CountRun(1) by (intro pipe_step.Count) (simp add: p_abs_def)
  with CountRun show ?case by (auto intro!: simulatedI(2) simp: p_abs_def pool_inv_def run_refs_def bat_refs_def)
next
  case (TakeRun s i a rest)
  have i: "i < length (pbuilders s)" "ptodo s ! i = None" "i < length (pqueues s)"
    using TakeRun(1,3) by (simp_all add: pidle_def pool_inv_def)
  note f = take_ok [OF TakeRun(3) i(1,2) TakeRun(2) refl]
  have "pipe_step c AWork (p_abs s) ((p_abs s) \<lparr> queues := (queues (p_abs s))[i := map (at (runs s)) rest],
      queued := queued (p_abs s) - int (length (at (runs s) a)), todo := (todo (p_abs s))[i := at (runs s) a] \<rparr>)"
    using TakeRun(2) i(3) by (intro pipe_step.Take pidle_idle [OF TakeRun(3,1)]) (simp add: p_abs_def)
  with f show ?case by (auto intro!: simulatedI(2) simp: p_abs_def)
next
  case (AddNext i s a k x y now)
  let ?s = "s \<lparr> ptodo := (ptodo s)[i := Some (a, Suc k)] \<rparr>"
  have it: "i < length (ptodo s)" using AddNext(1,9) by (simp add: pool_inv_def)
  note t = todo_ok [OF AddNext(9,1,4), of "Suc k"]
  have p: "bat_pick ?s x" "bat_pick ?s y" using AddNext(6,7) by (simp_all add: bat_pick_def bat_refs_def)
  note f = builder_op_abs [OF padd_op [OF p AddNext(8), where i = i and c = c and rnd = rnd and now = now and j = "at (runs s) a ! k"] t(1)]
  have "pipe_step c AWork (p_abs s) ((p_abs s) \<lparr> builders := (builders (p_abs s))[i := add_job c now (at (runs s) a ! k) (builders (p_abs s) ! i)],
      todo := (todo (p_abs s))[i := drop (Suc k) (at (runs s) a)] \<rparr>)"
    using AddNext(1-5) it by (intro pipe_step.Add) (simp_all add: p_abs_def babs_def Cons_nth_drop_Suc)
  with f t(2) AddNext(1) show ?case by (auto intro!: simulatedI(2) simp: at_builder_def)
next
  case (PutRun i s a)
  then show ?case using put_run_ok [OF PutRun(5,1,4) refl] by (simp add: simulated_def)
next
  case (LingerFire s i t now x)
  have i: "i < length (pbuilders s)" using LingerFire(1) by (simp add: pidle_def)
  note f = builder_op_abs [OF pseal_op [OF LingerFire(4), where c = c and rnd = rnd] LingerFire(5) i]
  have "pipe_step c AWork (p_abs s) ((p_abs s) \<lparr> builders := (builders (p_abs s))[i := builder_step c (LingerFires now) (builders (p_abs s) ! i)] \<rparr>)"
    using LingerFire(2,3) i by (intro pipe_step.LingerTick pidle_idle [OF LingerFire(5,1)]) (simp_all add: babs_def)
  moreover have "builder_step c (LingerFires now) (builders (p_abs s) ! i) = seal SealLinger (builders (p_abs s) ! i)"
    using LingerFire(2,3) i by (simp add: builder_step_def babs_def)
  ultimately show ?case using f by (auto intro!: simulatedI(2) simp: at_builder_def)
next
  case (LaunchBatch i s r a rest)
  note f = launch_ok [OF LaunchBatch(4,1,2) refl]
  have "pipe_step c AWork (p_abs s) ((p_abs s) \<lparr> builders := (builders (p_abs s))[i := (builders (p_abs s) ! i) \<lparr> sealed := map (map_prod id (at (bats s))) rest \<rparr>],
    inflight := inflight (p_abs s) @ [at (bats s) a] \<rparr>)"
    using LaunchBatch(1-3) by (intro pipe_step.Launch [where r = r]) (simp_all add: p_abs_def babs_def)
  with f show ?case by (auto intro!: simulatedI(2))
next
  case (SettleBatch s as1 a as2 E k rt)
  note f = settle_ok [OF SettleBatch(3,1) refl, where c = c and cap = "int (bcap (bufs s a))" and rs = "add_retry rt (pretrying s)" and k = k
    and rds = "filter (\<lambda>(b, arr, bs). b \<noteq> a) (reading s)" and lts = "map snd (filter (\<lambda>(b, arr, bs). b = a) (reading s)) @ late s"]
  have "pipe_step c AWork (p_abs s) ((p_abs s) \<lparr> inflight := map (at (bats s)) as1 @ map (at (bats s)) as2,
      retrying := add_retry rt (retrying (p_abs s)), stats := k \<rparr>)"
    using SettleBatch(1,2) by (intro pipe_step.Settle) (simp_all add: p_abs_def)
  with f show ?case by (auto intro!: simulatedI(2) simp: p_abs_def)
next
  case (RetryRun s rs1 rt rs2 E)
  have "pipe_step c AWork (p_abs s) ((p_abs s) \<lparr> retrying := rs1 @ rs2, stats := retryBatch c E rt (stats (p_abs s)) \<rparr>)"
    using RetryRun(1) by (intro pipe_step.Retry) (simp add: p_abs_def)
  with RetryRun show ?case by (auto intro!: simulatedI(2) simp: p_abs_def pool_inv_def run_refs_def bat_refs_def)
next
  case (ShutdownBuilder s i x)
  have i: "i < length (pbuilders s)" "i < length (pqueues s)" using ShutdownBuilder(1,3) by (simp_all add: pidle_def pool_inv_def)
  note f = builder_op_abs [OF pdrain_op [OF ShutdownBuilder(2), where c = c and rnd = rnd] ShutdownBuilder(3) i(1)]
  have "pipe_step c (AShutdown i) (p_abs s) ((p_abs s) \<lparr> queues := (queues (p_abs s))[i := []],
      queued := queued (p_abs s) - int (length (concat (queues (p_abs s) ! i))),
      builders := (builders (p_abs s))[i := builder_shutdown (queues (p_abs s) ! i) (builders (p_abs s) ! i)],
      live := (live (p_abs s))[i := False] \<rparr>)"
    by (intro pipe_step.Shutdown pidle_idle [OF ShutdownBuilder(3,1)])
  moreover have d: "runs (pdrain c rnd i x s) = runs s" "opened (pdrain c rnd i x s) = opened s" "pqueues (pdrain c rnd i x s) = pqueues s"
    "ptodo (pdrain c rnd i x s) = ptodo s" "plive (pdrain c rnd i x s) = plive s" using f(4) by (simp_all add: frame_of_def)
  let ?s' = "(pdrain c rnd i x s) \<lparr> pqueues := (pqueues s)[i := []],
      pqueued := pqueued s - int (length (concat (map (at (runs s)) (pqueues s ! i)))), plive := (plive s)[i := False] \<rparr>"
  have "distinct (run_refs ((pdrain c rnd i x s) \<lparr> runs := runs s, opened := opened s, pqueues := (pqueues s)[i := []],
      ptodo := (ptodo s)[i := ptodo s ! i] \<rparr>))"
    using move_run_distinct [of "pdrain c rnd i x s" i "runs s" "opened s" "[]" "ptodo s ! i"] f(1,2) i d by (simp add: pool_inv_def)
  then have "distinct (run_refs ?s')" using d by (simp add: run_refs_def)
  then have "pool_inv ?s'" using f(1) d by (simp add: pool_inv_def bat_refs_def)
  moreover have "p_abs ?s' = (p_abs (pdrain c rnd i x s)) \<lparr> queues := (queues (p_abs s))[i := []],
      queued := queued (p_abs s) - int (length (concat (queues (p_abs s) ! i))), live := (live (p_abs s))[i := False] \<rparr>"
    using d i by (simp add: p_abs_def map_update)
  ultimately show ?case using f(3) i by (auto intro!: simulatedI(2) simp: at_builder_def p_abs_def)
qed (auto simp: simulated_def p_abs_def pool_inv_def run_refs_def bat_refs_def)

interpretation pooled: stuttering_refinement "pool_step c rnd" "pipe_step c" p_abs pool_inv for c rnd
proof unfold_locales
  fix s s' l a
  show "pool_inv s \<Longrightarrow> pool_step c rnd l s s' \<Longrightarrow> pool_inv s'" using pool_step_sim by blast
  show "pool_inv s \<Longrightarrow> pool_step c rnd None s s' \<Longrightarrow> p_abs s' = p_abs s"
    using pool_step_sim [of c rnd None s s'] by (simp add: simulated_def)
  show "pool_inv s \<Longrightarrow> pool_step c rnd (Some a) s s' \<Longrightarrow> pipe_step c a (p_abs s) (p_abs s')"
    using pool_step_sim [of c rnd "Some a" s s'] by (simp add: simulated_def)
qed

lemma pool_init_ok: "pool_inv (pool_init c rnd)" "p_abs (pool_init c rnd) = pipe_init c"
proof -
  have m: "map builder_refs (pbuilders (pool_init c rnd)) = map (\<lambda>i. [i]) [0..<nat (Builders c)]"
    by (simp add: pool_init_def Let_def builder_refs_def)
  have "concat (map (\<lambda>i. [i]) [0..<n]) = [0..<n]" for n by (induction n) simp_all
  then have "bat_refs (pool_init c rnd) = [0..<nat (Builders c)]"
    unfolding bat_refs_def m by (simp add: pool_init_def Let_def)
  moreover have "concat (replicate n []) = []" for n by (induction n) simp_all
  then have "run_refs (pool_init c rnd) = []" by (simp add: run_refs_def pool_init_def Let_def map_replicate)
  ultimately show "pool_inv (pool_init c rnd)" unfolding pool_inv_def by (simp add: pool_init_def Let_def)
  show "p_abs (pool_init c rnd) = pipe_init c"
    by (simp add: p_abs_def pool_init_def pipe_init_def Let_def babs_def builder_init_def map_replicate comp_def map_replicate_const)
qed

lemma pool_reach_run: "pool_reach c rnd s \<longleftrightarrow> (\<lambda>s s'. \<exists>l. pool_step c rnd l s s')\<^sup>*\<^sup>* (pool_init c rnd) s"
proof
  show "pool_reach c rnd s \<Longrightarrow> (\<lambda>s s'. \<exists>l. pool_step c rnd l s s')\<^sup>*\<^sup>* (pool_init c rnd) s"
    by (induction rule: pool_reach.induct) (auto intro: rtranclp.rtrancl_into_rtrancl)
  show "(\<lambda>s s'. \<exists>l. pool_step c rnd l s s')\<^sup>*\<^sup>* (pool_init c rnd) s \<Longrightarrow> pool_reach c rnd s"
    by (induction rule: rtranclp_induct) (auto intro: pool_reach.intros)
qed

lemma reachable_run: "(\<lambda>p p'. \<exists>a. pipe_step c a p p')\<^sup>*\<^sup>* (pipe_init c) p \<Longrightarrow> reachable c p"
  by (induction rule: rtranclp_induct) (auto intro: reachable.intros)

lemma pool_reach_inv: "pool_reach c rnd s \<Longrightarrow> pool_inv s"
  and pool_reach_abs: "pool_reach c rnd s \<Longrightarrow> reachable c (p_abs s)"
  using pooled.simulates [OF pool_init_ok(1)] reachable_run by (auto simp: pool_reach_run pool_init_ok(2))

section \<open>The arrays behind the batches\<close>

text \<open>Every batch somebody owns has an array of its own that holds its body.\<close>

definition mem_inv :: "ppipe \<Rightarrow> bool" where
  "mem_inv s \<longleftrightarrow> inj_on (\<lambda>a. barr (bufs s a)) (set (bat_refs s)) \<and>
     (\<forall>a \<in> set (bat_refs s). barr (bufs s a) < anext s \<and>
        take (length (body (at (bats s) a))) (mem s (barr (bufs s a))) = body (at (bats s) a))"

lemma mem_invD:
  assumes "mem_inv s" and "a \<in> set (bat_refs s)"
  shows "barr (bufs s a) < anext s" "take (length (body (at (bats s) a))) (mem s (barr (bufs s a))) = body (at (bats s) a)"
    "b \<in> set (bat_refs s) \<Longrightarrow> b \<noteq> a \<Longrightarrow> barr (bufs s b) \<noteq> barr (bufs s a)"
  using assms by (auto simp: mem_inv_def inj_on_def)

lemma mem_inv_sub:
  assumes "mem_inv s" and "set (bat_refs s') \<subseteq> set (bat_refs s)" and "bufs s' = bufs s" and "mem s' = mem s" and "anext s' = anext s"
    and "\<And>a. a \<in> set (bat_refs s') \<Longrightarrow> body (at (bats s') a) = body (at (bats s) a) \<or> body (at (bats s') a) = []"
  shows "mem_inv s'"
  using assms unfolding mem_inv_def by (fastforce intro: inj_on_subset)

text \<open>One batch changes its body, or its array for a new one, and no other batch does.\<close>

lemma mem_inv_change:
  assumes "mem_inv s" and "bat_refs s' = bat_refs s" and "a \<in> set (bat_refs s)"
    and "\<And>b. b \<in> set (bat_refs s) \<Longrightarrow> b \<noteq> a \<Longrightarrow> bufs s' b = bufs s b \<and> body (at (bats s') b) = body (at (bats s) b) \<and>
      mem s' (barr (bufs s b)) = mem s (barr (bufs s b))"
    and "barr (bufs s' a) = barr (bufs s a) \<and> anext s' = anext s \<or> barr (bufs s' a) = anext s \<and> anext s' = Suc (anext s)"
    and "take (length (body (at (bats s') a))) (mem s' (barr (bufs s' a))) = body (at (bats s') a)"
  shows "mem_inv s'"
proof -
  have old: "barr (bufs s b) < anext s" "take (length (body (at (bats s) b))) (mem s (barr (bufs s b))) = body (at (bats s) b)"
    if "b \<in> set (bat_refs s)" for b using mem_invD [OF assms(1) that] by simp_all
  have inj: "barr (bufs s b) = barr (bufs s d) \<Longrightarrow> b = d" if "b \<in> set (bat_refs s)" "d \<in> set (bat_refs s)" for b d
    using assms(1) that by (auto simp: mem_inv_def inj_on_def)
  have "barr (bufs s' b) \<noteq> barr (bufs s' a)" if "b \<in> set (bat_refs s)" "b \<noteq> a" for b
    using assms(3,5) assms(4) [OF that] old(1) [OF that(1)] inj [OF that(1) assms(3)] that(2) by auto
  then have "inj_on (\<lambda>a. barr (bufs s' a)) (set (bat_refs s'))"
    unfolding assms(2) inj_on_def using assms(4) inj by (metis (no_types))
  moreover have "barr (bufs s' b) < anext s' \<and> take (length (body (at (bats s') b))) (mem s' (barr (bufs s' b))) = body (at (bats s') b)"
    if b: "b \<in> set (bat_refs s')" for b
  proof (cases "b = a")
    case True
    then show ?thesis using assms(3,5,6) old(1) [OF assms(3)] by auto
  next
    case False
    then show ?thesis using assms(4) [of b] assms(5) old [of b] b unfolding assms(2) by auto
  qed
  ultimately show ?thesis by (simp add: mem_inv_def)
qed

lemma cur_ref: "i < length (pbuilders s) \<Longrightarrow> pcur (pbuilders s ! i) \<in> set (bat_refs s)"
  using nth_mem [of i "pbuilders s"] by (force simp: bat_refs_def builder_refs_def)

text \<open>What a builder's operation does to the arrays: none of a submission under way.\<close>

definition buf_op :: "nat \<Rightarrow> ppipe \<Rightarrow> ppipe \<Rightarrow> bool" where
  "buf_op i s s' \<longleftrightarrow> (pool_inv s \<and> i < length (pbuilders s) \<and> mem_inv s \<longrightarrow>
     mem_inv s' \<and> (\<forall>a \<in> set (pinflight s). bufs s' a = bufs s a))"

lemma buf_op_trans: "builder_op i f s s' \<Longrightarrow> buf_op i s s' \<Longrightarrow> buf_op i s' s'' \<Longrightarrow> buf_op i s s''"
  unfolding buf_op_def builder_op_def by (auto simp: frame_of_def)

lemma buf_op_id: "buf_op i s s"
  by (simp add: buf_op_def)

lemma ptime_buf: "buf_op i s (ptime i t s)"
  unfolding buf_op_def by (auto intro!: mem_inv_sub [of s "ptime i t s"] simp: ptime_refs) (simp_all add: ptime_def)

lemma born_buf: "buf_op i s (pmut i (\<lambda>b. b \<lparr> born := now \<rparr>) s)"
  unfolding buf_op_def by (auto intro!: mem_inv_sub [of s] simp: pmut_def bat_refs_def)

lemma take_write_at: "take n m = xs \<Longrightarrow> n = length xs \<Longrightarrow> take (n + length bs) (write_at n bs m) = xs @ bs"
  by (auto simp: write_at_def)

lemma pput_buf:
  assumes push: "\<And>b. body (push j b) = body b @ raw j"
  shows "buf_op i s (pput rnd push j i s)"
  unfolding buf_op_def
proof (intro impI, elim conjE)
  assume inv: "pool_inv s" and i: "i < length (pbuilders s)" and m: "mem_inv s"
  let ?a = "pcur (pbuilders s ! i)" and ?s' = "pput rnd push j i s" and ?n = "length (body (pcell s i))"
  have refs: "bat_refs ?s' = bat_refs s" by (simp add: pput_def pmut_def pwrite_def Let_def bat_refs_def)
  have a: "?a \<in> set (bat_refs s)" by (rule cur_ref [OF i])
  have fl: "?a \<notin> set (pinflight s)" using own_cur(3) inv i by (simp add: pool_inv_def)
  note old = mem_invD [OF m a]
  have body: "body (at (bats ?s') b) = (if b = ?a then body (pcell s i) @ raw j else body (at (bats s) b))" for b
    by (simp add: pput_def pmut_def pwrite_def Let_def push)
  show "mem_inv ?s' \<and> (\<forall>b \<in> set (pinflight s). bufs ?s' b = bufs s b)"
  proof (cases "?n + length (raw j) \<le> bcap (bufs s ?a)")
    case True
    then have s': "bufs ?s' = bufs s" "anext ?s' = anext s"
        "mem ?s' = (mem s)(barr (bufs s ?a) := write_at ?n (raw j) (mem s (barr (bufs s ?a))))"
      by (simp_all add: pput_def pmut_def pwrite_def Let_def)
    have "take (?n + length (raw j)) (write_at ?n (raw j) (mem s (barr (bufs s ?a)))) = body (pcell s i) @ raw j"
      using take_write_at [OF old(2)] by simp
    then have "mem_inv ?s'" using old(3) by (intro mem_inv_change [OF m refs a]) (auto simp: s' body)
    then show ?thesis using s' by simp
  next
    case False
    let ?cap = "grow_cap rnd (?n + length (raw j)) (bcap (bufs s ?a))"
    from False have s': "bufs ?s' = (bufs s)(?a := \<lparr> barr = anext s, bcap = ?cap \<rparr>)" "anext ?s' = Suc (anext s)"
        "mem ?s' = (mem s)(anext s := take ?n (mem s (barr (bufs s ?a))) @ raw j @ replicate (?cap - (?n + length (raw j))) 0)"
      by (simp_all add: pput_def pmut_def pwrite_def Let_def)
    have "mem_inv ?s'" using old(2) mem_invD(1) [OF m] by (intro mem_inv_change [OF m refs a]) (force simp: s' body)+
    then show ?thesis using s' fl by auto
  qed
qed

lemma pseal_buf:
  assumes x: "bat_pick s x"
  shows "buf_op i s (pseal c rnd r i x s)"
  unfolding buf_op_def
proof (intro impI, elim conjE)
  assume inv: "pool_inv s" and i: "i < length (pbuilders s)" and m: "mem_inv s"
  let ?s' = "pseal c rnd r i x s" and ?b = "pbuilders s ! i"
  have d: "distinct (bat_refs s)" and bl: "\<forall>a \<in> set (free (bats s)). at (bats s) a = newBatch"
    using inv by (simp_all add: pool_inv_def)
  have fl: "x \<notin> set (pinflight s)" by (rule pick_other(2) [OF d x])
  show "mem_inv ?s' \<and> (\<forall>a \<in> set (pinflight s). bufs ?s' a = bufs s a)"
  proof (cases "jobs (pcell s i) = []")
    case False
    let ?b' = "?b \<lparr> pcur := x, ptimer := None, psealed := psealed ?b @ [(r, pcur ?b)] \<rparr>"
    have "set (builder_refs ?b') = insert x (set (builder_refs ?b))" by (auto simp: builder_refs_def)
    moreover have "set (builder_refs ?b) \<subseteq> set (concat (map builder_refs (pbuilders s)))" using nth_mem [OF i] by auto
    moreover have "set (concat (map builder_refs ((pbuilders s)[i := ?b']))) \<subseteq>
        set (builder_refs ?b') \<union> set (concat (map builder_refs (pbuilders s)))"
      using set_update_subset_insert [of "pbuilders s" i ?b'] by auto
    ultimately have "set (concat (map builder_refs ((pbuilders s)[i := ?b']))) \<subseteq> insert x (set (concat (map builder_refs (pbuilders s))))"
      by blast
    then have refs: "set (bat_refs ?s') \<subseteq> insert x (set (bat_refs s))"
      using False set_remove1_subset [of x "free (bats s)"]
      by (auto simp: pseal_def pnewBatch_def Let_def bat_refs_def pool_get_def simp del: set_concat)
    have at: "at (bats ?s') = (at (bats s))(x := newBatch)"
      using False pool_get_at [OF bl] by (simp add: pseal_def pnewBatch_def Let_def)
    show ?thesis
    proof (cases "x \<in> set (free (bats s))")
      case True
      then have xs: "insert x (set (bat_refs s)) = set (bat_refs s)" by (auto simp: bat_refs_def)
      have s': "bufs ?s' = bufs s" "mem ?s' = mem s" "anext ?s' = anext s"
        using True False by (simp_all add: pseal_def pnewBatch_def Let_def)
      show ?thesis using refs xs s' by (auto intro!: mem_inv_sub [OF m] simp: at newBatch_def)
    next
      case new: False
      then have nx: "x \<notin> set (bat_refs s)" using x by (simp add: bat_pick_def)
      have s': "bufs ?s' = (bufs s)(x := \<lparr> barr = anext s, bcap = fresh_cap c rnd \<rparr>)" "anext ?s' = Suc (anext s)"
          "mem ?s' = (mem s)(anext s := replicate (fresh_cap c rnd) 0)"
        using new False by (simp_all add: pseal_def pnewBatch_def Let_def)
      have lt: "barr (bufs s b) < anext s" if "b \<in> set (bat_refs s)" for b using mem_invD(1) [OF m that] .
      have "inj_on (\<lambda>a. barr (bufs ?s' a)) (insert x (set (bat_refs s)))"
        using m nx lt unfolding s' inj_on_def mem_inv_def by (auto dest!: lt)
      then have "inj_on (\<lambda>a. barr (bufs ?s' a)) (set (bat_refs ?s'))" using refs by (rule inj_on_subset)
      moreover have "barr (bufs ?s' b) < anext ?s' \<and> take (length (body (at (bats ?s') b))) (mem ?s' (barr (bufs ?s' b))) = body (at (bats ?s') b)"
        if "b \<in> insert x (set (bat_refs s))" for b
        using that nx mem_invD(1,2) [OF m] lt by (cases "b = x") (fastforce simp: s' at newBatch_def)+
      ultimately have "mem_inv ?s'" using refs unfolding mem_inv_def by blast
      then show ?thesis using fl s' by auto
    qed
  qed (use m in \<open>simp add: pseal_def\<close>)
qed

lemma padd_buf:
  assumes "bat_pick s x" and "bat_pick s y" and "x \<noteq> y" and "i < length (pbuilders s)"
  shows "buf_op i s (padd c rnd now j i x y s)"
proof -
  define s1 where "s1 = (if dependsOnBatch (raw j) (ids (pcell s i)) then pseal c rnd SealDep i x s else s)"
  define s2 where "s2 = (if jobs (pcell s1 i) = []
      then ptime i (Some (now + Linger c)) (pmut i (\<lambda>b. b \<lparr> born := now \<rparr>) s1) else s1)"
  have 1: "builder_op i (\<lambda>b. if dependsOnBatch (raw j) (ids (cur b)) then seal SealDep b else b) s s1"
    unfolding s1_def by (rule builder_op_if) (rule pseal_op [OF assms(1)], rule builder_op_id)
  have 2: "builder_op i (\<lambda>b. if jobs (cur b) = []
      then b \<lparr> cur := (cur b) \<lparr> born := now \<rparr> \<rparr> \<lparr> timer := Some (now + Linger c) \<rparr> else b) s1 s2"
    unfolding s2_def by (rule builder_op_if) (rule builder_op_trans [OF pmut_op ptime_op], rule builder_op_id)
  have "buf_op i s s1" unfolding s1_def using pseal_buf [OF assms(1)] buf_op_id by simp
  moreover have "buf_op i s1 s2"
    unfolding s2_def using buf_op_trans [OF pmut_op born_buf ptime_buf] buf_op_id by simp
  ultimately have "buf_op i s s2" by (rule buf_op_trans [OF 1])
  moreover have "buf_op i s2 (pput rnd push_job j i s2)" by (rule pput_buf) (simp add: push_job_def)
  ultimately have "buf_op i s (padd_front c rnd now j i x s)"
    unfolding padd_front_def s1_def [symmetric] Let_def s2_def [symmetric] by (rule buf_op_trans [OF builder_op_trans [OF 1 2]])
  moreover have "buf_op i (padd_front c rnd now j i x s) (padd c rnd now j i x y s)"
    unfolding padd_split padd_back_def using pseal_buf [OF padd_front_pick [OF assms]] buf_op_id by simp
  ultimately show ?thesis by (rule buf_op_trans [OF padd_front_op [OF assms(1)]])
qed

lemma pdrain_jobs_buf: "buf_op i s (pdrain_jobs rnd i js s)"
proof (induction js arbitrary: s)
  case (Cons j js)
  have "buf_op i s (pput rnd drain_job j i s)" by (rule pput_buf) (simp add: drain_job_def)
  then show ?case using buf_op_trans [OF pput_op _ Cons.IH] by (simp add: pdrain_jobs_def)
qed (simp add: pdrain_jobs_def buf_op_id)

lemma pdrain_buf: "bat_pick s x \<Longrightarrow> buf_op i s (pdrain c rnd i x s)"
  unfolding pdrain_split by (rule buf_op_trans [OF pdrain_jobs_op pdrain_jobs_buf pseal_buf]) simp

section \<open>What the transport reads\<close>

definition read_ok :: "ppipe \<Rightarrow> bool" where
  "read_ok s \<longleftrightarrow> mem_inv s \<and>
     (\<forall>(a, arr, bs) \<in> set (reading s). a \<in> set (pinflight s) \<and> arr = barr (bufs s a) \<and> body (at (bats s) a) = bs)"

lemma buf_op_read:
  assumes "builder_op i f s s'" and "buf_op i s s'" and "pool_inv s" and "i < length (pbuilders s)" and "read_ok s"
  shows "read_ok s'"
proof -
  note f = builder_op_abs [OF assms(1,3,4)]
  have r: "reading s' = reading s" "pinflight s' = pinflight s" using f(4) by (simp_all add: frame_of_def)
  have "inflight (p_abs s') = inflight (p_abs s)" using f(3) by (simp add: at_builder_def)
  then have "map (at (bats s')) (pinflight s) = map (at (bats s)) (pinflight s)" using r(2) by (simp add: p_abs_def)
  moreover have "mem_inv s' \<and> (\<forall>a \<in> set (pinflight s). bufs s' a = bufs s a)"
    using assms(2-5) by (simp add: buf_op_def read_ok_def)
  ultimately show ?thesis using assms(5) r by (fastforce simp: read_ok_def)
qed

lemma read_ok_frame:
  assumes "read_ok s" and "bat_refs s' = bat_refs s" and "bats s' = bats s" and "bufs s' = bufs s" and "mem s' = mem s"
    and "anext s' = anext s" and "set (reading s') \<subseteq> set (reading s)" and "pinflight s' = pinflight s"
  shows "read_ok s'"
proof -
  have "mem_inv s" using assms(1) by (simp add: read_ok_def)
  then have "mem_inv s'" by (rule mem_inv_sub) (simp_all add: assms(2-6))
  then show ?thesis using assms by (auto simp: read_ok_def)
qed

lemma settle_read:
  assumes "pool_inv s" and "read_ok s" and "pinflight s = as1 @ a # as2"
    and s'_def: "s' = s \<lparr> bats := precycle c cap a (bats s), pinflight := as1 @ as2, pretrying := rs, pstats := k,
      reading := filter (\<lambda>(b, arr, bs). b \<noteq> a) (reading s), late := lts \<rparr>"
  shows "read_ok s'"
proof -
  have at: "body (at (bats s') b) = body (at (bats s) b) \<or> body (at (bats s') b) = []" "b \<noteq> a \<Longrightarrow> at (bats s') b = at (bats s) b" for b
    by (auto simp: s'_def precycle_def pool_put_def recycle_def split: if_splits)
  have "set (bat_refs s') \<subseteq> set (bat_refs s)"
    using assms(3) by (auto simp: s'_def bat_refs_def precycle_def pool_put_def split: option.splits)
  moreover have "mem_inv s" using assms(2) by (simp add: read_ok_def)
  ultimately have "mem_inv s'" using at(1) by - (rule mem_inv_sub [of s s'], auto simp: s'_def)
  then show ?thesis using assms(2,3) at(2) by (fastforce simp: read_ok_def s'_def)
qed

lemma read_ok_step:
  assumes "pool_step c rnd l s s'" and "pool_inv s" and "read_ok s"
  shows "read_ok s'"
  using assms
proof (induction rule: pool_step.induct)
  case (AddNext i s a k x y now)
  let ?s = "s \<lparr> ptodo := (ptodo s)[i := Some (a, Suc k)] \<rparr>"
  note t = todo_ok [OF AddNext(9,1,4), of "Suc k"]
  have p: "bat_pick ?s x" "bat_pick ?s y" using AddNext(6,7) by (simp_all add: bat_pick_def bat_refs_def)
  have "read_ok ?s" by (rule read_ok_frame [OF AddNext(10)]) (simp_all add: bat_refs_def)
  then show ?case using buf_op_read [OF padd_op [OF p AddNext(8)] padd_buf [OF p AddNext(8)] t(1)] AddNext(1) by simp
next
  case (LingerFire s i t now x)
  then show ?case using buf_op_read [OF pseal_op pseal_buf] by (simp add: pidle_def)
next
  case (LaunchBatch i s r a rest)
  let ?s' = "s \<lparr> pbuilders := (pbuilders s)[i := (pbuilders s ! i) \<lparr> psealed := rest \<rparr>], pinflight := pinflight s @ [a] \<rparr>"
  have "count_list (bat_refs ?s') y = count_list (bat_refs s) y" for y
    using total_update [OF LaunchBatch(1), of "\<lambda>b. count_list (builder_refs b) y" "(pbuilders s ! i) \<lparr> psealed := rest \<rparr>"] LaunchBatch(2)
    by (simp add: bat_refs_def count_concat total_map builder_refs_def split: if_splits)
  then have "set (bat_refs ?s') = set (bat_refs s)" by (auto simp: count_pos)
  moreover have "mem_inv s" using LaunchBatch(5) by (simp add: read_ok_def)
  ultimately have "mem_inv ?s'" by - (rule mem_inv_sub [of s ?s'], auto)
  then show ?case using LaunchBatch(5) by (auto simp: read_ok_def)
next
  case (Post a s)
  have a: "a \<in> set (bat_refs s)" using Post(1) by (simp add: bat_refs_def)
  have m: "mem_inv s" using Post(3) by (simp add: read_ok_def)
  have "mem_inv (s \<lparr> reading := rs \<rparr>)" for rs using m by (rule mem_inv_sub) (simp_all add: bat_refs_def)
  then show ?case using Post mem_invD(2) [OF m a] by (auto simp: read_ok_def)
next
  case (SettleBatch s as1 a as2 E k rt)
  show ?case by (rule settle_read [OF SettleBatch(3,4,1) refl])
next
  case (ShutdownBuilder s i x)
  have "read_ok (pdrain c rnd i x s)"
    using buf_op_read [OF pdrain_op pdrain_buf] ShutdownBuilder by (simp add: pidle_def)
  then show ?case by (rule read_ok_frame) (simp_all add: bat_refs_def)
next
  case (BodyClosed s rs1 r rs2)
  show ?case by (rule read_ok_frame [OF BodyClosed(3)]) (auto simp: bat_refs_def BodyClosed(1))
qed (erule read_ok_frame, simp_all add: bat_refs_def)+

lemma pool_init_read: "read_ok (pool_init c rnd)"
proof -
  have m: "map builder_refs (pbuilders (pool_init c rnd)) = map (\<lambda>i. [i]) [0..<nat (Builders c)]"
    by (simp add: pool_init_def Let_def builder_refs_def)
  have "concat (map (\<lambda>i. [i]) [0..<n]) = [0..<n]" for n by (induction n) simp_all
  then have "bat_refs (pool_init c rnd) = [0..<nat (Builders c)]"
    unfolding bat_refs_def m by (simp add: pool_init_def Let_def)
  then show ?thesis unfolding read_ok_def mem_inv_def by (simp add: pool_init_def Let_def newBatch_def inj_on_def)
qed

lemma pool_reach_read: "pool_reach c rnd s \<Longrightarrow> read_ok s"
proof (induction rule: pool_reach.induct)
  case (Step s l s')
  then show ?case using read_ok_step pool_reach_inv by blast
qed (rule pool_init_read)

section \<open>Runs used below\<close>

text \<open>A pipe that seals every transaction by itself.\<close>

definition one_tx_config :: pipe_Config where
  "one_tx_config = pipe_defaults (sample_config \<lparr> BatchTxs := 1 \<rparr>)"

lemma one_tx [simp]: "BatchTxs one_tx_config = 1" "Builders one_tx_config = 4" "Inflight one_tx_config = 4"
  by (simp_all add: one_tx_config_def pipe_defaults_def sample_config_def or_default_def maxServerBatchTxs_def round_pow2.simps)

lemma one_tx_cap [simp]: "fresh_cap one_tx_config rnd = rnd 512"
  by (simp add: fresh_cap_def grow_empty_def bodyHintPerTx_def one_tx_config_def pipe_defaults_def sample_config_def
      or_default_def maxServerBatchTxs_def)

text \<open>The first builder has nothing on its queue, nothing taken and nothing sealed.\<close>

definition quiet :: "ppipe \<Rightarrow> bool" where
  "quiet s \<longleftrightarrow> pbuilders s \<noteq> [] \<and> pqueues s \<noteq> [] \<and> ptodo s \<noteq> [] \<and> plive s ! 0 \<and> pqueues s ! 0 = [] \<and>
     ptodo s ! 0 = None \<and> psealed (pbuilders s ! 0) = []"

text \<open>Adding to an empty batch that one transaction fills: a write in place, then the seal.\<close>

lemma padd_first:
  fixes j :: job
  assumes b: "pcell s 0 = newBatch" and ne: "pbuilders s \<noteq> []" and sl: "psealed (pbuilders s ! 0) = []"
    and fits: "length (raw j) \<le> bcap (bufs s (pcur (pbuilders s ! 0)))"
  shows "padd one_tx_config rnd 0 j 0 x y s =
    (let bl = pbuilders s ! 0; a = pcur bl; arr = barr (bufs s a) in
     (pnewBatch one_tx_config rnd y (s \<lparr> mem := (mem s)(arr := write_at 0 (raw j) (mem s arr)),
        bats := mutate a (\<lambda>_. push_job j (newBatch \<lparr> born := 0 \<rparr>)) (bats s) \<rparr>))
      \<lparr> pbuilders := (pbuilders s)[0 := bl \<lparr> pcur := y, ptimer := None, psealed := [(SealSize, a)] \<rparr>] \<rparr>)"
proof -
  let ?c = one_tx_config and ?b = "pbuilders s ! 0" and ?bb = "push_job j (newBatch \<lparr> born := 0 \<rparr>)"
  let ?arr = "barr (bufs s (pcur ?b))"
  define t1 where "t1 = s \<lparr> bats := mutate (pcur ?b) (\<lambda>_. newBatch \<lparr> born := 0 \<rparr>) (bats s),
    pbuilders := (pbuilders s)[0 := ?b \<lparr> ptimer := Some (Linger ?c) \<rparr>] \<rparr>"
  define t2 where "t2 = t1 \<lparr> mem := (mem s)(?arr := write_at 0 (raw j) (mem s ?arr)), bats := mutate (pcur ?b) (\<lambda>_. ?bb) (bats s) \<rparr>"
  have 1: "ptime 0 (Some (0 + Linger ?c)) (pmut 0 (\<lambda>b. b \<lparr> born := 0 \<rparr>) s) = t1"
    using b by (simp add: ptime_def pmut_def t1_def mutate_def)
  have c1: "pbuilders t1 ! 0 = ?b \<lparr> ptimer := Some (Linger ?c) \<rparr>" "bufs t1 = bufs s" "mem t1 = mem s" "anext t1 = anext s"
      "pcell t1 0 = newBatch \<lparr> born := 0 \<rparr>" using ne by (simp_all add: t1_def)
  have 2: "pput rnd push_job j 0 t1 = t2"
    using c1 fits by (simp add: pput_def pwrite_def pmut_def Let_def t2_def newBatch_def) (simp add: t1_def mutate_def newBatch_def)
  have c2: "pcell t2 0 = ?bb" "pbuilders t2 = pbuilders t1" "bats t2 = mutate (pcur ?b) (\<lambda>_. ?bb) (bats s)" "bufs t2 = bufs s"
      "anext t2 = anext s" "mem t2 = (mem s)(?arr := write_at 0 (raw j) (mem s ?arr))"
    using c1(1) by (simp_all add: t2_def c1)
  have "padd_front ?c rnd 0 j 0 x s = t2" using b 1 2 by (simp add: padd_front_def pseal_def newBatch_def)
  moreover have "padd_back ?c rnd 0 y t2 = pseal ?c rnd SealSize 0 y t2"
    using c2(1) by (simp add: padd_back_def push_job_def newBatch_def)
  moreover have "pseal ?c rnd SealSize 0 y t2 = (pnewBatch ?c rnd y t2) \<lparr>
      pbuilders := (pbuilders s)[0 := ?b \<lparr> pcur := y, ptimer := None, psealed := [(SealSize, pcur ?b)] \<rparr>] \<rparr>"
    using c2(1) c1(1) sl by (simp add: pseal_def Let_def c2(2) push_job_def) (simp add: t1_def)
  ultimately show ?thesis using c2(3-6)
    by (simp add: padd_split pnewBatch_def Let_def) (simp add: t2_def t1_def)
qed

text \<open>
  One transaction through the first builder: it fills the open batch, which is
  sealed, replaced by \<open>y\<close> and put in flight.
\<close>

lemma tx_round:
  fixes j :: job
  assumes r: "pool_reach one_tx_config rnd s" and q: "quiet s" and i: "length (pinflight s) < 4"
    and y: "bat_pick s y" and b: "pcell s 0 = newBatch" and ne: "y \<noteq> pcur (pbuilders s ! 0)"
    and fits: "length (raw j) \<le> bcap (bufs s (pcur (pbuilders s ! 0)))"
  shows "\<exists>s' b. pool_reach one_tx_config rnd s' \<and> quiet s' \<and> body b = raw j \<and>
    bats s' = pool_get newBatch y (mutate (pcur (pbuilders s ! 0)) (\<lambda>_. b) (bats s)) \<and>
    pbuilders s' = (pbuilders s)[0 := (pbuilders s ! 0) \<lparr> pcur := y, ptimer := None, psealed := [] \<rparr>] \<and>
    pinflight s' = pinflight s @ [pcur (pbuilders s ! 0)] \<and> reading s' = reading s \<and> late s' = late s \<and>
    bufs s' = (if y \<in> set (free (bats s)) then bufs s else (bufs s)(y := \<lparr> barr = anext s, bcap = rnd 512 \<rparr>)) \<and>
    mem s' = (let arr = barr (bufs s (pcur (pbuilders s ! 0))); m = (mem s)(arr := write_at 0 (raw j) (mem s arr)) in
      if y \<in> set (free (bats s)) then m else m(anext s := replicate (rnd 512) 0)) \<and>
    anext s' = (if y \<in> set (free (bats s)) then anext s else Suc (anext s))"
proof -
  define c where "c = one_tx_config"
  obtain a where a: "a \<notin> set (run_refs s)" using ex_new_if_finite [OF infinite_UNIV_nat finite_set] by blast
  have "finite (insert y (set (bat_refs s)))" by simp
  then obtain x where x: "x \<noteq> y" "x \<notin> set (bat_refs s)"
    using ex_new_if_finite [OF infinite_UNIV_nat] by (metis insertI1 insertI2)
  let ?b = "pbuilders s ! 0"
  define bb where "bb = push_job j (newBatch \<lparr> born := 0 \<rparr>)"
  define s1 where "s1 = s \<lparr> runs := mutate a (\<lambda>_. [j]) (runs s), rcap := (rcap s)(a := 1),
    pqueues := (pqueues s)[0 := pqueues s ! 0 @ [a]], psenders := psenders s @ [1] \<rparr>"
  define s2 where "s2 = s1 \<lparr> pqueues := (pqueues s1)[0 := []], pqueued := pqueued s1 - int (length (at (runs s1) a)),
    ptodo := (ptodo s1)[0 := Some (a, 0)] \<rparr>"
  define s3 where "s3 = padd c rnd 0 (at (runs s2) a ! 0) 0 x y (s2 \<lparr> ptodo := (ptodo s2)[0 := Some (a, Suc 0)] \<rparr>)"
  define s4 where "s4 = s3 \<lparr> pbuilders := (pbuilders s3)[0 := (pbuilders s3 ! 0) \<lparr> psealed := [] \<rparr>],
    pinflight := pinflight s3 @ [pcur ?b] \<rparr>"
  define s5 where "s5 = s4 \<lparr> runs := putJobs (rcap s4 a) a (runs s4), ptodo := (ptodo s4)[0 := None] \<rparr>"
  have s3: "s3 = s2 \<lparr> ptodo := (ptodo s2)[0 := Some (a, Suc 0)],
      bats := pool_get newBatch y (mutate (pcur ?b) (\<lambda>_. bb) (bats s)),
      pbuilders := (pbuilders s)[0 := ?b \<lparr> pcur := y, ptimer := None, psealed := [(SealSize, pcur ?b)] \<rparr>],
      bufs := (if y \<in> set (free (bats s)) then bufs s else (bufs s)(y := \<lparr> barr = anext s, bcap = rnd 512 \<rparr>)),
      mem := (let arr = barr (bufs s (pcur ?b)); m = (mem s)(arr := write_at 0 (raw j) (mem s arr)) in
        if y \<in> set (free (bats s)) then m else m(anext s := replicate (rnd 512) 0)),
      anext := (if y \<in> set (free (bats s)) then anext s else Suc (anext s)) \<rparr>"
    using padd_first [of "s2 \<lparr> ptodo := (ptodo s2)[0 := Some (a, Suc 0)] \<rparr>" j rnd x y] q b fits
    unfolding s3_def c_def [symmetric]
    by (simp add: s2_def s1_def quiet_def c_def pnewBatch_def Let_def bb_def)
  have "pool_step c rnd (Some (ASend 0 [j])) s s1"
    unfolding s1_def using a q by (intro pool_step.EnqueueOne) (simp_all add: quiet_def queue_depth_pos)
  then have "pool_reach c rnd s1" using r by (auto simp: c_def intro: pool_reach.Step)
  moreover have "pool_step c rnd (Some AWork) s1 s2"
    unfolding s2_def using q by (intro pool_step.TakeRun) (simp_all add: s1_def pidle_def quiet_def)
  ultimately have "pool_reach c rnd s2" by (rule pool_reach.Step)
  moreover have "bat_pick s2 y" "bat_pick s2 x" using x y by (simp_all add: s2_def s1_def bat_pick_def bat_refs_def)
  then have "pool_step c rnd (Some AWork) s2 s3"
    unfolding s3_def using q x(1) by (intro pool_step.AddNext) (simp_all add: s1_def s2_def quiet_def)
  ultimately have "pool_reach c rnd s3" by (rule pool_reach.Step)
  moreover have "pool_step c rnd (Some AWork) s3 s4"
    unfolding s4_def using q i by (intro pool_step.LaunchBatch) (simp_all add: s3 s2_def s1_def quiet_def c_def)
  ultimately have "pool_reach c rnd s4" by (rule pool_reach.Step)
  moreover have "pool_step c rnd None s4 s5"
    unfolding s5_def using q by (intro pool_step.PutRun) (simp_all add: s4_def s3 s2_def s1_def quiet_def)
  ultimately have "pool_reach c rnd s5" by (rule pool_reach.Step)
  then show ?thesis using q
    by (intro exI [of _ s5] exI [of _ bb])
      (simp add: s5_def s4_def s3 s2_def s1_def c_def quiet_def bb_def push_job_def newBatch_def)
qed

text \<open>A batch in flight whose request is being read, as the three other builders sit idle.\<close>

lemma first_request:
  fixes j :: job
  assumes "length (raw j) \<le> rnd 512"
  shows "\<exists>s. pool_reach one_tx_config rnd s \<and> quiet s \<and> reading s = [(0, 0, raw j)] \<and> late s = [] \<and> pinflight s = [0] \<and>
    body (at (bats s) 0) = raw j \<and> at (bats s) 4 = newBatch \<and> free (bats s) = [] \<and>
    map builder_refs (pbuilders s) = [[4], [1], [2], [3]] \<and> bufs s 0 = \<lparr> barr = 0, bcap = rnd 512 \<rparr> \<and>
    bufs s 4 = \<lparr> barr = 4, bcap = rnd 512 \<rparr> \<and> anext s = 5 \<and> mem s 0 = write_at 0 (raw j) (replicate (rnd 512) 0)"
proof -
  define s0 where "s0 = pool_init one_tx_config rnd"
  have r: "pool_reach one_tx_config rnd s0" unfolding s0_def by (rule pool_reach.Init)
  have b0: "pbuilders s0 = map (\<lambda>i. \<lparr> pcur = i, ptimer = None, psealed = [] \<rparr>) [0, 1, 2, 3]"
    "pinflight s0 = []" "reading s0 = []" "bats s0 = \<lparr> at = (\<lambda>_. newBatch), free = [] \<rparr>"
    "late s0 = []" "bufs s0 = (\<lambda>a. \<lparr> barr = a, bcap = rnd 512 \<rparr>)" "mem s0 = (\<lambda>_. replicate (rnd 512) 0)" "anext s0 = 4"
    by (simp_all add: s0_def pool_init_def Let_def upt_rec)
  have q: "quiet s0" by (simp add: s0_def pool_init_def Let_def quiet_def)
  have "bat_pick s0 4" by (simp add: bat_pick_def bat_refs_def b0 builder_refs_def)
  from tx_round [OF r q _ this, where j = j] b0 assms obtain s1 b where s1: "pool_reach one_tx_config rnd s1" "quiet s1" "body b = raw j"
    "bats s1 = pool_get newBatch 4 (mutate 0 (\<lambda>_. b) (bats s0))"
    "pbuilders s1 = (pbuilders s0)[0 := (pbuilders s0 ! 0) \<lparr> pcur := 4, ptimer := None, psealed := [] \<rparr>]"
    "pinflight s1 = [0]" "reading s1 = []" "late s1 = []" "bufs s1 = (bufs s0)(4 := \<lparr> barr = 4, bcap = rnd 512 \<rparr>)"
    "mem s1 0 = write_at 0 (raw j) (replicate (rnd 512) 0)" "anext s1 = 5" by (auto simp: Let_def)
  define s2 where "s2 = s1 \<lparr> reading := (0, barr (bufs s1 0), take (length (body (at (bats s1) 0))) (mem s1 (barr (bufs s1 0)))) # reading s1 \<rparr>"
  have "pool_step one_tx_config rnd None s1 s2" unfolding s2_def by (intro pool_step.Post) (simp add: s1(6))
  with s1(1) have "pool_reach one_tx_config rnd s2" by (rule pool_reach.Step)
  moreover have at: "at (bats s1) = (\<lambda>_. newBatch)(0 := b)" "free (bats s1) = []"
    using s1(4) b0(4) by (simp_all add: pool_get_def mutate_def fun_eq_iff)
  moreover have "barr (bufs s1 0) = 0" "bufs s1 0 = \<lparr> barr = 0, bcap = rnd 512 \<rparr>" "bufs s1 4 = \<lparr> barr = 4, bcap = rnd 512 \<rparr>"
    using s1(9) b0(6) by simp_all
  ultimately show ?thesis using s1(2,3,5-8,10,11)
    by (intro exI [of _ s2]) (simp add: s2_def b0(1) quiet_def builder_refs_def write_at_def)
qed

lemma refs_update:
  assumes "map builder_refs bs = [p] # rest" and "builder_refs b = [q]"
  shows "map builder_refs (bs[0 := b]) = [q] # rest"
  using assms by (cases bs) simp_all

lemma overwritten: "take (length xs) (write_at 0 ys (write_at 0 xs zs)) = take (length xs) (ys @ drop (length ys) xs)"
  by (auto simp: write_at_def)

section \<open>Properties\<close>

text \<open>
  C10: Recycling is invisible.  Every state the pipe reaches on pooled slices and
  batches stands for a reachable state of the pipe that passes values, with
  every run and every batch owned once: by the pool, a session, a queue, a
  builder or a submission.  So what is proved of the value model, the
  accounting of every transaction included, holds of the pipe that reuses
  memory, whatever the pools return and however the runtime rounds allocations.
\<close>

theorem pooled_pipe_refines:
  assumes "pool_reach c rnd s"
  shows "reachable c (p_abs s) \<and> distinct (bat_refs s) \<and> distinct (run_refs s)"
  using pool_reach_abs [OF assms] pool_reach_inv [OF assms] by (simp add: pool_inv_def)

definition first_tx :: job where
  "first_tx = \<lparr> raw = [1, 2, 3], jid = replicate 32 6 \<rparr>"

definition second_tx :: job where
  "second_tx = \<lparr> raw = [9, 8], jid = replicate 32 5 \<rparr>"

theorem pooled_pipe_refines_witness:
  "\<exists>s. pool_reach one_tx_config (\<lambda>n. n) s \<and> pinflight s = [0] \<and> reachable one_tx_config (p_abs s) \<and>
     map body (inflight (p_abs s)) = [raw first_tx]"
proof -
  obtain s where s: "pool_reach one_tx_config (\<lambda>n. n) s" "pinflight s = [0]" "body (at (bats s) 0) = raw first_tx"
    using first_request [of first_tx "\<lambda>n. n"] by (auto simp: first_tx_def)
  then show ?thesis using pooled_pipe_refines [OF s(1)] by (auto simp: p_abs_def)
qed

text \<open>
  C19: A request keeps its bytes while its submission runs.  In every reachable
  state, whatever the pools return, however the buffers grow and however many
  attempts a submission makes, an array that the transport reads for a
  submission under way belongs to that submission's batch and holds the bytes
  the request was made with: no builder writes to it before the submission
  settles.
\<close>

theorem request_body_stable:
  assumes "pool_reach c rnd s" and "(a, arr, bs) \<in> set (reading s)"
  shows "a \<in> set (pinflight s) \<and> take (length bs) (mem s arr) = bs \<and>
    (\<forall>b \<in> set (bat_refs s). b \<noteq> a \<longrightarrow> barr (bufs s b) \<noteq> arr)"
proof -
  have ok: "mem_inv s" "a \<in> set (pinflight s)" "arr = barr (bufs s a)" "body (at (bats s) a) = bs"
    using pool_reach_read [OF assms(1)] assms(2) by (auto simp: read_ok_def)
  have a: "a \<in> set (bat_refs s)" using ok(2) by (simp add: bat_refs_def)
  show ?thesis using ok mem_invD(2,3) [OF ok(1) a] by auto
qed

theorem request_body_stable_witness:
  "\<exists>s. pool_reach one_tx_config (\<lambda>n. n) s \<and> reading s = [(0, 0, raw first_tx)] \<and>
     take (length (raw first_tx)) (mem s 0) = raw first_tx"
proof -
  obtain s where s: "pool_reach one_tx_config (\<lambda>n. n) s" "reading s = [(0, 0, raw first_tx)]"
    using first_request [of first_tx "\<lambda>n. n"] by (auto simp: first_tx_def)
  then show ?thesis using request_body_stable [OF s(1), of 0 0 "raw first_tx"] by auto
qed

text \<open>
  C36: A request that outlives its submission can change under the transport.
  The HTTP client may return while the body is still being sent, and the settled
  batch goes back to the pool with its array.  With one transaction per batch,
  and an allocator that gives the 512 bytes asked for and at most the 2048 the
  pool accepts, for any two transactions of at most 512 bytes there is a run in
  which a request made with the first is still being read and its array holds
  the second, followed by what is left of the first.
\<close>

theorem recycled_body_overwritten:
  fixes j1 j2 :: job
  assumes "512 \<le> rnd 512" and "rnd 512 \<le> 2048" and "length (raw j1) \<le> 512" and "length (raw j2) \<le> 512"
  shows "\<exists>s arr. pool_reach one_tx_config rnd s \<and> (arr, raw j1) \<in> set (late s) \<and>
    take (length (raw j1)) (mem s arr) = take (length (raw j1)) (raw j2 @ drop (length (raw j2)) (raw j1))"
proof -
  define c where "c = one_tx_config"
  have len: "length (raw j1) \<le> rnd 512" "length (raw j2) \<le> rnd 512" using assms by linarith+
  obtain s where s: "pool_reach c rnd s" "quiet s" "reading s = [(0, 0, raw j1)]" "late s = []" "pinflight s = [0]"
    "at (bats s) 4 = newBatch" "free (bats s) = []" "map builder_refs (pbuilders s) = [[4], [1], [2], [3]]"
    "bufs s 0 = \<lparr> barr = 0, bcap = rnd 512 \<rparr>" "bufs s 4 = \<lparr> barr = 4, bcap = rnd 512 \<rparr>"
    "anext s = 5" "mem s 0 = write_at 0 (raw j1) (replicate (rnd 512) 0)"
    using first_request [of j1 rnd, OF len(1), folded c_def] by (elim exE conjE) (rule that)
  obtain k rt where "submit c undefined (at (bats s) 0) (pstats s) = (k, rt)" by fastforce
  define s1 where "s1 = s \<lparr> bats := precycle c (int (bcap (bufs s 0))) 0 (bats s), pinflight := [] @ [],
      pretrying := add_retry rt (pretrying s), pstats := k, reading := filter (\<lambda>(b, arr, bs). b \<noteq> 0) (reading s),
      late := map snd (filter (\<lambda>(b, arr, bs). b = 0) (reading s)) @ late s \<rparr>"
  have "pool_step c rnd (Some AWork) s s1"
    unfolding s1_def by (rule pool_step.SettleBatch) (simp add: s, fact)
  with s(1) have r1: "pool_reach c rnd s1" by (rule pool_reach.Step)
  have s1: "quiet s1" "free (bats s1) = [0]" "at (bats s1) 0 = newBatch" "at (bats s1) 4 = newBatch" "pinflight s1 = []"
    "late s1 = [(0, raw j1)]" "map builder_refs (pbuilders s1) = [[4], [1], [2], [3]]" "bufs s1 = bufs s" "mem s1 = mem s"
    using s assms(2)
    by (auto simp: s1_def c_def quiet_def precycle_def recycle_def bodyHintPerTx_def pool_put_def newBatch_def intro: batch.equality)
  have p1: "pcur (pbuilders s1 ! 0) = 4" using s1(7) by (auto simp: builder_refs_def)
  have "bat_pick s1 0" by (simp add: bat_pick_def s1(2))
  from tx_round [OF r1 [unfolded c_def] s1(1) _ this, where j = j1] s1 s(10) p1 len(1)
  obtain s2 b2 where s2: "pool_reach c rnd s2" "quiet s2" "bats s2 = pool_get newBatch 0 (mutate 4 (\<lambda>_. b2) (bats s1))"
    "pbuilders s2 = (pbuilders s1)[0 := (pbuilders s1 ! 0) \<lparr> pcur := 0, ptimer := None, psealed := [] \<rparr>]"
    "pinflight s2 = [4]" "late s2 = [(0, raw j1)]" "bufs s2 = bufs s" "mem s2 0 = mem s 0" "anext s2 = 5"
    by (auto simp: c_def Let_def s1_def s(11))
  have m2: "map builder_refs (pbuilders s2) = [[0], [1], [2], [3]]"
    unfolding s2(4) by (rule refs_update [OF s1(7)]) (simp add: builder_refs_def)
  have b2: "free (bats s2) = []" "at (bats s2) 0 = newBatch" using s2(3) s1 by (simp_all add: pool_get_def)
  have p2: "pcur (pbuilders s2 ! 0) = 0" using m2 by (auto simp: builder_refs_def)
  have "bat_pick s2 5" unfolding bat_pick_def bat_refs_def m2 by (simp add: b2 s2)
  from tx_round [OF s2(1) [unfolded c_def] s2(2) _ this, where j = j2] b2 s2(5-9) p2 s(9) len(2)
  obtain s3 where "pool_reach c rnd s3" "late s3 = [(0, raw j1)]" "mem s3 0 = write_at 0 (raw j2) (mem s 0)"
    by (auto simp: c_def Let_def)
  then show ?thesis using overwritten [of "raw j1" "raw j2"] s(12) by (intro exI [of _ s3] exI [of _ 0]) (simp add: c_def)
qed

theorem recycled_body_overwritten_witness:
  "\<exists>s arr. pool_reach one_tx_config (\<lambda>n. n) s \<and> (arr, [1, 2, 3]) \<in> set (late s) \<and> take 3 (mem s arr) = [9, 8, 3]"
  using recycled_body_overwritten [of "\<lambda>n. n" first_tx second_tx] by (simp add: first_tx_def second_tx_def numeral_3_eq_3)

end
