(* ===== verification/Spec2Isabelle.thy ===== *)
theory Spec2Isabelle
  imports Statslog Feed Pool
begin

text \<open>
  \<^bold>\<open>A verification development for teranode-bridge\<close>

  The bridge (\<open>src/\<close>, Go) stands between an object plane and a Teranode cluster.
  Delivery lanes receive transactions, subtrees and blocks; transactions are
  batched and posted to the cluster's propagation service; subtrees and blocks
  are cached, announced on the cluster's Kafka with the bridge's own URL, and
  served when the cluster pulls them.  The reverse path listens to the cluster's
  notifications, rebuilds what the cluster produced and pushes it up a tunnel.
  A registry of hashes with a direction keeps the two ways from feeding each
  other.

  \<^bold>\<open>Parts and theories\<close>

  \<^item> \<open>Prelude\<close>: results, slices, big- and little-endian fields, hexadecimal,
    strings, Go maps as association lists.  \<open>Sharding\<close>: the 64-way sharding that
    the caches and registries share.  \<open>Store\<close>: the contract of an object store
    (locale \<open>object_store\<close>), interpreted by both caches.
  \<^item> \<open>Sha256\<close>, \<open>Hashid\<close> (\<open>hashid/\<close>): SHA-256 in full, hashes and their display form.
  \<^item> \<open>Registry\<close> (\<open>registry/\<close>): two generations per shard, \<open>Mark\<close>, \<open>Lookup\<close>, \<open>Stats\<close>;
    the marking contract is a locale interpreted on them.  \<open>Cache\<close> and
    \<open>Generational\<close> (\<open>cache/\<close>): the LRU object cache with byte budget and TTL, and
    the generational transaction cache whose admission detects re-delivery.
  \<^item> \<open>Objfmt\<close>: the third-party codec as a record of operations with its documented
    laws.  \<open>Encode\<close> (\<open>encode/\<close>), \<open>Tnwire\<close> (\<open>tnwire/\<close>): frame encoders, the conversion
    to and from Teranode's block serialization, the readers of the coinbase and
    the subtree roots, with 64-bit wrap-around and slice panics written out.
  \<^item> \<open>Txdeps\<close>, \<open>Txpipe\<close>, \<open>Txsubmit\<close>, \<open>Pipeline\<close> (\<open>internal/txpipe/\<close>): the input scan
    of a transaction, batch builders and their seals, submission with partial
    failures and retries, and the running pipe as a step relation labelled by
    who acts (a sender, a builder's work, its shutdown).  \<open>Pool\<close>: the same pipe on
    recycled memory, runs and batches being addresses of two stores with free
    lists (\<open>getJobs\<close>, \<open>putJobs\<close>, \<open>newBatch\<close>, \<open>recycle\<close>) and a batch's body a buffer
    with an array, a capacity and its growth; it refines the value model by an
    interpretation of the locale \<open>stuttering_refinement\<close> of \<open>Prelude\<close>.
  \<^item> \<open>Lanes\<close> (\<open>lanes/\<close>): owned copies in slabs, the connection loop (\<open>serveConn\<close>) over
    what its reader returns, the goroutine beside it that drains or closes the
    connection on cancellation (\<open>drain_goroutine\<close>) and what the loop sees of the
    reader then (\<open>timed_events\<close>), counters under interleaved connections, and the session interface (locale \<open>batching_session\<close>).
    \<open>Admission\<close> (\<open>admitTx\<close>, \<open>handleTx\<close>, \<open>txSession\<close> of \<open>cmd/teranode-bridge/main.go\<close>):
    the transaction lane's session, which interprets that locale.
  \<^item> \<open>FirstPull\<close> (\<open>internal/obs\<close>), \<open>Announce\<close> (\<open>announce/\<close>), \<open>Retrieval\<close>
    (\<open>retrieval/\<close>): the announce-to-pull tracker, announcements, the pull routes.
  \<^item> \<open>Submit\<close> (\<open>internal/submit\<close>), \<open>Tnasset\<close> (\<open>internal/tnasset\<close>), \<open>Reverse\<close>
    (\<open>reverse/\<close>): the up-tunnel, the asset client, the notification handler,
    promotion, dialling policy and cluster state.
  \<^item> \<open>Handlers\<close> (\<open>handleSubtree\<close>, \<open>handleBlock\<close>, \<open>verifyEcho\<close>): the record \<open>bridge\<close> is
    the state \<open>main\<close> gives its handlers.  \<open>System\<close>: deliveries and the reverse path
    over that shared state, in steps that interleave freely.  A notification takes
    two, because the frame is fetched between the registry's look-up and its
    mark.  A delivery takes four, because each connection has its own goroutine
    and the handler holds no lock: everything up to the mark in \<open>seen\<close>, the look-up
    in \<open>announced\<close>, the synchronous announcement, the record in \<open>announced\<close>.
    \<open>subtree_phases\<close>, \<open>block_phases\<close> and \<open>notification_phases\<close> show that the steps,
    taken in a row, are the handlers of the code.
  \<^item> \<open>Health\<close>, \<open>Activation\<close> (\<open>internal/health\<close>, \<open>internal/activation\<close>), \<open>Startup\<close> (the
    rest of \<open>main.go\<close>), \<open>Metrics\<close> (\<open>internal/metrics\<close>): health aggregation, passed
    sockets, flags and what each mode builds, the readiness gate, the series and
    the endpoint's routes.
  \<^item> \<open>Obs\<close> (\<open>internal/obs\<close>, \<open>internal/obs/kafka\<close>, \<open>reverse/clusterstate.go\<close>): histogram
    and gauge families, what is seeded, the call sites that observe and stamp,
    the cluster-state poll with its gauges, the Kafka hooks.
  \<^item> \<open>Lifecycle\<close> (the group of goroutines of \<open>main\<close>): lanes, pipe and the other
    members from the start to \<open>g.Wait\<close>, over the running pipe; its termination is
    an interpretation of the locale \<open>terminating_system\<close> of \<open>Prelude\<close>.  \<open>Process\<close>
    composes tracing (\<open>internal/tracing\<close>), the startup, the recorder's host facts
    and sources, and that group: \<open>main\<close> from the command line to its exit.
    \<open>Statslog\<close>: the statistics lines (\<open>logStats\<close>) and what \<open>main\<close> does after the
    group has returned.
  \<^item> \<open>Tnbench\<close> (\<open>hack/tnbench\<close>): the benchmark's codec copies, its two stand-ins for a
    propagation server and the transactions it feeds.  \<open>Feed\<close>: the feeder's
    connections, rounds and errors.

  \<^bold>\<open>What the theorems show\<close>

  \<^item> End to end: an announced object can be pulled and is the delivered one, as long
    as it fits its shard and later objects have not displaced it; the cluster is
    told of an object no more often than deliveries of it overlap, so once while
    no two connections deliver it together; a failed announcement heals; what came
    from the fabric is not sent back and what was pushed is not announced by a
    delivery that comes after the push.  Announcing and not sending back hold from
    the command line on (\<open>startup_to_wire\<close>).  Exhibited: the stale look-up between
    the two steps of a notification, and two overlapping deliveries that are both
    announced.
  \<^item> Transactions: a batched session refines the plain handler, hands a
    transaction on once, and whenever the lane blocks has sent everything it
    admitted; builders never
    put a parent and its child in one batch; every transaction is accounted for
    by the pipe in every reachable state; partial failures are settled by name.
    Recycling runs and batches is invisible: no address ever has two owners, so
    every run of the pooled pipe is one of the value model.  The array a running
    submission's request reads keeps its bytes until the submission settles; the
    HTTP transport may read on after that, and what it then sees is exhibited.
  \<^item> Stores: retention and byte bounds of registry and caches, what a read may
    return.  Wire formats: lossless block conversion, totality on hostile bytes,
    announcement and asset round trips, alignment of the up-tunnel's stream.
  \<^item> Operation: a draining lane hands on everything that arrives before its read
    deadline, which the FIN and the drain timeout set; promotion follows the probes; a push
    needs a trustworthy view; which faults take the bridge out of rotation.
  \<^item> The whole process: from any accepted command line, in every mode, a stopped
    bridge has no connection left and has booked every transaction its lane handed
    over unless that lane failed to accept; once the group is cancelled it can
    always be brought to its end without a further error, and from the moment the
    pipe is stopped every run ends, whatever the interleaving; how an accept failure strands
    transactions is exhibited.  Every scrape of a started bridge is well formed,
    its series are those seeded at start, a freshness gauge is the second of its
    last event, and the two state gauges agree exactly for the listed states and
    show no state otherwise.  The last statistics line of an orderly exit shows an
    empty queue and every transaction booked; a logged count that differs from the
    series of its name is exhibited.
  \<^item> The benchmark's copies equal the code they mirror; its faithful stand-in accepts
    what a builder seals, and with retries enabled the pipe attributes its error
    reports exactly.  Its
    feeder writes pairwise different transactions on up to 256 connections, and
    repeats itself beyond.

  \<^bold>\<open>Conventions and bounds\<close>

  Strings are byte strings (\<open>char list\<close>), bytes are \<open>8 word\<close>, \<open>int\<close> of the source
  is \<open>int\<close> with \<open>wrap_int\<close> where overflow is possible, \<open>uint64\<close> fields of wire formats
  are \<open>64 word\<close>; statistics counters are natural numbers, except where their
  wrap-around is the point.  Times and durations are integers in nanoseconds.
  A mutex is the atomicity of the operation it guards.  The part of a delivery
  up to its mark in \<open>seen\<close> (the echo check, the put in the cache, a block's root
  marks, each under its own lock) is one step; the theorems about pushes and
  announcements hinge on the mark that ends it and on the later look-up, which
  are steps of their own.  A handler's step reads the clock once where the source
  reads it in each callee, and the transaction lane once per admission.  Loops are structural or have a
  termination proof, and the retry ladders end by their configured attempts.  Two
  loops over a library's answers have fuel, each the length of its input: the
  benchmark's \<open>strict_loop\<close>, enough because every transaction of a delimited body
  has at least one byte, and \<open>decode_fields\<close> of an announcement, enough because
  every tag consumed has at least one.  A histogram
  keeps its observations, durations in nanoseconds, and a freshness gauge whole
  seconds.  A panic is an outcome of its own wherever the source can raise one
  (indexing, slicing, \<open>make\<close>), with one exception: \<open>inputRefs\<close> keeps the panic of
  a wrapped script length, but the builders read only the references the walk
  found (\<open>dependsOnBatch\<close>), so the pipe's steps do not end there; on well-formed
  transactions the walk never panics (\<open>dependsOnBatch_exact\<close>).  Likewise a builder
  that waits on the shared wait group waits again when the count leaves zero,
  where \<open>sync.WaitGroup\<close> may panic (\<open>wait_group_reused\<close>).  What the network, brokers, servers and clocks
  answer are arguments.  The window theorems hold within half a registry's
  time-to-live and a shard's rotation capacity, 15 minutes and 8192 marks with
  the values \<open>main\<close> passes, because both generations may rotate away beyond that.
  The protobuf laws are assumed for valid field numbers only.  How far the
  runtime rounds a buffer's allocation up is a parameter of \<open>Pool\<close>.

  \<^bold>\<open>Not modelled\<close>

  Log messages other than the statistics lines, what the log-level and profiling
  routes answer, keepalive options, HTTP headers and server timeouts, generated protocol
  code, and the benchmark's sockets and printed progress: they observe or
  transport, and decide nothing the properties depend on.  A sink, which has no
  pipe, is stepped as a group whose pipe has no builders and so can do nothing.
  The codec, protobuf wire primitives, gRPC, Kafka, HTTP, Prometheus and
  OpenTelemetry libraries are parameters, or the effect their documentation
  gives (a gauge is a value, a histogram a list of observations).
\<close>

end
